(* ===== verification/Prelude.thy ===== *)
theory Prelude
  imports Main "HOL-Library.Word"
begin

text \<open>
  Shared foundations of the development: the machine types of \<^verbatim>\<open>types.hpp\<close>, the
  fault monad in which every partial C++ operation is written, checked element access on
  contiguous storage (\<^verbatim>\<open>std::span\<close>, \<^verbatim>\<open>std::vector\<close>), and the list and word lemmas the
  components use. The named collections \<open>exec_simps\<close> and \<open>wire_simps\<close> gather the
  rewrite rules of the fault monad and of the wire format.
\<close>

unbundle bit_operations_syntax

named_theorems exec_simps \<open>evaluation rules of the fault monad\<close>
named_theorems wire_simps \<open>closed forms of the wire encoding\<close>

section \<open>Machine types\<close>

type_synonym byte = "8 word"
type_synonym u8 = "8 word"
type_synonym u16 = "16 word"
type_synonym u32 = "32 word"
type_synonym u64 = "64 word"

text \<open>
  The aliases of \<^verbatim>\<open>types.hpp\<close>. \<open>Price\<close> is \<^verbatim>\<open>std::int64_t\<close>: the 64 bits, read as a
  two's-complement number by \<open>sint\<close> wherever the code compares prices.
\<close>

type_synonym Price = "64 word"
type_synonym Quantity = "32 word"
type_synonym OrderId = "64 word"
type_synonym SymbolId = "32 word"
type_synonym Sequence = "32 word"
type_synonym TimestampNs = "64 word"

section \<open>The fault monad\<close>

text \<open>
  A C++ operation whose precondition is violated has undefined behaviour, and a failed
  \<^verbatim>\<open>assert\<close> aborts the process. Both are values here: a computation returns
  \<open>Inl fault\<close> or \<open>Inr result\<close>. The theorems that say a routine returns \<open>Inr\<close> are
  therefore memory-safety statements about the routine.
\<close>

datatype fault =
    OutOfBounds    \<comment> \<open>an element access or subspan outside the storage\<close>
  | BadIterator    \<comment> \<open>dereference or erase through an invalid iterator\<close>
  | SignedOverflow \<comment> \<open>signed arithmetic whose result its type cannot hold\<close>
  | BadConversion  \<comment> \<open>a conversion of a \<^verbatim>\<open>double\<close> to an integer type that cannot hold it\<close>
  | AssertFailed   \<comment> \<open>a false \<^verbatim>\<open>assert\<close> in a build without \<^verbatim>\<open>NDEBUG\<close>\<close>
  | DivisionByZero \<comment> \<open>a remainder by zero\<close>
  | BadRange       \<comment> \<open>a \<^verbatim>\<open>uniform_int_distribution\<close> whose lower bound exceeds its upper\<close>
  | NullFile       \<comment> \<open>a stdio call on a null \<^verbatim>\<open>FILE*\<close>\<close>
  | MissingKey     \<comment> \<open>\<^verbatim>\<open>at\<close> on an absent key, which throws \<^verbatim>\<open>std::out_of_range\<close>\<close>

type_synonym 'a exec = "fault + 'a"

fun ebind :: "'a exec \<Rightarrow> ('a \<Rightarrow> 'b exec) \<Rightarrow> 'b exec" where
  "ebind (Inl e) f = Inl e"
| "ebind (Inr x) f = f x"

lemma ebind_cong [fundef_cong]:
  "m = m' \<Longrightarrow> (\<And>x. m' = Inr x \<Longrightarrow> f x = f' x) \<Longrightarrow> ebind m f = ebind m' f'"
  by (cases m') auto

lemma ebind_assoc: "ebind (ebind m f) g = ebind m (\<lambda>x. ebind (f x) g)"
  by (cases m) auto

lemma ebind_Inr_right [simp]: "ebind m Inr = m"
  by (cases m) auto

lemma ebind_eq_Inr_iff: "ebind m f = Inr y \<longleftrightarrow> (\<exists>x. m = Inr x \<and> f x = Inr y)"
  by (cases m) auto

lemma ebind_if: "ebind (if b then m else m') f = (if b then ebind m f else ebind m' f)"
  by simp

lemmas [exec_simps] = ebind.simps ebind_eq_Inr_iff

text \<open>The result of \<^verbatim>\<open>std::int64_t\<close> arithmetic.\<close>

definition i64_exec :: "int \<Rightarrow> u64 exec" where
  "i64_exec d = (if - (2 ^ 63) \<le> d \<and> d < 2 ^ 63 then Inr (word_of_int d) else Inl SignedOverflow)"

text \<open>\<open>eassert\<close> is \<^verbatim>\<open>assert\<close> in a build without \<^verbatim>\<open>NDEBUG\<close>.\<close>

definition eassert :: "bool \<Rightarrow> unit exec" where
  "eassert b = (if b then Inr () else Inl AssertFailed)"

lemma eassert_simps [simp]: "eassert True = Inr ()" "eassert False = Inl AssertFailed"
  by (simp_all add: eassert_def)

lemma eassert_eq_Inr [simp]: "eassert b = Inr u \<longleftrightarrow> b"
  by (simp add: eassert_def)

section \<open>Contiguous storage\<close>

text \<open>
  A \<^verbatim>\<open>std::span\<close>, \<^verbatim>\<open>std::array\<close> or \<^verbatim>\<open>std::vector\<close> is the list of its elements and a pointer
  into it is an offset. Reads, writes and subspans outside the storage are faults. Sizes
  and offsets are natural numbers: no object exceeds \<open>2 ^ 63 - 1\<close> bytes, so the
  \<^verbatim>\<open>std::size_t\<close> sums of the code do not wrap.
\<close>

definition rd :: "'a list \<Rightarrow> nat \<Rightarrow> 'a exec" where
  "rd xs i = (if i < length xs then Inr (xs ! i) else Inl OutOfBounds)"

definition wr :: "'a list \<Rightarrow> nat \<Rightarrow> 'a \<Rightarrow> 'a list exec" where
  "wr xs i v = (if i < length xs then Inr (xs[i := v]) else Inl OutOfBounds)"

definition subspan :: "'a list \<Rightarrow> nat \<Rightarrow> nat \<Rightarrow> 'a list exec" where
  "subspan xs off n =
     (if off + n \<le> length xs then Inr (take n (drop off xs)) else Inl OutOfBounds)"

text \<open>\<^verbatim>\<open>s.subspan(off)\<close>: the rest of the span from \<open>off\<close>.\<close>

definition subspan_from :: "'a list \<Rightarrow> nat \<Rightarrow> 'a list exec" where
  "subspan_from xs off = (if off \<le> length xs then Inr (drop off xs) else Inl OutOfBounds)"

lemma rd_Inr [simp]: "i < length xs \<Longrightarrow> rd xs i = Inr (xs ! i)"
  by (simp add: rd_def)

lemma wr_Inr [simp]: "i < length xs \<Longrightarrow> wr xs i v = Inr (xs[i := v])"
  by (simp add: wr_def)

lemma subspan_Inr [simp]:
  "off + n \<le> length xs \<Longrightarrow> subspan xs off n = Inr (take n (drop off xs))"
  by (simp add: subspan_def)

lemma subspan_from_Inr [simp]:
  "off \<le> length xs \<Longrightarrow> subspan_from xs off = Inr (drop off xs)"
  by (simp add: subspan_from_def)

section \<open>Lists and words\<close>

lemma take_drop_splice:
  assumes "p + length bs \<le> length xs"
  shows "take (length bs) (drop p (take p xs @ bs @ ys)) = bs"
  using assms by simp

lemma nth_take_drop: "i < n \<Longrightarrow> p + n \<le> length xs \<Longrightarrow> take n (drop p xs) ! i = xs ! (p + i)"
  by simp

lemma take_drop_append_left:
  "p + n \<le> length xs \<Longrightarrow> take n (drop p (xs @ ys)) = take n (drop p xs)"
  by simp

lemma unat_u32_less: "unat (w :: u32) < 2 ^ 32"
  using unsigned_less [of w] by simp

lemma unat_Suc_64: "unat w < 2 ^ 64 - 1 \<Longrightarrow> unat ((w :: u64) + 1) = Suc (unat w)"
  by (simp add: unat_word_ariths)

end
