(* ===== verification/Containers.thy ===== *)
theory Containers
  imports Prelude
begin

text \<open>
  The parts of the standard containers the order book relies on. \<^verbatim>\<open>std::map<K, V, C>\<close> is
  the list of its entries in iteration order, with the comparator as a parameter of the
  operations that search; \<^verbatim>\<open>std::unordered_map\<close> is the list of its entries in some
  iteration order, which no operation depends on. The locale \<open>ordered_map\<close> states what the
  comparator must satisfy and proves, once, what the book needs of the ordered map; it is
  interpreted for the comparators of both sides of the book.
\<close>

section \<open>\<^verbatim>\<open>std::map\<close>\<close>

type_synonym ('k, 'v) omap = "('k \<times> 'v) list"

fun om_find :: "('k \<Rightarrow> 'k \<Rightarrow> bool) \<Rightarrow> 'k \<Rightarrow> ('k, 'v) omap \<Rightarrow> 'v option" where
  "om_find before k [] = None"
| "om_find before k ((k', v) # m) =
     (if before k k' then None else if before k' k then om_find before k m else Some v)"

text \<open>\<^verbatim>\<open>try_emplace\<close>: the map, and whether the key was inserted.\<close>

fun om_try_emplace ::
  "('k \<Rightarrow> 'k \<Rightarrow> bool) \<Rightarrow> 'k \<Rightarrow> 'v \<Rightarrow> ('k, 'v) omap \<Rightarrow> ('k, 'v) omap \<times> bool" where
  "om_try_emplace before k v [] = ([(k, v)], True)"
| "om_try_emplace before k v ((k', v') # m) =
     (if before k k' then ((k, v) # (k', v') # m, True)
      else if before k' k then
        (let (m', inserted) = om_try_emplace before k v m in ((k', v') # m', inserted))
      else ((k', v') # m, False))"

text \<open>A write through the iterator of an existing entry, and \<^verbatim>\<open>erase\<close> of an entry.\<close>

definition om_assign :: "'k \<Rightarrow> 'v \<Rightarrow> ('k, 'v) omap \<Rightarrow> ('k, 'v) omap" where
  "om_assign k v m = map (\<lambda>(k', v'). (k', if k' = k then v else v')) m"

definition om_erase :: "'k \<Rightarrow> ('k, 'v) omap \<Rightarrow> ('k, 'v) omap" where
  "om_erase k m = filter (\<lambda>(k', v). k' \<noteq> k) m"

lemma map_fst_om_assign [simp]: "map fst (om_assign k v m) = map fst m"
  by (induction m) (auto simp: om_assign_def)

lemma map_of_om_assign_at:
  "map_of (om_assign k v m) j = (if j = k then map_option (\<lambda>_. v) (map_of m k) else map_of m j)"
  by (induction m) (auto simp: om_assign_def)

lemma map_of_om_assign:
  "map_of m k = Some w \<Longrightarrow> map_of (om_assign k v m) = (map_of m)(k \<mapsto> v)"
  by (auto simp: map_of_om_assign_at fun_eq_iff)

lemma map_of_om_erase [simp]: "map_of (om_erase k m) = (map_of m)(k := None)"
  by (induction m) (auto simp: om_erase_def fun_eq_iff)

locale ordered_map =
  fixes before :: "'k \<Rightarrow> 'k \<Rightarrow> bool"
  assumes irrefl: "\<not> before k k"
    and trans: "before j k \<Longrightarrow> before k l \<Longrightarrow> before j l"
    and total: "\<not> before j k \<Longrightarrow> \<not> before k j \<Longrightarrow> j = k"
begin

definition ordered :: "('k, 'v) omap \<Rightarrow> bool" where
  "ordered m \<longleftrightarrow> sorted_wrt before (map fst m)"

lemma ordered_Nil [simp]: "ordered []"
  by (simp add: ordered_def)

lemma ordered_Cons:
  "ordered ((k, v) # m) \<longleftrightarrow> (\<forall>k' \<in> fst ` set m. before k k') \<and> ordered m"
  by (auto simp: ordered_def)

lemma ordered_distinct: "ordered m \<Longrightarrow> distinct (map fst m)"
  by (induction m) (auto simp: ordered_def irrefl image_iff dest!: bspec)

lemma not_found_before: "\<forall>k' \<in> fst ` set m. before k k' \<Longrightarrow> map_of m k = None"
  by (auto simp: map_of_eq_None_iff irrefl)

lemma find_eq: "ordered m \<Longrightarrow> om_find before k m = map_of m k"
proof (induction m)
  case (Cons e m)
  obtain k' v where e: "e = (k', v)" by fastforce
  with Cons.prems have "\<forall>j \<in> fst ` set m. before k' j" and "ordered m"
    by (auto simp: ordered_Cons)
  moreover have "before k k' \<Longrightarrow> map_of m k = None"
    using calculation(1) trans by (intro not_found_before) blast
  ultimately show ?case
    using Cons.IH total [of k k'] e irrefl by auto
qed simp

lemma try_emplace_keys:
  "fst ` set (fst (om_try_emplace before k v m)) = insert k (fst ` set m)"
proof (induction m)
  case (Cons e m)
  obtain k' v' where "e = (k', v')" by fastforce
  with Cons.IH show ?case
    using total [of k k'] by (auto simp: Let_def split_beta image_iff)
qed simp

lemma try_emplace_ordered: "ordered m \<Longrightarrow> ordered (fst (om_try_emplace before k v m))"
proof (induction m)
  case (Cons e m)
  obtain k' v' where e: "e = (k', v')" by fastforce
  show ?case
  proof (cases "before k k'")
    case True
    with Cons.prems e trans show ?thesis by (auto simp: ordered_Cons)
  next
    case False
    with Cons e show ?thesis
      by (auto simp: ordered_Cons Let_def split_beta try_emplace_keys)
  qed
qed (simp add: ordered_def)

lemma try_emplace_eq:
  "ordered m \<Longrightarrow> map_of (fst (om_try_emplace before k v m)) =
     (case map_of m k of None \<Rightarrow> (map_of m)(k \<mapsto> v) | Some _ \<Rightarrow> map_of m) \<and>
   snd (om_try_emplace before k v m) = (map_of m k = None)"
proof (induction m)
  case (Cons e m)
  obtain k' v' where e: "e = (k', v')" by fastforce
  with Cons.prems have tail: "\<forall>j \<in> fst ` set m. before k' j" "ordered m"
    by (auto simp: ordered_Cons)
  consider (before) "before k k'" | (after) "before k' k" "\<not> before k k'" | (same) "k = k'"
    using total by blast
  then show ?case
  proof cases
    case before
    then have "map_of m k = None" "k \<noteq> k'"
      using tail(1) trans irrefl by (blast intro: not_found_before)+
    with before e show ?thesis by (auto simp: fun_eq_iff)
  next
    case after
    then have "k \<noteq> k'" using irrefl by blast
    with after Cons.IH tail(2) e show ?thesis
      by (auto simp: Let_def split_beta fun_eq_iff split: option.splits)
  next
    case same
    with e irrefl show ?thesis by simp
  qed
qed simp

lemma assign_ordered: "ordered m \<Longrightarrow> ordered (om_assign k v m)"
  by (simp add: ordered_def)

lemma erase_ordered: "ordered m \<Longrightarrow> ordered (om_erase k m)"
  by (induction m) (auto simp: ordered_def om_erase_def)

text \<open>The first entry is the least key of the map.\<close>

lemma first_least: "ordered ((k, v) # m) \<Longrightarrow> map_of ((k, v) # m) k' = Some v' \<Longrightarrow> k' = k \<or> before k k'"
  by (auto simp: ordered_Cons dest!: map_of_SomeD split: if_splits)

end

section \<open>\<^verbatim>\<open>std::unordered_map\<close>\<close>

type_synonym ('k, 'v) umap = "('k \<times> 'v) list"

text \<open>\<^verbatim>\<open>emplace\<close> leaves an existing entry alone.\<close>

definition um_emplace :: "'k \<Rightarrow> 'v \<Rightarrow> ('k, 'v) umap \<Rightarrow> ('k, 'v) umap" where
  "um_emplace k v m = (case map_of m k of None \<Rightarrow> (k, v) # m | Some _ \<Rightarrow> m)"

abbreviation um_assign :: "'k \<Rightarrow> 'v \<Rightarrow> ('k, 'v) umap \<Rightarrow> ('k, 'v) umap" where
  "um_assign \<equiv> om_assign"

abbreviation um_erase :: "'k \<Rightarrow> ('k, 'v) umap \<Rightarrow> ('k, 'v) umap" where
  "um_erase \<equiv> om_erase"

lemma map_of_um_emplace:
  "map_of m k = None \<Longrightarrow> map_of (um_emplace k v m) = (map_of m)(k \<mapsto> v)"
  by (simp add: um_emplace_def)

lemma distinct_um_emplace:
  "distinct (map fst m) \<Longrightarrow> distinct (map fst (um_emplace k v m))"
  by (auto simp: um_emplace_def map_of_eq_None_iff split: option.split)

lemma distinct_om_erase: "distinct (map fst m) \<Longrightarrow> distinct (map fst (om_erase k m))"
  by (induction m) (auto simp: om_erase_def)

end
