(* ===== verification/Byte_Order.thy ===== *)
theory Byte_Order
  imports Prelude
begin

text \<open>
  Model of \<^verbatim>\<open>include/mdfh/byte_order.hpp\<close>: the byte-by-byte little-endian stores and
  loads through which every scalar passes. The C++ templates are polymorphic in the
  integer type; so are these functions, in the word length. Both loops are written over
  checked memory accesses. The main results are the closed forms \<open>store_le_Inr\<close> and
  \<open>load_le_Inr\<close>, the round trips between them, and the compositional rule
  \<open>writes_bind\<close> by which the message encoders are verified.
\<close>

section \<open>The routines\<close>

text \<open>\<^verbatim>\<open>sizeof(U)\<close> for the integer type with the bits of the word type.\<close>

definition sizeof :: "'a::len itself \<Rightarrow> nat" where
  "sizeof _ = LENGTH('a) div 8"

text \<open>
  \<^verbatim>\<open>store_le\<close>: the value is widened to \<^verbatim>\<open>uintmax_t\<close> and its low byte is peeled off
  \<^verbatim>\<open>sizeof(U)\<close> times; the result is the storage and the pointer past the written bytes.
\<close>

function store_le_loop :: "nat \<Rightarrow> nat \<Rightarrow> byte list \<Rightarrow> nat \<Rightarrow> u64 \<Rightarrow> byte list exec" where
  "store_le_loop n i dst p u =
     (if i < n
      then ebind (wr dst (p + i) (ucast (u AND 0xFF)))
             (\<lambda>dst. store_le_loop n (Suc i) dst p (drop_bit 8 u))
      else Inr dst)"
  by pat_completeness auto
termination
  by (relation "measure (\<lambda>(n, i, dst, p, u). n - i)") auto

definition store_le :: "byte list \<Rightarrow> nat \<Rightarrow> 'a::len word \<Rightarrow> (byte list \<times> nat) exec" where
  "store_le dst p value =
     ebind (store_le_loop (sizeof TYPE('a)) 0 dst p (ucast value))
       (\<lambda>dst. Inr (dst, p + sizeof TYPE('a)))"

text \<open>\<^verbatim>\<open>load_le\<close>: the bytes are shifted into place and or-ed together at the type's width.\<close>

function load_le_loop :: "nat \<Rightarrow> nat \<Rightarrow> byte list \<Rightarrow> nat \<Rightarrow> 'a::len word \<Rightarrow> 'a word exec" where
  "load_le_loop n i src p u =
     (if i < n
      then ebind (rd src (p + i))
             (\<lambda>b. load_le_loop n (Suc i) src p
                    (ucast ((ucast u :: u64) OR push_bit (8 * i) (ucast b))))
      else Inr u)"
  by pat_completeness auto
termination
  by (relation "measure (\<lambda>(n, i, src, p, u). n - i)") auto

definition load_le :: "byte list \<Rightarrow> nat \<Rightarrow> 'a::len word exec" where
  "load_le src p = load_le_loop (sizeof TYPE('a)) 0 src p 0"

declare store_le_loop.simps [simp del] load_le_loop.simps [simp del]

section \<open>Closed forms\<close>

text \<open>The little-endian bytes of a value, and the value of little-endian bytes.\<close>

definition le_bytes :: "'a::len word \<Rightarrow> byte list" where
  "le_bytes v = map (\<lambda>i. ucast (drop_bit (8 * i) (ucast v :: u64))) [0..<sizeof TYPE('a)]"

primrec le_value :: "byte list \<Rightarrow> 'a::len word" where
  "le_value [] = 0"
| "le_value (b # bs) = ucast b OR push_bit 8 (le_value bs)"

text \<open>
  The integer types the templates are instantiated with: a whole number of bytes, at
  most the width of \<^verbatim>\<open>uintmax_t\<close>.
\<close>

definition scalar :: "'a::len itself \<Rightarrow> bool" where
  "scalar _ \<longleftrightarrow> 8 dvd LENGTH('a) \<and> LENGTH('a) \<le> 64"

lemma scalar_simps [simp]:
  "scalar TYPE(8)" "scalar TYPE(16)" "scalar TYPE(32)" "scalar TYPE(64)"
  by (simp_all add: scalar_def)

lemma sizeof_simps [simp]:
  "sizeof TYPE(8) = 1" "sizeof TYPE(16) = 2" "sizeof TYPE(32) = 4" "sizeof TYPE(64) = 8"
  by (simp_all add: sizeof_def)

lemma length_le_bytes [simp]: "length (le_bytes (v :: 'a::len word)) = sizeof TYPE('a)"
  by (simp add: le_bytes_def)

lemma bit_mask_byte: "bit (0xFF :: u64) k \<longleftrightarrow> k < 8"
proof -
  have "(0xFF :: u64) = mask 8" by (simp add: mask_eq_exp_minus_1)
  then have "bit (0xFF :: u64) k \<longleftrightarrow> bit (mask 8 :: u64) k" by (rule arg_cong)
  also have "\<dots> \<longleftrightarrow> k < 8" by (simp only: Word.bit_mask_iff) auto
  finally show ?thesis .
qed

lemma ucast_low_byte: "(ucast ((u :: u64) AND 0xFF) :: byte) = ucast u"
  by (rule bit_word_eqI) (simp add: bit_ucast_iff bit_and_iff bit_mask_byte del: bit_numeral_word_iff)

lemma store_le_loop_Inr:
  assumes "p + n \<le> length dst" and "i \<le> n"
  shows "store_le_loop n i dst p u =
    Inr (take (p + i) dst @ map (\<lambda>k. ucast (drop_bit (8 * k) u)) [0..<n - i] @ drop (p + n) dst)"
  using assms
proof (induction n i dst p u rule: store_le_loop.induct)
  case (1 n i dst p u)
  let ?dst = "dst[p + i := ucast (u AND 0xFF)]"
  show ?case
  proof (cases "i < n")
    case True
    have upt: "[0..<n - i] = 0 # map Suc [0..<n - Suc i]"
      using True by (simp add: map_Suc_upt upt_conv_Cons Suc_diff_Suc)
    have "store_le_loop n (Suc i) ?dst p (drop_bit 8 u) =
      Inr (take (p + Suc i) ?dst @
        map (\<lambda>k. ucast (drop_bit (8 * k) (drop_bit 8 u))) [0..<n - Suc i] @ drop (p + n) ?dst)"
      using "1.prems" True by (intro "1.IH") simp_all
    moreover have "take (p + Suc i) ?dst = take (p + i) dst @ [ucast u]"
      using "1.prems" True by (simp add: take_Suc_conv_app_nth ucast_low_byte)
    ultimately show ?thesis
      using "1.prems" True by (simp add: store_le_loop.simps [of n i] upt o_def add.commute)
  next
    case False
    with "1.prems" show ?thesis by (subst store_le_loop.simps) simp
  qed
qed

lemma store_le_Inr [wire_simps]:
  fixes v :: "'a::len word"
  assumes "p + sizeof TYPE('a) \<le> length dst"
  shows "store_le dst p v =
    Inr (take p dst @ le_bytes v @ drop (p + sizeof TYPE('a)) dst, p + sizeof TYPE('a))"
  using assms by (simp add: store_le_def store_le_loop_Inr le_bytes_def)

text \<open>A store that does not fit is a fault: the routine has no bounds check of its own.\<close>

lemma store_le_loop_OutOfBounds:
  "length dst < p + n \<Longrightarrow> i < n \<Longrightarrow> store_le_loop n i dst p u = Inl OutOfBounds"
proof (induction n i dst p u rule: store_le_loop.induct)
  case (1 n i dst p u)
  show ?case
  proof (cases "p + i < length dst")
    case True
    with "1.prems" have "Suc i < n" by simp
    with True "1.prems" "1.IH" show ?thesis by (simp add: store_le_loop.simps [of n i])
  next
    case False
    with "1.prems" show ?thesis by (simp add: store_le_loop.simps [of n i] wr_def)
  qed
qed

lemma bit_le_value:
  "bit (le_value bs :: 'a::len word) k \<longleftrightarrow>
     k < LENGTH('a) \<and> k div 8 < length bs \<and> bit (bs ! (k div 8)) (k mod 8)"
proof (induction bs arbitrary: k)
  case (Cons b bs)
  show ?case
  proof (cases "k < 8")
    case True
    then show ?thesis by (auto simp: bit_simps dest: bit_imp_le_length)
  next
    case False
    then have "k div 8 = Suc ((k - 8) div 8)" and "k mod 8 = (k - 8) mod 8"
      by (simp_all add: le_div_geq le_mod_geq)
    with False show ?thesis
      by (auto simp: bit_simps Cons.IH dest: bit_imp_le_length)
  qed
qed simp

lemma byte_index: "8 * i \<le> k \<and> k - 8 * i < 8 \<longleftrightarrow> i = k div 8" for i k :: nat
proof
  assume "8 * i \<le> k \<and> k - 8 * i < 8"
  then show "i = k div 8" by (intro div_nat_eqI [symmetric]) auto
next
  assume "i = k div 8"
  then show "8 * i \<le> k \<and> k - 8 * i < 8" by (simp add: minus_mult_div_eq_mod)
qed

lemma upto_split:
  "i < n \<Longrightarrow> (P \<or> A \<and> i = q \<and> B i) \<or> A \<and> Suc i \<le> q \<and> q < n \<and> B q \<longleftrightarrow>
     P \<or> A \<and> i \<le> q \<and> q < n \<and> B q" for i n q :: nat
  by (auto simp: Suc_le_eq le_less)

lemma load_le_loop_bits:
  fixes u :: "'a::len word"
  assumes "p + n \<le> length src" and "LENGTH('a) \<le> 64" and "n \<le> 8"
  shows "\<exists>r. load_le_loop n i src p u = Inr r \<and>
    (\<forall>k. bit r k \<longleftrightarrow> bit u k \<or>
       k < LENGTH('a) \<and> i \<le> k div 8 \<and> k div 8 < n \<and> bit (src ! (p + k div 8)) (k mod 8))"
  using assms
proof (induction n i src p u rule: load_le_loop.induct)
  case (1 n i src p u)
  show ?case
  proof (cases "i < n")
    case True
    let ?u = "ucast ((ucast u :: u64) OR push_bit (8 * i) (ucast (src ! (p + i)))) :: 'a word"
    have rd: "rd src (p + i) = Inr (src ! (p + i))" using True "1.prems" by simp
    have u: "bit ?u k \<longleftrightarrow> bit u k \<or>
        k < LENGTH('a) \<and> i = k div 8 \<and> bit (src ! (p + i)) (k mod 8)" for k
    proof -
      have "bit ?u k \<longleftrightarrow> bit u k \<or>
          k < LENGTH('a) \<and> 8 * i \<le> k \<and> k - 8 * i < 8 \<and> bit (src ! (p + i)) (k - 8 * i)"
        using "1.prems"(2) by (auto simp: bit_simps dest: bit_imp_le_length)
      also have "\<dots> \<longleftrightarrow> bit u k \<or>
          k < LENGTH('a) \<and> i = k div 8 \<and> bit (src ! (p + i)) (k mod 8)"
        by (simp only: byte_index conj_assoc [symmetric]) (auto simp: minus_mult_div_eq_mod)
      finally show ?thesis .
    qed
    from "1.IH" [OF True rd] "1.prems" obtain r where
      r: "load_le_loop n (Suc i) src p ?u = Inr r"
      and b: "\<forall>k. bit r k \<longleftrightarrow> bit ?u k \<or>
        k < LENGTH('a) \<and> Suc i \<le> k div 8 \<and> k div 8 < n \<and> bit (src ! (p + k div 8)) (k mod 8)"
      by blast
    have "bit r k \<longleftrightarrow> bit u k \<or>
        k < LENGTH('a) \<and> i \<le> k div 8 \<and> k div 8 < n \<and> bit (src ! (p + k div 8)) (k mod 8)" for k
      using spec [OF b, of k] unfolding u
      by (rule trans)
        (rule upto_split [OF True, where B = "\<lambda>j. bit (src ! (p + j)) (k mod 8)"])
    with r rd True show ?thesis by (simp add: load_le_loop.simps [of n i])
  next
    case False
    then show ?thesis by (auto simp: load_le_loop.simps [of n i])
  qed
qed

lemma load_le_Inr [wire_simps]:
  fixes src :: "byte list"
  assumes "p + sizeof TYPE('a) \<le> length src" and "scalar TYPE('a)"
  shows "load_le src p = Inr (le_value (take (sizeof TYPE('a)) (drop p src)) :: 'a::len word)"
proof -
  let ?n = "sizeof TYPE('a)"
  from assms(2) have len: "LENGTH('a) \<le> 64" "?n \<le> 8" "LENGTH('a) = 8 * ?n"
    by (auto simp: scalar_def sizeof_def)
  from load_le_loop_bits [OF assms(1) len(1,2), of 0 0] obtain r :: "'a word" where
    r: "load_le src p = Inr r" and
    b: "\<forall>k. bit r k \<longleftrightarrow>
          k < LENGTH('a) \<and> k div 8 < ?n \<and> bit (src ! (p + k div 8)) (k mod 8)"
    by (auto simp: load_le_def)
  have "r = le_value (take ?n (drop p src))"
  proof (rule bit_word_eqI)
    fix k assume "k < LENGTH('a)"
    moreover from this have "k div 8 < ?n" using len(3) by (intro less_mult_imp_div_less) simp
    ultimately show "bit r k \<longleftrightarrow> bit (le_value (take ?n (drop p src)) :: 'a word) k"
      using assms(1) by (simp add: bit_le_value spec [OF b] nth_take_drop)
  qed
  with r show ?thesis by simp
qed

section \<open>Round trips\<close>

lemma bit_le_bytes:
  fixes v :: "'a::len word"
  assumes "i < sizeof TYPE('a)" and "LENGTH('a) \<le> 64"
  shows "bit (le_bytes v ! i) j \<longleftrightarrow> j < 8 \<and> bit v (8 * i + j)"
  using assms by (auto simp: le_bytes_def bit_simps dest: bit_imp_le_length)

lemma le_value_le_bytes [simp]:
  fixes v :: "'a::len word"
  assumes "scalar TYPE('a)"
  shows "le_value (le_bytes v) = v"
proof (rule bit_word_eqI)
  fix k assume "k < LENGTH('a)"
  moreover have "LENGTH('a) = 8 * sizeof TYPE('a)" "LENGTH('a) \<le> 64"
    using assms by (auto simp: scalar_def sizeof_def)
  ultimately show "bit (le_value (le_bytes v) :: 'a word) k \<longleftrightarrow> bit v k"
    by (auto simp: bit_le_value bit_le_bytes)
qed

lemma le_bytes_byte: "le_bytes (b :: byte) = [b]"
proof -
  have "ucast (ucast b :: u64) = b" by (rule bit_word_eqI) (simp add: bit_simps)
  then show ?thesis by (simp add: le_bytes_def sizeof_def)
qed

lemma le_bytes_le_value:
  assumes "scalar TYPE('a)" and "length bs = sizeof TYPE('a)"
  shows "le_bytes (le_value bs :: 'a::len word) = bs"
proof (rule nth_equalityI)
  show "length (le_bytes (le_value bs :: 'a word)) = length bs" using assms by simp
next
  fix i assume "i < length (le_bytes (le_value bs :: 'a word))"
  then have i: "i < sizeof TYPE('a)" by simp
  have len: "LENGTH('a) = 8 * sizeof TYPE('a)" "LENGTH('a) \<le> 64"
    using assms(1) by (auto simp: scalar_def sizeof_def)
  show "le_bytes (le_value bs :: 'a word) ! i = bs ! i"
  proof (rule bit_word_eqI)
    fix j assume j: "j < LENGTH(8)"
    with i len have "8 * i + j < LENGTH('a)" by simp
    with i j len assms(2) show "bit (le_bytes (le_value bs :: 'a word) ! i) j \<longleftrightarrow> bit (bs ! i) j"
      by (simp add: bit_le_bytes bit_le_value)
  qed
qed

section \<open>Composing stores\<close>

text \<open>
  \<open>writes f bs\<close>: wherever \<open>bs\<close> fits, the routine \<open>f\<close> puts exactly the bytes \<open>bs\<close> at the
  pointer, leaves the rest of the storage alone and returns the pointer past them.
\<close>

definition writes :: "(byte list \<Rightarrow> nat \<Rightarrow> (byte list \<times> nat) exec) \<Rightarrow> byte list \<Rightarrow> bool" where
  "writes f bs \<longleftrightarrow> (\<forall>dst p. p + length bs \<le> length dst \<longrightarrow>
     f dst p = Inr (take p dst @ bs @ drop (p + length bs) dst, p + length bs))"

lemma writes_store_le: "writes (\<lambda>dst p. store_le dst p v) (le_bytes v)"
  by (simp add: writes_def store_le_Inr)

lemma writes_nothing: "writes (\<lambda>dst p. Inr (dst, p)) []"
  by (simp add: writes_def)

lemma writes_bind:
  assumes "writes f bs" and "writes g cs"
  shows "writes (\<lambda>dst p. ebind (f dst p) (\<lambda>(dst, p). g dst p)) (bs @ cs)"
  using assms by (auto simp: writes_def ac_simps)

lemma writesD:
  "writes f bs \<Longrightarrow> p + length bs \<le> length dst \<Longrightarrow>
     f dst p = Inr (take p dst @ bs @ drop (p + length bs) dst, p + length bs)"
  by (simp add: writes_def)

lemmas writes_intros = writes_bind writes_store_le writes_nothing

section \<open>Properties\<close>

text \<open>A scalar stored little-endian at any place of a buffer is read back unchanged, and no
  other byte of the buffer is touched; in particular the store does not run over the buffer.\<close>

theorem store_load_roundtrip:
  fixes v :: "'a::len word"
  assumes "scalar TYPE('a)" and "p + sizeof TYPE('a) \<le> length dst"
  shows "\<exists>dst'. store_le dst p v = Inr (dst', p + sizeof TYPE('a)) \<and> load_le dst' p = Inr v \<and>
    length dst' = length dst \<and> take p dst' = take p dst \<and>
    drop (p + sizeof TYPE('a)) dst' = drop (p + sizeof TYPE('a)) dst"
proof -
  let ?dst = "take p dst @ le_bytes v @ drop (p + sizeof TYPE('a)) dst"
  have "store_le dst p v = Inr (?dst, p + sizeof TYPE('a))"
    using assms(2) by (rule store_le_Inr)
  moreover have "load_le ?dst p = Inr v"
    using assms by (simp add: load_le_Inr)
  ultimately show ?thesis using assms(2) by auto
qed

theorem store_load_roundtrip_witness:
  "\<exists>dst'. store_le [1, 2, 3, 4] 1 (0xBEEF :: u16) = Inr (dst', 3) \<and> load_le dst' 1 = Inr (0xBEEF :: u16) \<and>
    length dst' = 4 \<and> take 1 dst' = [1] \<and> drop 3 dst' = [4]"
  using store_load_roundtrip [where v = "0xBEEF :: u16" and p = 1 and dst = "[1, 2, 3, 4]"]
  by (simp add: numeral_eq_Suc)

end
