(* ===== verification/Protocol.thy ===== *)
theory Protocol
  imports Byte_Order
begin

text \<open>
  Model of \<^verbatim>\<open>include/mdfh/types.hpp\<close> and \<^verbatim>\<open>include/mdfh/protocol.hpp\<close>: sides, message
  types, the decoded header and bodies, and the wire sizes. A C++ aggregate is a record
  whose fields carry the message's prefix (\<^verbatim>\<open>AddOrder::symbol\<close> is \<open>ao_symbol\<close>).
\<close>

section \<open>Types\<close>

definition kPriceScale :: int where
  "kPriceScale = 10000"

text \<open>
  \<^verbatim>\<open>enum class Side : std::uint8_t\<close> has a fixed underlying type, so each of its 256 bit
  patterns is a value of the type, and the decoders do produce all of them: they cast the
  wire byte without a check. The model therefore wraps the byte and names the two
  enumerators.
\<close>

datatype Side = Side (side_raw: u8)

abbreviation Buy :: Side where "Buy \<equiv> Side 0"
abbreviation Sell :: Side where "Sell \<equiv> Side 1"

definition opposite :: "Side \<Rightarrow> Side" where
  "opposite s = (if s = Buy then Sell else Buy)"

definition side_to_string :: "Side \<Rightarrow> string" where
  "side_to_string s = (if s = Buy then ''BUY'' else ''SELL'')"

lemma opposite_simps [simp]:
  "opposite Buy = Sell" "opposite Sell = Buy" "opposite (opposite (opposite s)) = opposite s"
  by (simp_all add: opposite_def)

section \<open>Message types and headers\<close>

definition kProtocolVersion :: u8 where
  "kProtocolVersion = 1"

datatype MsgType = Heartbeat | AddOrder | CancelOrder | ModifyOrder | Trade | BookSnapshot

text \<open>The enumerators' values, and \<^verbatim>\<open>static_cast<MsgType>\<close> on a validated byte.\<close>

fun msg_type_code :: "MsgType \<Rightarrow> u8" where
  "msg_type_code Heartbeat = 0"
| "msg_type_code AddOrder = 1"
| "msg_type_code CancelOrder = 2"
| "msg_type_code ModifyOrder = 3"
| "msg_type_code Trade = 4"
| "msg_type_code BookSnapshot = 5"

definition is_valid_msg_type :: "u8 \<Rightarrow> bool" where
  "is_valid_msg_type v \<longleftrightarrow> v \<le> msg_type_code BookSnapshot"

definition msg_type_cast :: "u8 \<Rightarrow> MsgType" where
  "msg_type_cast v =
     (if v = 0 then Heartbeat else if v = 1 then AddOrder else if v = 2 then CancelOrder
      else if v = 3 then ModifyOrder else if v = 4 then Trade else BookSnapshot)"

record MessageHeader =
  hdr_type :: MsgType
  hdr_version :: u8
  hdr_body_size :: u16
  hdr_sequence :: Sequence
  hdr_timestamp :: TimestampNs

definition kHeaderWireSize :: nat where
  "kHeaderWireSize = 16"

lemma is_valid_msg_type_code [simp]: "is_valid_msg_type (msg_type_code t)"
  by (cases t) (simp_all add: is_valid_msg_type_def)

lemma msg_type_cast_code [simp]: "msg_type_cast (msg_type_code t) = t"
  by (cases t) (simp_all add: msg_type_cast_def)

lemma msg_type_code_cast:
  assumes "is_valid_msg_type v"
  shows "msg_type_code (msg_type_cast v) = v"
proof -
  from assms have "unat v \<le> 5" by (simp add: is_valid_msg_type_def word_le_nat_alt)
  then consider "unat v = 0" | "unat v = 1" | "unat v = 2" | "unat v = 3" | "unat v = 4"
    | "unat v = 5" by linarith
  then have "v = 0 \<or> v = 1 \<or> v = 2 \<or> v = 3 \<or> v = 4 \<or> v = 5"
    by cases (simp_all add: word_unat_eq_iff)
  then show ?thesis by (auto simp: msg_type_cast_def)
qed

section \<open>Message bodies\<close>

record AddOrder =
  ao_symbol :: SymbolId
  ao_order_id :: OrderId
  ao_side :: Side
  ao_price :: Price
  ao_quantity :: Quantity

record CancelOrder =
  co_symbol :: SymbolId
  co_order_id :: OrderId

record ModifyOrder =
  mo_symbol :: SymbolId
  mo_order_id :: OrderId
  mo_new_price :: Price
  mo_new_quantity :: Quantity

record Trade =
  tr_symbol :: SymbolId
  tr_resting_order_id :: OrderId
  tr_price :: Price
  tr_quantity :: Quantity
  tr_aggressor_side :: Side

record SnapshotLevel =
  sl_price :: Price
  sl_quantity :: Quantity

definition kMaxSnapshotLevels :: nat where
  "kMaxSnapshotLevels = 5"

text \<open>
  The two \<^verbatim>\<open>std::array<SnapshotLevel, 5>\<close> are lists; \<open>snapshot_ok\<close> says that they have the
  arrays' length, which every C++ value has.
\<close>

record BookSnapshot =
  bs_symbol :: SymbolId
  bs_num_bid_levels :: u8
  bs_num_ask_levels :: u8
  bs_bids :: "SnapshotLevel list"
  bs_asks :: "SnapshotLevel list"

definition snapshot_ok :: "BookSnapshot \<Rightarrow> bool" where
  "snapshot_ok s \<longleftrightarrow>
     length (bs_bids s) = kMaxSnapshotLevels \<and> length (bs_asks s) = kMaxSnapshotLevels"

definition kAddOrderBodySize :: nat where "kAddOrderBodySize = 25"
definition kCancelOrderBodySize :: nat where "kCancelOrderBodySize = 12"
definition kModifyOrderBodySize :: nat where "kModifyOrderBodySize = 24"
definition kTradeBodySize :: nat where "kTradeBodySize = 25"
definition kSnapshotBodySize :: nat where
  "kSnapshotBodySize = 8 + 2 * kMaxSnapshotLevels * 12"
definition kHeartbeatBodySize :: nat where "kHeartbeatBodySize = 0"

definition kMaxMessageSize :: nat where
  "kMaxMessageSize = kHeaderWireSize + kSnapshotBodySize"

fun body_size_for :: "MsgType \<Rightarrow> nat" where
  "body_size_for Heartbeat = kHeartbeatBodySize"
| "body_size_for AddOrder = kAddOrderBodySize"
| "body_size_for CancelOrder = kCancelOrderBodySize"
| "body_size_for ModifyOrder = kModifyOrderBodySize"
| "body_size_for Trade = kTradeBodySize"
| "body_size_for BookSnapshot = kSnapshotBodySize"

lemmas wire_size_defs =
  kHeaderWireSize_def kAddOrderBodySize_def kCancelOrderBodySize_def kModifyOrderBodySize_def
  kTradeBodySize_def kSnapshotBodySize_def kHeartbeatBodySize_def kMaxSnapshotLevels_def
  kMaxMessageSize_def

text \<open>
  The overload set of bodies as one type, for the routines the code instantiates per body.
\<close>

datatype Body =
    BodyAdd AddOrder
  | BodyCancel CancelOrder
  | BodyModify ModifyOrder
  | BodyTrade Trade
  | BodySnapshot BookSnapshot
  | BodyHeartbeat

text \<open>The trait \<^verbatim>\<open>msg_type_of<T>\<close>.\<close>

fun msg_type_of :: "Body \<Rightarrow> MsgType" where
  "msg_type_of (BodyAdd m) = AddOrder"
| "msg_type_of (BodyCancel m) = CancelOrder"
| "msg_type_of (BodyModify m) = ModifyOrder"
| "msg_type_of (BodyTrade m) = Trade"
| "msg_type_of (BodySnapshot m) = BookSnapshot"
| "msg_type_of BodyHeartbeat = Heartbeat"

fun body_ok :: "Body \<Rightarrow> bool" where
  "body_ok (BodySnapshot s) = snapshot_ok s"
| "body_ok _ = True"

lemma body_size_for_bounds: "kHeaderWireSize + body_size_for t \<le> kMaxMessageSize"
  by (cases t) (simp_all add: wire_size_defs)

lemma body_size_for_u16: "body_size_for t < 2 ^ 16"
  by (cases t) (simp_all add: wire_size_defs)

end
