(* ===== verification/Order_Book.thy ===== *)
theory Order_Book
  imports Containers Protocol
begin

text \<open>
  Model of \<^verbatim>\<open>include/mdfh/order_book.hpp\<close> and \<^verbatim>\<open>src/order_book.cpp\<close>. The nodes of the
  \<^verbatim>\<open>std::list<RestingOrder>\<close> queues live in a store from addresses to resting orders: a
  level holds the addresses of its queue front to back, and the iterator in an
  \<open>OrderLocation\<close> is the address of the order's node, so the aliasing between the locator
  and the levels is explicit. A dereference of a freed node, an \<^verbatim>\<open>erase\<close> of a node that is
  not in the list, and a use of \<^verbatim>\<open>end()\<close> are faults.
\<close>

section \<open>State\<close>

type_synonym addr = nat

record RestingOrder =
  ro_id :: OrderId
  ro_quantity :: Quantity

record PriceLevel =
  pl_price :: Price
  pl_total_quantity :: Quantity
  pl_orders :: "addr list"

record LevelView =
  lv_price :: Price
  lv_quantity :: Quantity
  lv_order_count :: u32

record OrderLocation =
  loc_side :: Side
  loc_price :: Price
  loc_it :: addr

text \<open>
  \<open>nodes\<close> and \<open>next_node\<close> are the allocator's state: the live list nodes, and an address
  above every address handed out.
\<close>

record OrderBook =
  ob_symbol :: SymbolId
  ob_bids :: "(Price, PriceLevel) omap"
  ob_asks :: "(Price, PriceLevel) omap"
  ob_orders :: "(OrderId, OrderLocation) umap"
  nodes :: "addr \<rightharpoonup> RestingOrder"
  next_node :: addr

definition OrderBook_init :: "SymbolId \<Rightarrow> OrderBook" where
  "OrderBook_init symbol =
     \<lparr>ob_symbol = symbol, ob_bids = [], ob_asks = [], ob_orders = [], nodes = Map.empty,
      next_node = 0\<rparr>"

text \<open>The comparators \<^verbatim>\<open>std::greater<>\<close> and \<^verbatim>\<open>std::less<>\<close> on \<^verbatim>\<open>Price\<close>.\<close>

definition bid_before :: "Price \<Rightarrow> Price \<Rightarrow> bool" where
  "bid_before p q \<longleftrightarrow> sint q < sint p"

definition ask_before :: "Price \<Rightarrow> Price \<Rightarrow> bool" where
  "ask_before p q \<longleftrightarrow> sint p < sint q"

interpretation bid_map: ordered_map bid_before
  by unfold_locales (auto simp: bid_before_def not_less dest: signed_word_eqI)

interpretation ask_map: ordered_map ask_before
  by unfold_locales (auto simp: ask_before_def not_less dest: signed_word_eqI)

section \<open>The helpers of the anonymous namespace\<close>

text \<open>The store of list nodes, as the helpers pass it along.\<close>

type_synonym heap = "(addr \<rightharpoonup> RestingOrder) \<times> addr"

definition deref :: "addr \<Rightarrow> (addr \<rightharpoonup> RestingOrder) \<Rightarrow> RestingOrder exec" where
  "deref it ns = (case ns it of Some ord \<Rightarrow> Inr ord | None \<Rightarrow> Inl BadIterator)"

text \<open>\<^verbatim>\<open>m.find(price)->second\<close> without a check for \<^verbatim>\<open>end()\<close>.\<close>

definition level_at ::
  "(Price \<Rightarrow> Price \<Rightarrow> bool) \<Rightarrow> Price \<Rightarrow> (Price, PriceLevel) omap \<Rightarrow> PriceLevel exec" where
  "level_at before price m =
     (case om_find before price m of Some lvl \<Rightarrow> Inr lvl | None \<Rightarrow> Inl BadIterator)"

text \<open>
  \<^verbatim>\<open>insert_order\<close>: the map, the store and the iterator to the new node. A level created by
  \<^verbatim>\<open>try_emplace\<close> is value-initialised before its price is set.
\<close>

definition insert_order ::
  "(Price \<Rightarrow> Price \<Rightarrow> bool) \<Rightarrow> (Price, PriceLevel) omap \<Rightarrow> heap \<Rightarrow> Price \<Rightarrow> OrderId \<Rightarrow> Quantity \<Rightarrow>
     ((Price, PriceLevel) omap \<times> heap \<times> addr) exec" where
  "insert_order before m heap price oid qty =
     (let (m, inserted) =
            om_try_emplace before price \<lparr>pl_price = 0, pl_total_quantity = 0, pl_orders = []\<rparr> m;
          (ns, next) = heap
      in ebind (level_at before price m) (\<lambda>level.
         let level = (if inserted then level\<lparr>pl_price := price\<rparr> else level);
             level = level\<lparr>pl_total_quantity := pl_total_quantity level + qty\<rparr>;
             level = level\<lparr>pl_orders := pl_orders level @ [next]\<rparr>;
             ns = ns(next \<mapsto> \<lparr>ro_id = oid, ro_quantity = qty\<rparr>)
         in Inr (om_assign price level m, (ns, next + 1), next)))"

text \<open>\<^verbatim>\<open>erase_order\<close>: the level's total is reduced through the iterator before the node goes.\<close>

definition erase_order ::
  "(Price \<Rightarrow> Price \<Rightarrow> bool) \<Rightarrow> (Price, PriceLevel) omap \<Rightarrow> heap \<Rightarrow> Price \<Rightarrow> addr \<Rightarrow>
     ((Price, PriceLevel) omap \<times> heap) exec" where
  "erase_order before m heap price order_it =
     (case om_find before price m of
        None \<Rightarrow> Inr (m, heap)
      | Some level \<Rightarrow>
          (let (ns, next) = heap
           in ebind (deref order_it ns) (\<lambda>ord.
              let level = level\<lparr>pl_total_quantity := pl_total_quantity level - ro_quantity ord\<rparr>
              in if order_it \<notin> set (pl_orders level) then Inl BadIterator
                 else
                   let level = level\<lparr>pl_orders := remove1 order_it (pl_orders level)\<rparr>;
                       ns = ns(order_it := None);
                       m = om_assign price level m
                   in Inr (if pl_orders level = [] then om_erase price m else m, (ns, next)))))"

section \<open>Operations\<close>

definition heap_of :: "OrderBook \<Rightarrow> heap" where
  "heap_of b = (nodes b, next_node b)"

definition with_heap :: "heap \<Rightarrow> OrderBook \<Rightarrow> OrderBook" where
  "with_heap h b = b\<lparr>nodes := fst h, next_node := snd h\<rparr>"

text \<open>The choice \<^verbatim>\<open>(side == Side::Buy) ? insert_order(bids_, ...) : insert_order(asks_, ...)\<close>.\<close>

definition insert_located ::
  "Side \<Rightarrow> Price \<Rightarrow> OrderId \<Rightarrow> Quantity \<Rightarrow> OrderBook \<Rightarrow> (OrderBook \<times> addr) exec" where
  "insert_located side price oid qty b =
     (if side = Buy
      then ebind (insert_order bid_before (ob_bids b) (heap_of b) price oid qty)
             (\<lambda>(m, h, it). Inr (with_heap h (b\<lparr>ob_bids := m\<rparr>), it))
      else ebind (insert_order ask_before (ob_asks b) (heap_of b) price oid qty)
             (\<lambda>(m, h, it). Inr (with_heap h (b\<lparr>ob_asks := m\<rparr>), it)))"

definition add :: "OrderId \<Rightarrow> Side \<Rightarrow> Price \<Rightarrow> Quantity \<Rightarrow> OrderBook \<Rightarrow> (bool \<times> OrderBook) exec" where
  "add oid side price qty b =
     (if qty = 0 then Inr (False, b)
      else if map_of (ob_orders b) oid \<noteq> None then Inr (False, b)
      else
        ebind (insert_located side price oid qty b) (\<lambda>(b, it).
        Inr (True, b\<lparr>ob_orders := um_emplace oid \<lparr>loc_side = side, loc_price = price, loc_it = it\<rparr>
                                   (ob_orders b)\<rparr>)))"

text \<open>The two-way choice \<^verbatim>\<open>if (loc.side == Side::Buy) erase_order(bids_, ...) else ...\<close>.\<close>

definition erase_located :: "OrderLocation \<Rightarrow> OrderBook \<Rightarrow> OrderBook exec" where
  "erase_located loc b =
     (if loc_side loc = Buy
      then ebind (erase_order bid_before (ob_bids b) (heap_of b) (loc_price loc) (loc_it loc))
             (\<lambda>(m, h). Inr (with_heap h (b\<lparr>ob_bids := m\<rparr>)))
      else ebind (erase_order ask_before (ob_asks b) (heap_of b) (loc_price loc) (loc_it loc))
             (\<lambda>(m, h). Inr (with_heap h (b\<lparr>ob_asks := m\<rparr>))))"

definition cancel :: "OrderId \<Rightarrow> OrderBook \<Rightarrow> (bool \<times> OrderBook) exec" where
  "cancel oid b =
     (case map_of (ob_orders b) oid of
        None \<Rightarrow> Inr (False, b)
      | Some loc \<Rightarrow>
          ebind (erase_located loc b) (\<lambda>b.
          Inr (True, b\<lparr>ob_orders := um_erase oid (ob_orders b)\<rparr>)))"

text \<open>
  \<^verbatim>\<open>loc.it->quantity = q\<close> and, on the order's side, \<^verbatim>\<open>find(loc.price)->second.total_quantity -=
  delta\<close>: the in-place update shared by \<^verbatim>\<open>modify\<close> and \<^verbatim>\<open>execute\<close>.
\<close>

definition reduce_level ::
  "(Price \<Rightarrow> Price \<Rightarrow> bool) \<Rightarrow> Price \<Rightarrow> Quantity \<Rightarrow> (Price, PriceLevel) omap \<Rightarrow>
     (Price, PriceLevel) omap exec" where
  "reduce_level before price delta m =
     ebind (level_at before price m) (\<lambda>level.
     Inr (om_assign price (level\<lparr>pl_total_quantity := pl_total_quantity level - delta\<rparr>) m))"

definition reduce_located :: "OrderLocation \<Rightarrow> Quantity \<Rightarrow> Quantity \<Rightarrow> OrderBook \<Rightarrow> OrderBook exec" where
  "reduce_located loc new_qty delta b =
     ebind (deref (loc_it loc) (nodes b)) (\<lambda>ord.
     let b = b\<lparr>nodes := (nodes b)(loc_it loc \<mapsto> ord\<lparr>ro_quantity := new_qty\<rparr>)\<rparr>
     in if loc_side loc = Buy
        then ebind (reduce_level bid_before (loc_price loc) delta (ob_bids b))
               (\<lambda>m. Inr (b\<lparr>ob_bids := m\<rparr>))
        else ebind (reduce_level ask_before (loc_price loc) delta (ob_asks b))
               (\<lambda>m. Inr (b\<lparr>ob_asks := m\<rparr>)))"

definition modify :: "OrderId \<Rightarrow> Price \<Rightarrow> Quantity \<Rightarrow> OrderBook \<Rightarrow> (bool \<times> OrderBook) exec" where
  "modify oid new_price new_qty b =
     (if new_qty = 0 then cancel oid b
      else case map_of (ob_orders b) oid of
        None \<Rightarrow> Inr (False, b)
      | Some loc \<Rightarrow>
          ebind (deref (loc_it loc) (nodes b)) (\<lambda>ord.
          let old_qty = ro_quantity ord
          in if new_price = loc_price loc \<and> new_qty \<le> old_qty then
               (let delta = old_qty - new_qty
                in ebind (reduce_located loc new_qty delta b) (\<lambda>b. Inr (True, b)))
             else
               (let side = loc_side loc
                in ebind (erase_located loc b) (\<lambda>b.
                   ebind (insert_located side new_price oid new_qty b) (\<lambda>(b, it).
                   Inr (True, b\<lparr>ob_orders := um_assign oid
                     \<lparr>loc_side = side, loc_price = new_price, loc_it = it\<rparr> (ob_orders b)\<rparr>))))))"

definition execute :: "OrderId \<Rightarrow> Quantity \<Rightarrow> OrderBook \<Rightarrow> (bool \<times> OrderBook) exec" where
  "execute resting_id qty b =
     (case map_of (ob_orders b) resting_id of
        None \<Rightarrow> Inr (False, b)
      | Some loc \<Rightarrow>
          ebind (deref (loc_it loc) (nodes b)) (\<lambda>ord.
          let fill = min qty (ro_quantity ord)
          in ebind (reduce_located loc (ro_quantity ord - fill) fill b) (\<lambda>b.
             ebind (deref (loc_it loc) (nodes b)) (\<lambda>ord.
             if ro_quantity ord = 0 then
               ebind (erase_located loc b) (\<lambda>b.
               Inr (True, b\<lparr>ob_orders := um_erase resting_id (ob_orders b)\<rparr>))
             else Inr (True, b)))))"

section \<open>Queries\<close>

definition book_empty :: "OrderBook \<Rightarrow> bool" where
  "book_empty b \<longleftrightarrow> ob_orders b = []"

definition order_count :: "OrderBook \<Rightarrow> nat" where
  "order_count b = length (ob_orders b)"

definition bid_levels :: "OrderBook \<Rightarrow> nat" where
  "bid_levels b = length (ob_bids b)"

definition ask_levels :: "OrderBook \<Rightarrow> nat" where
  "ask_levels b = length (ob_asks b)"

definition level_view :: "PriceLevel \<Rightarrow> LevelView" where
  "level_view lvl = \<lparr>lv_price = pl_price lvl, lv_quantity = pl_total_quantity lvl,
     lv_order_count = of_nat (length (pl_orders lvl))\<rparr>"

definition best_bid :: "OrderBook \<Rightarrow> LevelView option" where
  "best_bid b = (case ob_bids b of [] \<Rightarrow> None | (_, lvl) # _ \<Rightarrow> Some (level_view lvl))"

definition best_ask :: "OrderBook \<Rightarrow> LevelView option" where
  "best_ask b = (case ob_asks b of [] \<Rightarrow> None | (_, lvl) # _ \<Rightarrow> Some (level_view lvl))"

text \<open>\<^verbatim>\<open>spread\<close> subtracts two \<^verbatim>\<open>int64_t\<close>: undefined when the difference does not fit.\<close>

definition spread :: "OrderBook \<Rightarrow> Price option exec" where
  "spread b =
     (case (ob_bids b, ob_asks b) of
        ((_, bid) # _, (_, ask) # _) \<Rightarrow>
          (let d = sint (pl_price ask) - sint (pl_price bid)
           in if - (2 ^ 63) \<le> d \<and> d < 2 ^ 63 then Inr (Some (pl_price ask - pl_price bid))
              else Inl SignedOverflow)
      | _ \<Rightarrow> Inr None)"

fun top_levels_loop :: "(Price, PriceLevel) omap \<Rightarrow> nat \<Rightarrow> LevelView list \<Rightarrow> LevelView list" where
  "top_levels_loop [] depth out = out"
| "top_levels_loop ((price, lvl) # m) depth out =
     (if length out \<ge> depth then out
      else top_levels_loop m depth (out @ [level_view lvl]))"

definition top_levels :: "(Price, PriceLevel) omap \<Rightarrow> nat \<Rightarrow> LevelView list" where
  "top_levels m depth = top_levels_loop m depth []"

definition bids_depth :: "OrderBook \<Rightarrow> nat \<Rightarrow> LevelView list" where
  "bids_depth b depth = top_levels (ob_bids b) depth"

definition asks_depth :: "OrderBook \<Rightarrow> nat \<Rightarrow> LevelView list" where
  "asks_depth b depth = top_levels (ob_asks b) depth"

text \<open>
  \<^verbatim>\<open>snapshot\<close>: the loops \<^verbatim>\<open>for (i = 0; i < b.size(); ++i) s.bids[i] = ...\<close> write into arrays of
  \<^verbatim>\<open>kMaxSnapshotLevels\<close> zero-initialised levels.
\<close>

fun fill_levels :: "LevelView list \<Rightarrow> nat \<Rightarrow> SnapshotLevel list \<Rightarrow> SnapshotLevel list exec" where
  "fill_levels [] i arr = Inr arr"
| "fill_levels (v # vs) i arr =
     ebind (wr arr i \<lparr>sl_price = lv_price v, sl_quantity = lv_quantity v\<rparr>) (fill_levels vs (i + 1))"

definition snapshot :: "OrderBook \<Rightarrow> BookSnapshot exec" where
  "snapshot b =
     (let zero = replicate kMaxSnapshotLevels \<lparr>sl_price = 0, sl_quantity = 0\<rparr>;
          bs = bids_depth b kMaxSnapshotLevels;
          asv = asks_depth b kMaxSnapshotLevels
      in ebind (fill_levels bs 0 zero) (\<lambda>bids.
         ebind (fill_levels asv 0 zero) (\<lambda>asks.
         Inr \<lparr>bs_symbol = ob_symbol b, bs_num_bid_levels = of_nat (length bs),
              bs_num_ask_levels = of_nat (length asv), bs_bids = bids, bs_asks = asks\<rparr>)))"

text \<open>
  \<^verbatim>\<open>check_invariants\<close>. The sum over a level is taken in \<^verbatim>\<open>Quantity\<close>, so it wraps exactly as
  the total does.
\<close>

fun orders_ok :: "(addr \<rightharpoonup> RestingOrder) \<Rightarrow> addr list \<Rightarrow> Quantity \<Rightarrow> Quantity option exec" where
  "orders_ok ns [] acc = Inr (Some acc)"
| "orders_ok ns (it # its) acc =
     ebind (deref it ns) (\<lambda>ord.
     if ro_quantity ord = 0 then Inr None else orders_ok ns its (acc + ro_quantity ord))"

fun level_ok :: "(addr \<rightharpoonup> RestingOrder) \<Rightarrow> (Price, PriceLevel) omap \<Rightarrow> bool exec" where
  "level_ok ns [] = Inr True"
| "level_ok ns ((price, lvl) # m) =
     (if pl_orders lvl = [] then Inr False
      else if pl_price lvl \<noteq> price then Inr False
      else ebind (orders_ok ns (pl_orders lvl) 0) (\<lambda>acc. case acc of
             None \<Rightarrow> Inr False
           | Some acc \<Rightarrow> if acc \<noteq> pl_total_quantity lvl then Inr False else level_ok ns m))"

definition check_invariants :: "OrderBook \<Rightarrow> bool exec" where
  "check_invariants b =
     ebind (level_ok (nodes b) (ob_bids b)) (\<lambda>bids_ok.
     if \<not> bids_ok then Inr False
     else ebind (level_ok (nodes b) (ob_asks b)) (\<lambda>asks_ok.
     if \<not> asks_ok then Inr False
     else
       (let crossed = (case (ob_bids b, ob_asks b) of
              ((_, bid) # _, (_, ask) # _) \<Rightarrow> sint (pl_price bid) \<ge> sint (pl_price ask)
            | _ \<Rightarrow> False)
        in if crossed then Inr False
           else
             (let counted = sum_list (map (\<lambda>(p, lvl). length (pl_orders lvl)) (ob_bids b)) +
                            sum_list (map (\<lambda>(p, lvl). length (pl_orders lvl)) (ob_asks b))
              in Inr (counted = length (ob_orders b))))))"

definition clear :: "OrderBook \<Rightarrow> OrderBook" where
  "clear b = b\<lparr>ob_bids := [], ob_asks := [], ob_orders := [], nodes := Map.empty\<rparr>"

end
