(* ===== verification/Order_Book_Spec.thy ===== *)
theory Order_Book_Spec
  imports Order_Book
begin

text \<open>
  What a limit order book is, without maps, levels, iterators or hash tables: the list of
  live orders in time priority. An order added or re-queued goes to the back; a reduction
  keeps its place; price-time priority at a price is the sublist at that price. The first
  part states the operations of this book, the second how a list with node addresses is
  laid out in the structures of \<open>OrderBook\<close>, and what the helper routines do to one side.
\<close>

section \<open>The abstract book\<close>

record BookOrder =
  bo_id :: OrderId
  bo_side :: Side
  bo_price :: Price
  bo_qty :: Quantity

type_synonym book = "BookOrder list"

definition ab_lookup :: "OrderId \<Rightarrow> book \<Rightarrow> BookOrder option" where
  "ab_lookup oid L = find (\<lambda>ord. bo_id ord = oid) L"

definition ab_remove :: "OrderId \<Rightarrow> book \<Rightarrow> book" where
  "ab_remove oid L = filter (\<lambda>ord. bo_id ord \<noteq> oid) L"

definition ab_resize :: "OrderId \<Rightarrow> Quantity \<Rightarrow> book \<Rightarrow> book" where
  "ab_resize oid q L = map (\<lambda>ord. if bo_id ord = oid then ord\<lparr>bo_qty := q\<rparr> else ord) L"

definition ab_add :: "OrderId \<Rightarrow> Side \<Rightarrow> Price \<Rightarrow> Quantity \<Rightarrow> book \<Rightarrow> bool \<times> book" where
  "ab_add oid side price qty L =
     (if qty = 0 \<or> ab_lookup oid L \<noteq> None then (False, L)
      else (True, L @ [\<lparr>bo_id = oid, bo_side = side, bo_price = price, bo_qty = qty\<rparr>]))"

definition ab_cancel :: "OrderId \<Rightarrow> book \<Rightarrow> bool \<times> book" where
  "ab_cancel oid L = (ab_lookup oid L \<noteq> None, ab_remove oid L)"

definition ab_modify :: "OrderId \<Rightarrow> Price \<Rightarrow> Quantity \<Rightarrow> book \<Rightarrow> bool \<times> book" where
  "ab_modify oid price qty L =
     (if qty = 0 then ab_cancel oid L
      else case ab_lookup oid L of
        None \<Rightarrow> (False, L)
      | Some ord \<Rightarrow>
          if price = bo_price ord \<and> qty \<le> bo_qty ord then (True, ab_resize oid qty L)
          else (True, ab_remove oid L @ [ord\<lparr>bo_price := price, bo_qty := qty\<rparr>]))"

definition ab_execute :: "OrderId \<Rightarrow> Quantity \<Rightarrow> book \<Rightarrow> bool \<times> book" where
  "ab_execute oid qty L =
     (case ab_lookup oid L of
        None \<Rightarrow> (False, L)
      | Some ord \<Rightarrow>
          if bo_qty ord \<le> qty then (True, ab_remove oid L)
          else (True, ab_resize oid (bo_qty ord - qty) L))"

text \<open>The queue at a price of a side, front first, and whether the best prices cross.\<close>

definition is_bid :: "BookOrder \<Rightarrow> bool" where
  "is_bid ord \<longleftrightarrow> bo_side ord = Buy"

definition ab_queue :: "bool \<Rightarrow> Price \<Rightarrow> book \<Rightarrow> book" where
  "ab_queue bid price L = filter (\<lambda>ord. is_bid ord = bid \<and> bo_price ord = price) L"

definition ab_crossed :: "book \<Rightarrow> bool" where
  "ab_crossed L \<longleftrightarrow> (\<exists>x \<in> set L. \<exists>y \<in> set L. is_bid x \<and> \<not> is_bid y \<and>
     sint (bo_price x) \<ge> sint (bo_price y))"

definition ab_ok :: "book \<Rightarrow> bool" where
  "ab_ok L \<longleftrightarrow> distinct (map bo_id L) \<and> (\<forall>ord \<in> set L. bo_qty ord \<noteq> 0)"

section \<open>One side of the book\<close>

text \<open>A list of orders with the addresses of their nodes.\<close>

type_synonym located = "(addr \<times> BookOrder) list"

definition level_of :: "located \<Rightarrow> Price \<Rightarrow> PriceLevel option" where
  "level_of G p =
     (let q = filter (\<lambda>(a, ord). bo_price ord = p) G
      in if q = [] then None
         else Some \<lparr>pl_price = p, pl_total_quantity = sum_list (map (\<lambda>(a, ord). bo_qty ord) q),
                    pl_orders = map fst q\<rparr>)"

lemma level_of_append:
  "level_of (G @ [(a, ord)]) =
     (level_of G)(bo_price ord \<mapsto>
        (case level_of G (bo_price ord) of
           None \<Rightarrow> \<lparr>pl_price = bo_price ord, pl_total_quantity = bo_qty ord, pl_orders = [a]\<rparr>
         | Some lvl \<Rightarrow> lvl\<lparr>pl_total_quantity := pl_total_quantity lvl + bo_qty ord,
                         pl_orders := pl_orders lvl @ [a]\<rparr>))"
  by (rule ext) (simp add: level_of_def Let_def)

lemma level_of_other: "bo_price ord \<noteq> p \<Longrightarrow> level_of (xs @ (a, ord) # ys) p = level_of (xs @ ys) p"
  by (simp add: level_of_def)

lemma level_of_here:
  assumes "a \<notin> fst ` set (xs @ ys)"
  obtains lvl where "level_of (xs @ (a, ord) # ys) (bo_price ord) = Some lvl"
    and "a \<in> set (pl_orders lvl)"
    and "level_of (xs @ ys) (bo_price ord) =
      (if remove1 a (pl_orders lvl) = [] then None
       else Some (lvl\<lparr>pl_total_quantity := pl_total_quantity lvl - bo_qty ord,
                      pl_orders := remove1 a (pl_orders lvl)\<rparr>))"
proof
  let ?f = "filter (\<lambda>(b, o'). bo_price o' = bo_price ord)"
  let ?lvl = "\<lparr>pl_price = bo_price ord,
    pl_total_quantity = sum_list (map (\<lambda>(a, ord). bo_qty ord) (?f xs)) + bo_qty ord +
      sum_list (map (\<lambda>(a, ord). bo_qty ord) (?f ys)),
    pl_orders = map fst (?f xs) @ a # map fst (?f ys)\<rparr>"
  have "a \<notin> set (map fst (?f xs))"
    using assms by (auto simp: image_iff)
  then show "level_of (xs @ ys) (bo_price ord) =
      (if remove1 a (pl_orders ?lvl) = [] then None
       else Some (?lvl\<lparr>pl_total_quantity := pl_total_quantity ?lvl - bo_qty ord,
                      pl_orders := remove1 a (pl_orders ?lvl)\<rparr>))"
    by (auto simp: level_of_def remove1_append)
  show "level_of (xs @ (a, ord) # ys) (bo_price ord) = Some ?lvl"
    by (simp add: level_of_def add.assoc)
qed simp

lemma level_of_resize:
  "level_of (xs @ (a, ord) # ys) (bo_price ord) = Some lvl \<Longrightarrow>
     level_of (xs @ (a, ord\<lparr>bo_qty := bo_qty ord - delta\<rparr>) # ys) =
       (level_of (xs @ (a, ord) # ys))
         (bo_price ord \<mapsto> lvl\<lparr>pl_total_quantity := pl_total_quantity lvl - delta\<rparr>)"
  by (rule ext) (auto simp: level_of_def Let_def split: if_splits)

text \<open>
  The contract of one side: a \<^verbatim>\<open>std::map\<close> of levels under a comparator represents a list of
  located orders. The three routines that change a side are specified on it.
\<close>

locale book_side = ordered_map before for before :: "Price \<Rightarrow> Price \<Rightarrow> bool"
begin

definition side_rep :: "(Price, PriceLevel) omap \<Rightarrow> located \<Rightarrow> bool" where
  "side_rep m G \<longleftrightarrow> ordered m \<and> map_of m = level_of G"

lemma side_rep_Nil [simp]: "side_rep [] []"
  by (simp add: side_rep_def level_of_def fun_eq_iff)

lemma side_rep_level_at:
  "side_rep m G \<Longrightarrow> level_of G p = Some lvl \<Longrightarrow> level_at before p m = Inr lvl"
  by (simp add: side_rep_def level_at_def find_eq)

lemma side_rep_assign:
  "side_rep m G \<Longrightarrow> level_of G p = Some w \<Longrightarrow> map_of (om_assign p v m) = (level_of G)(p \<mapsto> v)"
  by (simp add: side_rep_def map_of_om_assign)

lemma insert_order_rep:
  assumes "side_rep m G"
  obtains m' where
    "insert_order before m (ns, next) (bo_price ord) (bo_id ord) (bo_qty ord) =
       Inr (m', (ns(next \<mapsto> \<lparr>ro_id = bo_id ord, ro_quantity = bo_qty ord\<rparr>), next + 1), next)"
    and "side_rep m' (G @ [(next, ord)])"
proof -
  let ?price = "bo_price ord"
  let ?new = "\<lparr>pl_price = 0, pl_total_quantity = 0, pl_orders = []\<rparr>"
  obtain m1 ins where e: "om_try_emplace before ?price ?new m = (m1, ins)" by fastforce
  from assms have m: "ordered m" "map_of m = level_of G" by (auto simp: side_rep_def)
  from try_emplace_eq [OF m(1), of ?price ?new] e m(2)
  have m1: "map_of m1 = (case level_of G ?price of None \<Rightarrow> (level_of G)(?price \<mapsto> ?new)
      | Some _ \<Rightarrow> level_of G)" and ins: "ins = (level_of G ?price = None)"
    by auto
  from try_emplace_ordered [OF m(1), of ?price ?new] e have o1: "ordered m1" by simp
  show thesis
  proof (cases "level_of G ?price")
    case None
    then have "om_find before ?price m1 = Some ?new" using m1 o1 by (simp add: find_eq)
    with None e ins m1 o1 show thesis
      by (intro that) (auto simp: insert_order_def level_at_def Let_def side_rep_def
        level_of_append assign_ordered map_of_om_assign)
  next
    case (Some lvl)
    then have "om_find before ?price m1 = Some lvl" using m1 o1 by (simp add: find_eq)
    with Some e ins m1 o1 show thesis
      by (intro that) (auto simp: insert_order_def level_at_def Let_def side_rep_def
        level_of_append assign_ordered map_of_om_assign)
  qed
qed

lemma erase_order_rep:
  assumes "side_rep m (xs @ (a, ord) # ys)" and "a \<notin> fst ` set (xs @ ys)"
    and "ns a = Some \<lparr>ro_id = oid, ro_quantity = bo_qty ord\<rparr>"
  obtains m' where
    "erase_order before m (ns, next) (bo_price ord) a = Inr (m', (ns(a := None), next))"
    and "side_rep m' (xs @ ys)"
proof -
  from assms(2) obtain lvl where
    here: "level_of (xs @ (a, ord) # ys) (bo_price ord) = Some lvl" "a \<in> set (pl_orders lvl)"
    and rest: "level_of (xs @ ys) (bo_price ord) =
      (if remove1 a (pl_orders lvl) = [] then None
       else Some (lvl\<lparr>pl_total_quantity := pl_total_quantity lvl - bo_qty ord,
                      pl_orders := remove1 a (pl_orders lvl)\<rparr>))"
    by (rule level_of_here)
  from assms(1) have m: "ordered m" "map_of m = level_of (xs @ (a, ord) # ys)"
    by (auto simp: side_rep_def)
  have found: "om_find before (bo_price ord) m = Some lvl"
    using m here by (simp add: find_eq)
  note assign = side_rep_assign [OF assms(1) here(1)]
  have others: "p \<noteq> bo_price ord \<Longrightarrow> level_of (xs @ (a, ord) # ys) p = level_of (xs @ ys) p" for p
    by (rule level_of_other) simp
  show thesis
    using found here assms(3) m rest others
    by (intro that) (auto simp: erase_order_def deref_def Let_def side_rep_def fun_eq_iff
      assign assign_ordered erase_ordered)
qed

lemma reduce_level_rep:
  assumes "side_rep m (xs @ (a, ord) # ys)"
  obtains m' where "reduce_level before (bo_price ord) delta m = Inr m'"
    and "side_rep m' (xs @ (a, ord\<lparr>bo_qty := bo_qty ord - delta\<rparr>) # ys)"
proof -
  obtain lvl where here: "level_of (xs @ (a, ord) # ys) (bo_price ord) = Some lvl"
    by (simp add: level_of_def)
  note assign = side_rep_assign [OF assms here]
  from assms have "ordered m" by (simp add: side_rep_def)
  with assms here show thesis
    by (intro that) (auto simp: reduce_level_def side_rep_level_at side_rep_def level_of_resize
      assign assign_ordered)
qed

end

interpretation bid_side: book_side bid_before
  by unfold_locales

interpretation ask_side: book_side ask_before
  by unfold_locales

end
