(* ===== verification/Order_Book_Refinement.thy ===== *)
theory Order_Book_Refinement
  imports Order_Book_Spec
begin

text \<open>
  The order book implements the abstract book. A ghost list of located orders, in the time
  order of the live orders, ties together the node store, the two ladders and the locator;
  \<open>represents b L\<close> forgets the addresses. Every operation of \<open>OrderBook\<close> is simulated by the
  operation of the abstract book: it does not fault, returns the same flag, and leads to a
  book that represents the resulting list. The queries are then functions of the list.
\<close>

section \<open>The representation relation\<close>

definition node_of :: "addr \<times> BookOrder \<Rightarrow> addr \<times> RestingOrder" where
  "node_of = (\<lambda>(a, ord). (a, \<lparr>ro_id = bo_id ord, ro_quantity = bo_qty ord\<rparr>))"

definition entry_of :: "addr \<times> BookOrder \<Rightarrow> OrderId \<times> OrderLocation" where
  "entry_of = (\<lambda>(a, ord). (bo_id ord,
     \<lparr>loc_side = bo_side ord, loc_price = bo_price ord, loc_it = a\<rparr>))"

definition side_of :: "bool \<Rightarrow> located \<Rightarrow> located" where
  "side_of bid G = filter (\<lambda>(a, ord). is_bid ord = bid) G"

definition heap_rep :: "(addr \<rightharpoonup> RestingOrder) \<Rightarrow> addr \<Rightarrow> located \<Rightarrow> bool" where
  "heap_rep ns nx G \<longleftrightarrow> distinct (map fst G) \<and> (\<forall>a \<in> fst ` set G. a < nx) \<and>
     ns = map_of (map node_of G)"

definition loc_rep :: "(OrderId, OrderLocation) umap \<Rightarrow> located \<Rightarrow> bool" where
  "loc_rep m G \<longleftrightarrow> distinct (map fst m) \<and> distinct (map (bo_id \<circ> snd) G) \<and>
     map_of m = map_of (map entry_of G)"

definition stored :: "OrderBook \<Rightarrow> located \<Rightarrow> bool" where
  "stored b G \<longleftrightarrow> heap_rep (nodes b) (next_node b) G \<and>
     bid_side.side_rep (ob_bids b) (side_of True G) \<and>
     ask_side.side_rep (ob_asks b) (side_of False G)"

definition positive :: "located \<Rightarrow> bool" where
  "positive G \<longleftrightarrow> (\<forall>(a, ord) \<in> set G. bo_qty ord \<noteq> 0)"

definition rep :: "OrderBook \<Rightarrow> located \<Rightarrow> bool" where
  "rep b G \<longleftrightarrow> stored b G \<and> loc_rep (ob_orders b) G \<and> positive G"

definition represents :: "OrderBook \<Rightarrow> book \<Rightarrow> bool" where
  "represents b L \<longleftrightarrow> (\<exists>G. rep b G \<and> L = map snd G)"

text \<open>The representation invariant of the class.\<close>

definition book_ok :: "OrderBook \<Rightarrow> bool" where
  "book_ok b \<longleftrightarrow> (\<exists>L. represents b L)"

section \<open>Pieces of the representation\<close>

lemma side_of_simps [simp]:
  "side_of bid [] = []"
  "side_of bid (xs @ ys) = side_of bid xs @ side_of bid ys"
  "side_of bid ((a, ord) # xs) = (if is_bid ord = bid then [(a, ord)] else []) @ side_of bid xs"
  by (auto simp: side_of_def)

lemma fst_side_of: "a \<notin> fst ` set G \<Longrightarrow> a \<notin> fst ` set (side_of bid G)"
  by (auto simp: side_of_def)

lemma fst_node_of [simp]: "fst (node_of e) = fst e"
  by (simp add: node_of_def split: prod.split)

lemma fst_entry_of [simp]: "fst (entry_of e) = bo_id (snd e)"
  by (simp add: entry_of_def split: prod.split)

lemma fst_image_node_of [simp]: "fst ` node_of ` A = fst ` A"
  by (simp add: image_image)

lemma fst_image_entry_of [simp]: "fst ` entry_of ` A = bo_id ` snd ` A"
  by (simp add: image_image)

lemma entry_of_Pair: "entry_of (a, ord) = (bo_id ord,
    \<lparr>loc_side = bo_side ord, loc_price = bo_price ord, loc_it = a\<rparr>)"
  by (simp add: entry_of_def)

lemma map_of_snoc: "k \<notin> fst ` set m \<Longrightarrow> map_of (m @ [(k, v)]) = (map_of m)(k \<mapsto> v)"
  by (induction m) (auto simp: fun_eq_iff)

lemma map_of_middle:
  "k \<notin> fst ` set (xs @ ys) \<Longrightarrow>
     map_of (xs @ (k, v) # ys) = (map_of (xs @ ys))(k \<mapsto> v)"
  by (induction xs) (auto simp: fun_eq_iff)

lemma heap_rep_fresh:
  "heap_rep ns nx (xs @ (a, ord) # ys) \<Longrightarrow> a \<notin> fst ` set (xs @ ys)"
  by (auto simp: heap_rep_def)

lemma heap_rep_nodes:
  assumes "heap_rep ns nx (xs @ (a, ord) # ys)"
  shows "ns = (map_of (map node_of (xs @ ys)))
           (a \<mapsto> \<lparr>ro_id = bo_id ord, ro_quantity = bo_qty ord\<rparr>)"
proof -
  have "a \<notin> fst ` set (map node_of xs @ map node_of ys)"
    using heap_rep_fresh [OF assms] by (simp add: image_Un)
  from map_of_middle [OF this] assms show ?thesis
    by (simp add: heap_rep_def node_of_def del: map_of_append)
qed

lemma heap_rep_insert:
  "heap_rep ns nx G \<Longrightarrow>
     heap_rep (ns(nx \<mapsto> \<lparr>ro_id = bo_id ord, ro_quantity = bo_qty ord\<rparr>)) (nx + 1) (G @ [(nx, ord)])"
proof -
  assume h: "heap_rep ns nx G"
  then have "nx \<notin> fst ` set G" by (auto simp: heap_rep_def)
  then have "map_of (map node_of G @ [(nx, \<lparr>ro_id = bo_id ord, ro_quantity = bo_qty ord\<rparr>)]) =
      ns(nx \<mapsto> \<lparr>ro_id = bo_id ord, ro_quantity = bo_qty ord\<rparr>)"
    using h by (subst map_of_snoc) (auto simp: heap_rep_def)
  with h \<open>nx \<notin> fst ` set G\<close> show ?thesis
    by (auto simp: heap_rep_def node_of_def less_Suc_eq simp del: map_of_append)
qed

lemma heap_rep_erase:
  assumes "heap_rep ns nx (xs @ (a, ord) # ys)"
  shows "heap_rep (ns(a := None)) nx (xs @ ys)"
proof -
  have "map_of (map node_of (xs @ ys)) a = None"
    using heap_rep_fresh [OF assms] by (simp add: map_of_eq_None_iff image_Un del: map_of_append)
  then have "ns(a := None) = map_of (map node_of (xs @ ys))"
    by (auto simp: heap_rep_nodes [OF assms] fun_eq_iff simp del: map_of_append map_append)
  with assms show ?thesis by (auto simp: heap_rep_def)
qed

lemma heap_rep_resize:
  assumes "heap_rep ns nx (xs @ (a, ord) # ys)"
  shows "heap_rep (ns(a \<mapsto> \<lparr>ro_id = bo_id ord, ro_quantity = q\<rparr>)) nx
           (xs @ (a, ord\<lparr>bo_qty := q\<rparr>) # ys)"
proof -
  have "a \<notin> fst ` set (map node_of xs @ map node_of ys)"
    using heap_rep_fresh [OF assms] by (simp add: image_Un)
  from map_of_middle [OF this]
  have "map_of (map node_of (xs @ (a, ord\<lparr>bo_qty := q\<rparr>) # ys)) =
      ns(a \<mapsto> \<lparr>ro_id = bo_id ord, ro_quantity = q\<rparr>)"
    by (simp add: heap_rep_nodes [OF assms] node_of_def del: map_of_append)
  with assms show ?thesis by (auto simp: heap_rep_def)
qed

lemma loc_rep_absent:
  "loc_rep m G \<Longrightarrow> map_of m oid = None \<longleftrightarrow> oid \<notin> bo_id ` snd ` set G"
  by (simp add: loc_rep_def map_of_eq_None_iff)

lemma loc_rep_find:
  assumes "loc_rep m G" and "map_of m oid = Some loc"
  obtains xs a ord ys where "G = xs @ (a, ord) # ys" and "bo_id ord = oid"
    and "loc = \<lparr>loc_side = bo_side ord, loc_price = bo_price ord, loc_it = a\<rparr>"
proof -
  from assms have "(oid, loc) \<in> set (map entry_of G)"
    by (simp only: loc_rep_def map_of_SomeD)
  then obtain a ord where "(a, ord) \<in> set G" "entry_of (a, ord) = (oid, loc)"
    by fastforce
  with that show thesis by (auto simp: entry_of_Pair dest!: split_list)
qed

lemma loc_rep_ids: "loc_rep m (xs @ (a, ord) # ys) \<Longrightarrow> bo_id ord \<notin> bo_id ` snd ` set (xs @ ys)"
  by (auto simp: loc_rep_def)

lemma loc_rep_entries:
  assumes "loc_rep m (xs @ (a, ord) # ys)"
  shows "map_of m = (map_of (map entry_of (xs @ ys)))
           (bo_id ord \<mapsto> \<lparr>loc_side = bo_side ord, loc_price = bo_price ord, loc_it = a\<rparr>)"
proof -
  have "bo_id ord \<notin> fst ` set (map entry_of xs @ map entry_of ys)"
    using loc_rep_ids [OF assms] by (simp add: image_Un)
  from map_of_middle [OF this] assms show ?thesis
    by (simp add: loc_rep_def entry_of_def del: map_of_append)
qed

lemma entries_snoc:
  "bo_id ord \<notin> bo_id ` snd ` set G \<Longrightarrow>
     map_of (map entry_of (G @ [(a, ord)])) = (map_of (map entry_of G))
       (bo_id ord \<mapsto> \<lparr>loc_side = bo_side ord, loc_price = bo_price ord, loc_it = a\<rparr>)"
  by (simp add: map_of_snoc entry_of_Pair del: map_of_append)

lemma loc_rep_insert:
  assumes "loc_rep m G" and "map_of m (bo_id ord) = None"
  shows "loc_rep (um_emplace (bo_id ord)
           \<lparr>loc_side = bo_side ord, loc_price = bo_price ord, loc_it = a\<rparr> m) (G @ [(a, ord)])"
proof -
  from assms have fresh: "bo_id ord \<notin> bo_id ` snd ` set G"
    by (simp add: loc_rep_absent)
  with assms have "distinct (map (bo_id \<circ> snd) (G @ [(a, ord)]))"
    by (auto simp: loc_rep_def)
  with assms show ?thesis
    by (simp add: loc_rep_def map_of_um_emplace distinct_um_emplace entries_snoc fresh
        del: map_of_append map_append)
qed

lemma loc_rep_erase:
  assumes "loc_rep m (xs @ (a, ord) # ys)"
  shows "loc_rep (um_erase (bo_id ord) m) (xs @ ys)"
proof -
  have "map_of (map entry_of (xs @ ys)) (bo_id ord) = None"
    using loc_rep_ids [OF assms] by (simp add: map_of_eq_None_iff image_Un del: map_of_append)
  then have "map_of (um_erase (bo_id ord) m) = map_of (map entry_of (xs @ ys))"
    by (auto simp: loc_rep_entries [OF assms] fun_eq_iff simp del: map_of_append map_append)
  with assms show ?thesis
    by (auto simp: loc_rep_def distinct_om_erase)
qed

lemma loc_rep_resize:
  "loc_rep m (xs @ (a, ord) # ys) \<Longrightarrow> loc_rep m (xs @ (a, ord\<lparr>bo_qty := q\<rparr>) # ys)"
  by (auto simp: loc_rep_def entry_of_def)

lemma loc_rep_move:
  assumes "loc_rep m (xs @ (a, ord) # ys)"
  shows "loc_rep (um_assign (bo_id ord)
           \<lparr>loc_side = bo_side ord, loc_price = p, loc_it = a'\<rparr> m)
           ((xs @ ys) @ [(a', ord\<lparr>bo_price := p, bo_qty := q\<rparr>)])"
proof -
  note ids = loc_rep_ids [OF assms]
  have "map_of m (bo_id ord) =
      Some \<lparr>loc_side = bo_side ord, loc_price = bo_price ord, loc_it = a\<rparr>"
    by (simp add: loc_rep_entries [OF assms])
  note assign = map_of_om_assign [OF this]
  have "bo_id (ord\<lparr>bo_price := p, bo_qty := q\<rparr>) \<notin> bo_id ` snd ` set (xs @ ys)"
    using ids by simp
  note entries_snoc [OF this, of a']
  then have "map_of (um_assign (bo_id ord)
        \<lparr>loc_side = bo_side ord, loc_price = p, loc_it = a'\<rparr> m) =
      map_of (map entry_of ((xs @ ys) @ [(a', ord\<lparr>bo_price := p, bo_qty := q\<rparr>)]))"
    by (simp add: assign loc_rep_entries [OF assms] del: map_of_append map_append append_assoc)
  with assms ids show ?thesis
    by (auto simp: loc_rep_def simp del: map_of_append)
qed

section \<open>The helpers on the representation\<close>

lemma insert_located_stored:
  assumes "stored b G"
  obtains b' where "insert_located (bo_side ord) (bo_price ord) (bo_id ord) (bo_qty ord) b =
      Inr (b', next_node b)"
    and "stored b' (G @ [(next_node b, ord)])"
    and "ob_orders b' = ob_orders b" and "ob_symbol b' = ob_symbol b"
proof -
  from assms have reps: "heap_rep (nodes b) (next_node b) G"
      "bid_side.side_rep (ob_bids b) (side_of True G)"
      "ask_side.side_rep (ob_asks b) (side_of False G)"
    by (simp_all add: stored_def)
  note heap = heap_rep_insert [OF reps(1), of ord]
  show thesis
  proof (cases "is_bid ord")
    case True
    from bid_side.insert_order_rep [OF reps(2), of "nodes b" "next_node b" ord] obtain m where
      "insert_order bid_before (ob_bids b) (heap_of b) (bo_price ord) (bo_id ord) (bo_qty ord) =
        Inr (m, ((nodes b)(next_node b \<mapsto> \<lparr>ro_id = bo_id ord, ro_quantity = bo_qty ord\<rparr>),
          next_node b + 1), next_node b)"
      "bid_side.side_rep m (side_of True G @ [(next_node b, ord)])"
      unfolding heap_of_def by metis
    with True heap reps that show thesis
      by (auto simp: insert_located_def is_bid_def stored_def with_heap_def)
  next
    case False
    from ask_side.insert_order_rep [OF reps(3), of "nodes b" "next_node b" ord] obtain m where
      "insert_order ask_before (ob_asks b) (heap_of b) (bo_price ord) (bo_id ord) (bo_qty ord) =
        Inr (m, ((nodes b)(next_node b \<mapsto> \<lparr>ro_id = bo_id ord, ro_quantity = bo_qty ord\<rparr>),
          next_node b + 1), next_node b)"
      "ask_side.side_rep m (side_of False G @ [(next_node b, ord)])"
      unfolding heap_of_def by metis
    with False heap reps that show thesis
      by (auto simp: insert_located_def is_bid_def stored_def with_heap_def)
  qed
qed

lemma stored_at:
  "stored b (xs @ (a, ord) # ys) \<Longrightarrow>
     nodes b a = Some \<lparr>ro_id = bo_id ord, ro_quantity = bo_qty ord\<rparr> \<and> a \<notin> fst ` set (xs @ ys)"
  using heap_rep_nodes [of "nodes b" "next_node b" xs a ord ys]
    heap_rep_fresh [of "nodes b" "next_node b" xs a ord ys]
  by (simp add: stored_def del: map_append)

lemma erase_located_stored:
  assumes "stored b (xs @ (a, ord) # ys)"
  obtains b' where "erase_located \<lparr>loc_side = bo_side ord, loc_price = bo_price ord, loc_it = a\<rparr> b = Inr b'"
    and "stored b' (xs @ ys)" and "ob_orders b' = ob_orders b" and "ob_symbol b' = ob_symbol b"
proof -
  from assms have reps: "heap_rep (nodes b) (next_node b) (xs @ (a, ord) # ys)"
      "bid_side.side_rep (ob_bids b) (side_of True (xs @ (a, ord) # ys))"
      "ask_side.side_rep (ob_asks b) (side_of False (xs @ (a, ord) # ys))"
    by (simp_all add: stored_def)
  note heap = heap_rep_erase [OF reps(1)]
  from stored_at [OF assms] have node: "nodes b a = Some \<lparr>ro_id = bo_id ord, ro_quantity = bo_qty ord\<rparr>"
    and fresh: "a \<notin> fst ` set (side_of bid xs @ side_of bid ys)" for bid
    using fst_side_of [of a "xs @ ys" bid] by auto
  show thesis
  proof (cases "is_bid ord")
    case True
    with reps(2) have "bid_side.side_rep (ob_bids b) (side_of True xs @ (a, ord) # side_of True ys)"
      by simp
    from bid_side.erase_order_rep [where ns = "nodes b" and a = a, OF this fresh [of True] node] obtain m where
      "erase_order bid_before (ob_bids b) (heap_of b) (bo_price ord) a =
         Inr (m, ((nodes b)(a := None), next_node b))"
      "bid_side.side_rep m (side_of True xs @ side_of True ys)"
      unfolding heap_of_def by metis
    with True heap reps that show thesis
      by (auto simp: erase_located_def is_bid_def stored_def with_heap_def)
  next
    case False
    with reps(3) have "ask_side.side_rep (ob_asks b) (side_of False xs @ (a, ord) # side_of False ys)"
      by simp
    from ask_side.erase_order_rep [where ns = "nodes b" and a = a, OF this fresh [of False] node] obtain m where
      "erase_order ask_before (ob_asks b) (heap_of b) (bo_price ord) a =
         Inr (m, ((nodes b)(a := None), next_node b))"
      "ask_side.side_rep m (side_of False xs @ side_of False ys)"
      unfolding heap_of_def by metis
    with False heap reps that show thesis
      by (auto simp: erase_located_def is_bid_def stored_def with_heap_def)
  qed
qed

lemma reduce_located_stored:
  assumes "stored b (xs @ (a, ord) # ys)"
  obtains b' where "reduce_located \<lparr>loc_side = bo_side ord, loc_price = bo_price ord, loc_it = a\<rparr>
      (bo_qty ord - delta) delta b = Inr b'"
    and "stored b' (xs @ (a, ord\<lparr>bo_qty := bo_qty ord - delta\<rparr>) # ys)"
    and "ob_orders b' = ob_orders b" and "ob_symbol b' = ob_symbol b"
proof -
  from assms have reps: "heap_rep (nodes b) (next_node b) (xs @ (a, ord) # ys)"
      "bid_side.side_rep (ob_bids b) (side_of True (xs @ (a, ord) # ys))"
      "ask_side.side_rep (ob_asks b) (side_of False (xs @ (a, ord) # ys))"
    by (simp_all add: stored_def)
  note heap = heap_rep_resize [OF reps(1), of "bo_qty ord - delta"]
  from stored_at [OF assms] have node: "nodes b a = Some \<lparr>ro_id = bo_id ord, ro_quantity = bo_qty ord\<rparr>"
    by simp
  show thesis
  proof (cases "is_bid ord")
    case True
    with reps(2) have "bid_side.side_rep (ob_bids b) (side_of True xs @ (a, ord) # side_of True ys)"
      by simp
    from bid_side.reduce_level_rep [OF this, of delta] obtain m where
      "reduce_level bid_before (bo_price ord) delta (ob_bids b) = Inr m"
      "bid_side.side_rep m (side_of True xs @ (a, ord\<lparr>bo_qty := bo_qty ord - delta\<rparr>) # side_of True ys)"
      by metis
    with True heap reps node that show thesis
      by (auto simp: reduce_located_def deref_def Let_def is_bid_def stored_def)
  next
    case False
    with reps(3) have "ask_side.side_rep (ob_asks b) (side_of False xs @ (a, ord) # side_of False ys)"
      by simp
    from ask_side.reduce_level_rep [OF this, of delta] obtain m where
      "reduce_level ask_before (bo_price ord) delta (ob_asks b) = Inr m"
      "ask_side.side_rep m (side_of False xs @ (a, ord\<lparr>bo_qty := bo_qty ord - delta\<rparr>) # side_of False ys)"
      by metis
    with False heap reps node that show thesis
      by (auto simp: reduce_located_def deref_def Let_def is_bid_def stored_def)
  qed
qed

section \<open>The abstract operations on a located list\<close>

lemma ab_lookup_None: "ab_lookup oid L = None \<longleftrightarrow> oid \<notin> bo_id ` set L"
  by (auto simp: ab_lookup_def find_None_iff)

lemma ab_remove_absent: "oid \<notin> bo_id ` set L \<Longrightarrow> ab_remove oid L = L"
  by (auto simp: ab_remove_def filter_id_conv)

lemma ab_resize_absent: "oid \<notin> bo_id ` set L \<Longrightarrow> ab_resize oid q L = L"
  by (auto simp: ab_resize_def intro!: map_idI)

lemma ab_at:
  assumes "bo_id ord \<notin> bo_id ` set (xs @ ys)"
  shows "ab_lookup (bo_id ord) (xs @ ord # ys) = Some ord"
    and "ab_remove (bo_id ord) (xs @ ord # ys) = xs @ ys"
    and "ab_resize (bo_id ord) q (xs @ ord # ys) = xs @ ord\<lparr>bo_qty := q\<rparr> # ys"
proof -
  from assms have "bo_id ord \<notin> bo_id ` set xs" "bo_id ord \<notin> bo_id ` set ys"
    by auto
  then show "ab_remove (bo_id ord) (xs @ ord # ys) = xs @ ys"
    and "ab_resize (bo_id ord) q (xs @ ord # ys) = xs @ ord\<lparr>bo_qty := q\<rparr> # ys"
    using ab_remove_absent [of "bo_id ord" xs] ab_remove_absent [of "bo_id ord" ys]
      ab_resize_absent [of "bo_id ord" xs q] ab_resize_absent [of "bo_id ord" ys q]
    by (simp_all add: ab_remove_def ab_resize_def)
  from \<open>bo_id ord \<notin> bo_id ` set xs\<close> show "ab_lookup (bo_id ord) (xs @ ord # ys) = Some ord"
    by (induction xs) (auto simp: ab_lookup_def)
qed

section \<open>The operations simulate the abstract operations\<close>

definition simulates ::
  "(OrderBook \<Rightarrow> (bool \<times> OrderBook) exec) \<Rightarrow> (book \<Rightarrow> bool \<times> book) \<Rightarrow> bool" where
  "simulates f g \<longleftrightarrow> (\<forall>b L. represents b L \<longrightarrow>
     (\<exists>b'. f b = Inr (fst (g L), b') \<and> represents b' (snd (g L)) \<and> ob_symbol b' = ob_symbol b))"

lemma simulatesI:
  assumes "\<And>b G. rep b G \<Longrightarrow> \<exists>b' G'. f b = Inr (fst (g (map snd G)), b') \<and> rep b' G' \<and>
    map snd G' = snd (g (map snd G)) \<and> ob_symbol b' = ob_symbol b"
  shows "simulates f g"
  unfolding simulates_def represents_def using assms by metis

lemma simulatesE:
  assumes "simulates f g" and "represents b L"
  obtains b' where "f b = Inr (fst (g L), b')" and "represents b' (snd (g L))"
    and "ob_symbol b' = ob_symbol b"
  using assms unfolding simulates_def by blast

lemma rep_absent:
  "rep b G \<Longrightarrow> map_of (ob_orders b) oid = None \<longleftrightarrow> ab_lookup oid (map snd G) = None"
  by (simp add: rep_def loc_rep_absent ab_lookup_None)

lemma rep_find:
  assumes "rep b G" and "map_of (ob_orders b) oid = Some loc"
  obtains xs a ord ys where "G = xs @ (a, ord) # ys" and "bo_id ord = oid"
    and "loc = \<lparr>loc_side = bo_side ord, loc_price = bo_price ord, loc_it = a\<rparr>"
    and "bo_id ord \<notin> bo_id ` set (map snd xs @ map snd ys)" and "bo_qty ord \<noteq> 0"
proof -
  from assms have "loc_rep (ob_orders b) G" by (simp add: rep_def)
  then obtain xs a ord ys where G: "G = xs @ (a, ord) # ys" "bo_id ord = oid"
      "loc = \<lparr>loc_side = bo_side ord, loc_price = bo_price ord, loc_it = a\<rparr>"
    using assms(2) by (rule loc_rep_find)
  moreover from assms(1) G have "bo_qty ord \<noteq> 0" by (simp add: rep_def positive_def)
  moreover have "bo_id ord \<notin> bo_id ` set (map snd xs @ map snd ys)"
    using loc_rep_ids [of "ob_orders b" xs a ord ys] assms(1) G
    by (simp add: rep_def image_Un)
  ultimately show thesis by (intro that)
qed

lemma represents_ids: "represents b (xs @ ord # ys) \<Longrightarrow> bo_id ord \<notin> bo_id ` set (xs @ ys)"
proof -
  assume "represents b (xs @ ord # ys)"
  then obtain G where G: "rep b G" "map snd G = xs @ ord # ys" by (auto simp: represents_def)
  from G(1) have "distinct (map bo_id (map snd G))" by (simp add: rep_def loc_rep_def)
  then show ?thesis by (simp add: G(2)) auto
qed

lemma positive_simps [simp]:
  "positive (xs @ ys) \<longleftrightarrow> positive xs \<and> positive ys"
  "positive ((a, ord) # xs) \<longleftrightarrow> bo_qty ord \<noteq> 0 \<and> positive xs"
  "positive []"
  by (auto simp: positive_def)

lemma add_simulates: "simulates (add oid side price qty) (ab_add oid side price qty)"
proof (rule simulatesI)
  fix b G assume rep: "rep b G"
  let ?ord = "\<lparr>bo_id = oid, bo_side = side, bo_price = price, bo_qty = qty\<rparr>"
  show "\<exists>b' G'. add oid side price qty b = Inr (fst (ab_add oid side price qty (map snd G)), b') \<and>
    rep b' G' \<and> map snd G' = snd (ab_add oid side price qty (map snd G)) \<and> ob_symbol b' = ob_symbol b"
  proof (cases "qty = 0 \<or> map_of (ob_orders b) oid \<noteq> None")
    case True
    then have "add oid side price qty b = Inr (False, b)"
      by (auto simp: add_def)
    with True rep show ?thesis
      by (metis ab_add_def fst_conv rep_absent snd_conv)
  next
    case False
    from rep have reps: "stored b G" "loc_rep (ob_orders b) G" "positive G" by (auto simp: rep_def)
    note loc' = loc_rep_insert [OF reps(2), of ?ord "next_node b", simplified]
    have ab: "ab_add oid side price qty (map snd G) = (True, map snd (G @ [(next_node b, ?ord)]))"
      using False rep_absent [OF rep, of oid] by (simp add: ab_add_def)
    from insert_located_stored [OF reps(1), of ?ord] obtain b1 where
      "insert_located side price oid qty b = Inr (b1, next_node b)"
      "stored b1 (G @ [(next_node b, ?ord)])" "ob_orders b1 = ob_orders b" "ob_symbol b1 = ob_symbol b"
      by auto
    with False reps loc' have "\<exists>b'. add oid side price qty b = Inr (True, b') \<and>
        rep b' (G @ [(next_node b, ?ord)]) \<and> ob_symbol b' = ob_symbol b"
      by (auto simp: add_def rep_def stored_def)
    with ab show ?thesis by (metis fst_conv snd_conv)
  qed
qed

lemma erase_order_step:
  assumes "rep b (xs @ (a, ord) # ys)"
  obtains b' where "erase_located \<lparr>loc_side = bo_side ord, loc_price = bo_price ord, loc_it = a\<rparr> b = Inr b'"
    and "stored b' (xs @ ys)" and "ob_orders b' = ob_orders b" and "ob_symbol b' = ob_symbol b"
    and "rep (b'\<lparr>ob_orders := um_erase (bo_id ord) (ob_orders b')\<rparr>) (xs @ ys)"
proof -
  from assms have "stored b (xs @ (a, ord) # ys)" by (simp add: rep_def)
  then obtain b' where b': "erase_located \<lparr>loc_side = bo_side ord, loc_price = bo_price ord, loc_it = a\<rparr> b = Inr b'"
    "stored b' (xs @ ys)" "ob_orders b' = ob_orders b" "ob_symbol b' = ob_symbol b"
    by (rule erase_located_stored)
  moreover from assms b' have "rep (b'\<lparr>ob_orders := um_erase (bo_id ord) (ob_orders b')\<rparr>) (xs @ ys)"
    by (auto simp: rep_def stored_def dest: loc_rep_erase)
  ultimately show thesis by (rule that)
qed

lemma cancel_simulates: "simulates (cancel oid) (ab_cancel oid)"
proof (rule simulatesI)
  fix b G assume rep: "rep b G"
  show "\<exists>b' G'. cancel oid b = Inr (fst (ab_cancel oid (map snd G)), b') \<and> rep b' G' \<and>
    map snd G' = snd (ab_cancel oid (map snd G)) \<and> ob_symbol b' = ob_symbol b"
  proof (cases "map_of (ob_orders b) oid")
    case None
    with rep have "oid \<notin> bo_id ` set (map snd G)"
      using rep_absent ab_lookup_None by blast
    with None rep show ?thesis
      by (auto simp: cancel_def ab_cancel_def ab_lookup_None ab_remove_absent)
  next
    case (Some loc)
    with rep obtain xs a ord ys where G: "G = xs @ (a, ord) # ys" "bo_id ord = oid"
      "loc = \<lparr>loc_side = bo_side ord, loc_price = bo_price ord, loc_it = a\<rparr>"
      "bo_id ord \<notin> bo_id ` set (map snd xs @ map snd ys)"
      by (rule rep_find)
    from rep G(1) obtain b' where
      "erase_located loc b = Inr b'" "ob_symbol b' = ob_symbol b"
      "rep (b'\<lparr>ob_orders := um_erase oid (ob_orders b')\<rparr>) (xs @ ys)"
      using G(2,3) by (auto elim: erase_order_step)
    moreover have "ab_cancel oid (map snd G) = (True, map snd (xs @ ys))"
      using ab_at(1,2) [OF G(4)] G(1,2) by (simp add: ab_cancel_def)
    ultimately show ?thesis
      using Some by (auto simp: cancel_def intro!: exI [of _ "xs @ ys"])
  qed
qed

lemma reduce_rep:
  assumes "rep b (xs @ (a, ord) # ys)"
  obtains b' where "reduce_located \<lparr>loc_side = bo_side ord, loc_price = bo_price ord, loc_it = a\<rparr>
      (bo_qty ord - delta) delta b = Inr b'"
    and "stored b' (xs @ (a, ord\<lparr>bo_qty := bo_qty ord - delta\<rparr>) # ys)"
    and "loc_rep (ob_orders b') (xs @ (a, ord\<lparr>bo_qty := bo_qty ord - delta\<rparr>) # ys)"
    and "ob_symbol b' = ob_symbol b" and "ob_orders b' = ob_orders b"
proof -
  from assms have "stored b (xs @ (a, ord) # ys)" and loc: "loc_rep (ob_orders b) (xs @ (a, ord) # ys)"
    by (simp_all add: rep_def)
  from this(1) obtain b' where "reduce_located \<lparr>loc_side = bo_side ord, loc_price = bo_price ord, loc_it = a\<rparr>
      (bo_qty ord - delta) delta b = Inr b'"
    "stored b' (xs @ (a, ord\<lparr>bo_qty := bo_qty ord - delta\<rparr>) # ys)"
    "ob_orders b' = ob_orders b" "ob_symbol b' = ob_symbol b"
    by (rule reduce_located_stored)
  with loc_rep_resize [OF loc, of "bo_qty ord - delta"] show thesis by (intro that [of b']) simp_all
qed

lemma requeue_rep:
  assumes "rep b (xs @ (a, ord) # ys)" and "q \<noteq> 0"
    and "stored b1 (xs @ ys)" and "ob_orders b1 = ob_orders b"
  obtains b2 where "insert_located (bo_side ord) p (bo_id ord) q b1 = Inr (b2, next_node b1)"
    and "rep (b2\<lparr>ob_orders := um_assign (bo_id ord)
           \<lparr>loc_side = bo_side ord, loc_price = p, loc_it = next_node b1\<rparr> (ob_orders b2)\<rparr>)
         ((xs @ ys) @ [(next_node b1, ord\<lparr>bo_price := p, bo_qty := q\<rparr>)])"
    and "ob_symbol b2 = ob_symbol b1"
proof -
  let ?ord = "ord\<lparr>bo_price := p, bo_qty := q\<rparr>"
  from assms(1) have loc: "loc_rep (ob_orders b) (xs @ (a, ord) # ys)" and pos: "positive (xs @ ys)"
    by (simp_all add: rep_def)
  note loc' = loc_rep_move [OF loc, of p "next_node b1" q]
  from insert_located_stored [OF assms(3), of ?ord] obtain b2 where
    "insert_located (bo_side ord) p (bo_id ord) q b1 = Inr (b2, next_node b1)"
    "stored b2 ((xs @ ys) @ [(next_node b1, ?ord)])"
    "ob_orders b2 = ob_orders b1" "ob_symbol b2 = ob_symbol b1"
    by auto
  with loc' pos assms(2,4) show thesis
    by (intro that [of b2]) (auto simp: rep_def stored_def)
qed

lemma rep_deref: "rep b (xs @ (a, ord) # ys) \<Longrightarrow>
    deref a (nodes b) = Inr \<lparr>ro_id = bo_id ord, ro_quantity = bo_qty ord\<rparr>"
  using stored_at [of b xs a ord ys] by (simp add: rep_def deref_def)

lemma modify_at:
  assumes "rep b (xs @ (a, ord) # ys)" and "q \<noteq> 0"
    and "map_of (ob_orders b) (bo_id ord) =
      Some \<lparr>loc_side = bo_side ord, loc_price = bo_price ord, loc_it = a\<rparr>"
  obtains b' a' where "modify (bo_id ord) p q b = Inr (True, b')" and "ob_symbol b' = ob_symbol b"
    and "rep b' (if p = bo_price ord \<and> q \<le> bo_qty ord
                 then xs @ (a, ord\<lparr>bo_qty := q\<rparr>) # ys
                 else (xs @ ys) @ [(a', ord\<lparr>bo_price := p, bo_qty := q\<rparr>)])"
proof (cases "p = bo_price ord \<and> q \<le> bo_qty ord")
  case True
  from assms(1) obtain b' where "reduce_located \<lparr>loc_side = bo_side ord, loc_price = bo_price ord, loc_it = a\<rparr>
      (bo_qty ord - (bo_qty ord - q)) (bo_qty ord - q) b = Inr b'"
    "stored b' (xs @ (a, ord\<lparr>bo_qty := bo_qty ord - (bo_qty ord - q)\<rparr>) # ys)"
    "loc_rep (ob_orders b') (xs @ (a, ord\<lparr>bo_qty := bo_qty ord - (bo_qty ord - q)\<rparr>) # ys)"
    "ob_symbol b' = ob_symbol b"
    by (rule reduce_rep)
  with True assms show thesis
    by (intro that) (auto simp: modify_def rep_deref Let_def rep_def)
next
  case False
  from assms(1) obtain b1 where b1:
    "erase_located \<lparr>loc_side = bo_side ord, loc_price = bo_price ord, loc_it = a\<rparr> b = Inr b1"
    "stored b1 (xs @ ys)" "ob_orders b1 = ob_orders b" "ob_symbol b1 = ob_symbol b"
    by (rule erase_order_step)
  from requeue_rep [OF assms(1,2) b1(2,3), of p] obtain b2 where
    "insert_located (bo_side ord) p (bo_id ord) q b1 = Inr (b2, next_node b1)"
    "rep (b2\<lparr>ob_orders := um_assign (bo_id ord)
           \<lparr>loc_side = bo_side ord, loc_price = p, loc_it = next_node b1\<rparr> (ob_orders b2)\<rparr>)
         ((xs @ ys) @ [(next_node b1, ord\<lparr>bo_price := p, bo_qty := q\<rparr>)])"
    "ob_symbol b2 = ob_symbol b1"
    by metis
  with False assms b1(1,4) show thesis
    by (intro that [of "b2\<lparr>ob_orders := um_assign (bo_id ord)
        \<lparr>loc_side = bo_side ord, loc_price = p, loc_it = next_node b1\<rparr> (ob_orders b2)\<rparr>"
        "next_node b1"]) (auto simp: modify_def rep_deref Let_def)
qed

lemma modify_simulates: "simulates (modify oid p q) (ab_modify oid p q)"
proof (cases "q = 0")
  case True
  then have "modify oid p q = cancel oid" "ab_modify oid p q = ab_cancel oid"
    by (simp_all add: modify_def ab_modify_def fun_eq_iff)
  then show ?thesis by (simp add: cancel_simulates)
next
  case q: False
  show ?thesis
  proof (rule simulatesI)
    fix b G assume rep: "rep b G"
    show "\<exists>b' G'. modify oid p q b = Inr (fst (ab_modify oid p q (map snd G)), b') \<and> rep b' G' \<and>
      map snd G' = snd (ab_modify oid p q (map snd G)) \<and> ob_symbol b' = ob_symbol b"
    proof (cases "map_of (ob_orders b) oid")
      case None
      moreover from this rep have "ab_lookup oid (map snd G) = None" by (simp add: rep_absent)
      ultimately show ?thesis
        using q rep by (auto simp: modify_def ab_modify_def)
    next
      case (Some loc)
      with rep obtain xs a ord ys where G: "G = xs @ (a, ord) # ys" "bo_id ord = oid"
        "loc = \<lparr>loc_side = bo_side ord, loc_price = bo_price ord, loc_it = a\<rparr>"
        "bo_id ord \<notin> bo_id ` set (map snd xs @ map snd ys)"
        by (rule rep_find)
      note ab = ab_at [OF G(4)]
      from rep q Some G obtain b' a' where "modify oid p q b = Inr (True, b')" "ob_symbol b' = ob_symbol b"
        and "rep b' (if p = bo_price ord \<and> q \<le> bo_qty ord
                     then xs @ (a, ord\<lparr>bo_qty := q\<rparr>) # ys
                     else (xs @ ys) @ [(a', ord\<lparr>bo_price := p, bo_qty := q\<rparr>)])"
        by (metis modify_at)
      with ab G(1,2) q show ?thesis
        by (intro exI [of _ b'] exI conjI) (assumption | simp add: ab_modify_def)+
    qed
  qed
qed

lemma execute_at:
  assumes "rep b (xs @ (a, ord) # ys)" and "bo_qty ord \<noteq> 0"
    and "map_of (ob_orders b) (bo_id ord) =
      Some \<lparr>loc_side = bo_side ord, loc_price = bo_price ord, loc_it = a\<rparr>"
  obtains b' where "execute (bo_id ord) q b = Inr (True, b')" and "ob_symbol b' = ob_symbol b"
    and "rep b' (if bo_qty ord \<le> q then xs @ ys
                 else xs @ (a, ord\<lparr>bo_qty := bo_qty ord - q\<rparr>) # ys)"
proof -
  let ?loc = "\<lparr>loc_side = bo_side ord, loc_price = bo_price ord, loc_it = a\<rparr>"
  let ?fill = "min q (bo_qty ord)"
  let ?ord = "ord\<lparr>bo_qty := bo_qty ord - ?fill\<rparr>"
  from assms(1) obtain b1 where b1: "reduce_located ?loc (bo_qty ord - ?fill) ?fill b = Inr b1"
    "stored b1 (xs @ (a, ?ord) # ys)" "loc_rep (ob_orders b1) (xs @ (a, ?ord) # ys)"
    "ob_symbol b1 = ob_symbol b" "ob_orders b1 = ob_orders b"
    by (rule reduce_rep)
  from assms(1) have pos: "positive (xs @ ys)" by (simp add: rep_def)
  from stored_at [OF b1(2)] have deref1: "deref a (nodes b1) =
      Inr \<lparr>ro_id = bo_id ord, ro_quantity = bo_qty ord - ?fill\<rparr>"
    by (simp add: deref_def)
  show thesis
  proof (cases "bo_qty ord \<le> q")
    case True
    then have zero: "bo_qty ord - ?fill = 0" by (simp add: min_def)
    from erase_located_stored [OF b1(2)] obtain b2 where b2: "erase_located ?loc b1 = Inr b2"
      "stored b2 (xs @ ys)" "ob_orders b2 = ob_orders b1" "ob_symbol b2 = ob_symbol b1"
      by auto
    from loc_rep_erase [OF b1(3)] b2 pos
    have "rep (b2\<lparr>ob_orders := um_erase (bo_id ord) (ob_orders b2)\<rparr>) (xs @ ys)"
      by (simp add: rep_def stored_def)
    with True zero b1 b2 deref1 assms show thesis
      by (intro that) (auto simp: execute_def rep_deref Let_def)
  next
    case False
    then have "?fill = q" "bo_qty ord - q \<noteq> 0" by (auto simp: min_def)
    with False b1 deref1 pos assms show thesis
      by (intro that [of b1]) (auto simp: execute_def rep_deref Let_def rep_def)
  qed
qed

lemma execute_simulates: "simulates (execute oid q) (ab_execute oid q)"
proof (rule simulatesI)
  fix b G assume rep: "rep b G"
  show "\<exists>b' G'. execute oid q b = Inr (fst (ab_execute oid q (map snd G)), b') \<and> rep b' G' \<and>
    map snd G' = snd (ab_execute oid q (map snd G)) \<and> ob_symbol b' = ob_symbol b"
  proof (cases "map_of (ob_orders b) oid")
    case None
    moreover from this rep have "ab_lookup oid (map snd G) = None" by (simp add: rep_absent)
    ultimately show ?thesis
      using rep by (auto simp: execute_def ab_execute_def)
  next
    case (Some loc)
    with rep obtain xs a ord ys where G: "G = xs @ (a, ord) # ys" "bo_id ord = oid"
      "loc = \<lparr>loc_side = bo_side ord, loc_price = bo_price ord, loc_it = a\<rparr>"
      "bo_id ord \<notin> bo_id ` set (map snd xs @ map snd ys)" "bo_qty ord \<noteq> 0"
      by (rule rep_find)
    note ab = ab_at [OF G(4)]
    from rep Some G obtain b' where "execute oid q b = Inr (True, b')" "ob_symbol b' = ob_symbol b"
      and "rep b' (if bo_qty ord \<le> q then xs @ ys
                   else xs @ (a, ord\<lparr>bo_qty := bo_qty ord - q\<rparr>) # ys)"
      by (metis execute_at)
    with ab G(1,2) show ?thesis
      by (intro exI [of _ b'] exI conjI) (assumption | simp add: ab_execute_def)+
  qed
qed

section \<open>Sample book\<close>

lemma represents_init [simp]: "represents (OrderBook_init s) []"
  unfolding represents_def
  by (rule exI [of _ "[]"])
    (simp add: rep_def stored_def heap_rep_def loc_rep_def OrderBook_init_def)

text \<open>A concrete book for the evaluations: two bids at one price and an offer.\<close>

definition run_adds :: "(OrderId \<times> Side \<times> Price \<times> Quantity) list \<Rightarrow> OrderBook \<Rightarrow> OrderBook" where
  "run_adds xs b = fold (\<lambda>(i, s, p, q) b. case add i s p q b of Inr (_, b') \<Rightarrow> b' | Inl _ \<Rightarrow> b) xs b"

definition sample_book :: OrderBook where
  "sample_book = run_adds [(1, Buy, 100, 5), (2, Sell, 105, 7), (3, Buy, 100, 9)] (OrderBook_init 7)"

definition sample_orders :: book where
  "sample_orders =
     [\<lparr>bo_id = 1, bo_side = Buy, bo_price = 100, bo_qty = 5\<rparr>,
      \<lparr>bo_id = 2, bo_side = Sell, bo_price = 105, bo_qty = 7\<rparr>,
      \<lparr>bo_id = 3, bo_side = Buy, bo_price = 100, bo_qty = 9\<rparr>]"

lemma run_adds_represents:
  "represents b L \<Longrightarrow>
     represents (run_adds xs b) (fold (\<lambda>(i, s, p, q) L. snd (ab_add i s p q L)) xs L) \<and>
     ob_symbol (run_adds xs b) = ob_symbol b"
proof (induction xs arbitrary: b L)
  case (Cons x xs)
  obtain i s p q where x: "x = (i, s, p, q)" by (cases x)
  from add_simulates Cons.prems obtain b' where
    "add i s p q b = Inr (fst (ab_add i s p q L), b')" "represents b' (snd (ab_add i s p q L))"
    "ob_symbol b' = ob_symbol b"
    by (rule simulatesE)
  with Cons.IH [of b' "snd (ab_add i s p q L)"] x show ?case by (simp add: run_adds_def)
qed (simp add: run_adds_def)

lemma represents_sample: "represents sample_book sample_orders"
  and symbol_sample: "ob_symbol sample_book = 7"
  using run_adds_represents [OF represents_init [of 7],
      of "[(1, Buy, 100, 5), (2, Sell, 105, 7), (3, Buy, 100, 9)]"]
  by (simp_all add: sample_book_def sample_orders_def ab_add_def ab_lookup_def OrderBook_init_def)

section \<open>Properties\<close>

text \<open>C9. Adding an order never faults, and refines the abstract book: it is refused exactly when the
  quantity is zero or the identifier is live, and otherwise joins the end of time priority.\<close>

theorem add_refines:
  assumes "represents b L"
  shows "\<exists>b'. add oid side price qty b =
      Inr (qty \<noteq> 0 \<and> oid \<notin> bo_id ` set L, b') \<and> ob_symbol b' = ob_symbol b \<and>
    represents b' (if qty \<noteq> 0 \<and> oid \<notin> bo_id ` set L
      then L @ [\<lparr>bo_id = oid, bo_side = side, bo_price = price, bo_qty = qty\<rparr>] else L)"
  using add_simulates assms
  by (rule simulatesE) (auto simp: ab_add_def ab_lookup_None split: if_splits)

theorem add_refines_witness:
  "\<exists>b'. add 4 Sell 104 11 sample_book = Inr (True, b') \<and>
    represents b' (sample_orders @ [\<lparr>bo_id = 4, bo_side = Sell, bo_price = 104, bo_qty = 11\<rparr>])"
  using add_refines [OF represents_sample, of 4 Sell 104 11] by (auto simp: sample_orders_def)

text \<open>C10. Cancelling never faults; it succeeds exactly on a live identifier, and removes that order
  and nothing else from the book.\<close>

theorem cancel_refines:
  assumes "represents b L"
  shows "\<exists>b'. cancel oid b = Inr (oid \<in> bo_id ` set L, b') \<and> ob_symbol b' = ob_symbol b \<and>
    represents b' (filter (\<lambda>ord. bo_id ord \<noteq> oid) L)"
  using cancel_simulates assms
  by (rule simulatesE) (auto simp: ab_cancel_def ab_lookup_None ab_remove_def)

theorem cancel_refines_witness:
  "\<exists>b'. cancel 1 sample_book = Inr (True, b') \<and> represents b' (tl sample_orders)"
  using cancel_refines [OF represents_sample, of 1] by (auto simp: sample_orders_def)

text \<open>C7. Modifying never faults. On a live order, a smaller or equal size at the same price changes
  the order in place, so it keeps its priority; any other change moves it to the end of
  time priority; a zero size cancels; an unknown identifier is refused.\<close>

theorem modify_refines:
  assumes "represents b L"
  shows "(oid \<notin> bo_id ` set L \<longrightarrow>
      (\<exists>b'. modify oid price qty b = Inr (False, b') \<and> represents b' L)) \<and>
    (\<forall>xs ord ys. L = xs @ ord # ys \<and> bo_id ord = oid \<longrightarrow>
      (\<exists>b'. modify oid price qty b = Inr (True, b') \<and>
        represents b'
          (if qty = 0 then xs @ ys
           else if price = bo_price ord \<and> qty \<le> bo_qty ord then xs @ ord\<lparr>bo_qty := qty\<rparr> # ys
           else xs @ ys @ [ord\<lparr>bo_price := price, bo_qty := qty\<rparr>])))"
proof -
  from modify_simulates [of oid price qty] assms obtain b' where b':
    "modify oid price qty b = Inr (fst (ab_modify oid price qty L), b')"
    "represents b' (snd (ab_modify oid price qty L))"
    by (rule simulatesE)
  have "ab_modify oid price qty L = (False, L)" if "oid \<notin> bo_id ` set L"
    using that ab_lookup_None [of oid L]
    by (simp add: ab_modify_def ab_cancel_def ab_remove_absent)
  moreover have "ab_modify oid price qty L = (True, if qty = 0 then xs @ ys
      else if price = bo_price ord \<and> qty \<le> bo_qty ord then xs @ ord\<lparr>bo_qty := qty\<rparr> # ys
      else xs @ ys @ [ord\<lparr>bo_price := price, bo_qty := qty\<rparr>])"
    if "L = xs @ ord # ys" "bo_id ord = oid" for xs ord ys
    using ab_at [of ord xs ys] represents_ids [of b xs ord ys] assms that
    by (auto simp: ab_modify_def ab_cancel_def)
  ultimately show ?thesis
    using b' by (intro conjI impI allI exI [of _ b']) (metis fst_conv snd_conv)+
qed

theorem modify_refines_witness:
  "\<exists>b'. modify 1 100 6 sample_book = Inr (True, b') \<and>
    represents b' (tl sample_orders @ [\<lparr>bo_id = 1, bo_side = Buy, bo_price = 100, bo_qty = 6\<rparr>])"
proof -
  let ?ord = "\<lparr>bo_id = 1, bo_side = Buy, bo_price = 100, bo_qty = 5\<rparr>"
  have "sample_orders = [] @ ?ord # tl sample_orders \<and> bo_id ?ord = 1"
    by (simp add: sample_orders_def)
  with modify_refines [OF represents_sample, of 1 100 6] show ?thesis
    by (fastforce simp: word_le_nat_alt)
qed

text \<open>C8. An execution never faults. It takes the smaller of its quantity and the order's from the
  resting order: the order leaves the book when filled, and otherwise keeps its place with
  the rest; an unknown identifier is refused and changes nothing.\<close>

theorem execute_refines:
  assumes "represents b L"
  shows "\<exists>b'. execute oid qty b = Inr (oid \<in> bo_id ` set L, b') \<and> ob_symbol b' = ob_symbol b \<and>
    (\<exists>L'. represents b' L' \<and>
      L' = concat (map (\<lambda>ord. if bo_id ord \<noteq> oid then [ord]
                              else if bo_qty ord \<le> qty then []
                              else [ord\<lparr>bo_qty := bo_qty ord - qty\<rparr>]) L))"
proof -
  let ?fill = "\<lambda>ord. if bo_id ord \<noteq> oid then [ord] else if bo_qty ord \<le> qty then []
    else [ord\<lparr>bo_qty := bo_qty ord - qty\<rparr>]"
  have other: "oid \<notin> bo_id ` set M \<Longrightarrow> concat (map ?fill M) = M" for M :: book
    by (induction M) auto
  show ?thesis
  proof (cases "oid \<in> bo_id ` set L")
    case False
    with other [of L] have "concat (map ?fill L) = L" by blast
    moreover have "ab_lookup oid L = None" using False by (simp add: ab_lookup_None)
    ultimately show ?thesis
      using execute_simulates [of oid qty] assms
      by (rule_tac simulatesE) (use False in \<open>auto simp: ab_execute_def\<close>)
  next
    case True
    then obtain xs ord ys where L: "L = xs @ ord # ys" "bo_id ord = oid"
      by (auto dest: split_list)
    with represents_ids [of b xs ord ys] assms have ids: "oid \<notin> bo_id ` set (xs @ ys)" by simp
    then have "oid \<notin> bo_id ` set xs" "oid \<notin> bo_id ` set ys" by auto
    note rest = other [OF this(1)] other [OF this(2)]
    have "concat (map ?fill L) = xs @ ?fill ord @ ys"
      by (simp only: L(1) map_append list.map concat_append concat.simps rest)
    moreover note ab_at [of ord xs ys]
    ultimately show ?thesis
      using execute_simulates [of oid qty] assms
      by (rule_tac simulatesE) (use True L ids in \<open>auto simp: ab_execute_def\<close>)
  qed
qed

theorem execute_refines_witness:
  "\<exists>b'. execute 3 4 sample_book = Inr (True, b') \<and>
    represents b' (butlast sample_orders @ [\<lparr>bo_id = 3, bo_side = Buy, bo_price = 100, bo_qty = 5\<rparr>])"
  using execute_refines [OF represents_sample, of 3 4] by (auto simp: sample_orders_def)

end
