(* ===== verification/Order_Book_Queries.thy ===== *)
theory Order_Book_Queries
  imports Order_Book_Refinement
begin

text \<open>
  The queries of the order book, as functions of the abstract book it represents: the ladder
  of a side is the distinct prices of its live orders, best first, each with the wrapped sum
  and the number of the orders queued there. Best bid and ask, depth, spread, snapshot,
  sizes and the self check all follow from the ladder.
\<close>

section \<open>The abstract ladder\<close>

definition ab_side :: "bool \<Rightarrow> book \<Rightarrow> book" where
  "ab_side bid L = filter (\<lambda>ord. is_bid ord = bid) L"

definition ab_prices :: "bool \<Rightarrow> book \<Rightarrow> Price list" where
  "ab_prices bid L =
     (let ps = sort_key sint (remdups (map bo_price (ab_side bid L)))
      in if bid then rev ps else ps)"

definition ab_level :: "bool \<Rightarrow> book \<Rightarrow> Price \<Rightarrow> LevelView" where
  "ab_level bid L p =
     \<lparr>lv_price = p, lv_quantity = sum_list (map bo_qty (ab_queue bid p L)),
      lv_order_count = of_nat (length (ab_queue bid p L))\<rparr>"

definition ab_ladder :: "bool \<Rightarrow> book \<Rightarrow> LevelView list" where
  "ab_ladder bid L = map (ab_level bid L) (ab_prices bid L)"

lemma set_ab_prices: "set (ab_prices bid L) = bo_price ` set (ab_side bid L)"
  by (simp add: ab_prices_def Let_def)

lemma distinct_ab_prices: "distinct (ab_prices bid L)"
  by (simp add: ab_prices_def Let_def)

lemma sort_prices_unique:
  assumes "sorted_wrt (\<lambda>p q. sint p < sint q) ps" and "set ps = set (xs :: Price list)"
  shows "ps = sort_key sint (remdups xs)"
proof -
  have inj: "inj (sint :: Price \<Rightarrow> int)" by (simp add: injI signed_word_eqI)
  from assms(1) have "sorted_wrt (<) (map sint ps)" by (simp add: sorted_wrt_map)
  then have "sorted (map sint ps)" "distinct (map sint ps)"
    by (simp_all add: strict_sorted_iff)
  moreover have "distinct (map sint (sort_key sint (remdups xs)))"
    using inj_on_subset [OF inj] by (simp add: distinct_map)
  ultimately have "map sint ps = map sint (sort_key sint (remdups xs))"
    using assms(2) by (intro sorted_distinct_set_unique) simp_all
  with inj show ?thesis by (simp add: inj_map_eq_map)
qed

lemma bid_prices_unique:
  "sorted_wrt bid_before ps \<Longrightarrow> set ps = set (map bo_price (ab_side True L)) \<Longrightarrow> ps = ab_prices True L"
  using sort_prices_unique [of "rev ps" "map bo_price (ab_side True L)"]
  by (simp add: ab_prices_def Let_def sorted_wrt_rev bid_before_def [abs_def] rev_swap)

lemma ask_prices_unique:
  "sorted_wrt ask_before ps \<Longrightarrow> set ps = set (map bo_price (ab_side False L)) \<Longrightarrow> ps = ab_prices False L"
  using sort_prices_unique [of ps "map bo_price (ab_side False L)"]
  by (simp add: ab_prices_def Let_def ask_before_def [abs_def])

section \<open>The ladder of a side\<close>

lemma level_of_dom: "level_of G p \<noteq> None \<longleftrightarrow> p \<in> bo_price ` snd ` set G"
  by (force simp: level_of_def Let_def filter_empty_conv)

context book_side
begin

lemma side_rep_keys: "side_rep m G \<Longrightarrow> fst ` set m = bo_price ` snd ` set G"
proof -
  assume "side_rep m G"
  then have "p \<in> fst ` set m \<longleftrightarrow> level_of G p \<noteq> None" for p
    using map_of_eq_None_iff [of m p] by (simp add: side_rep_def)
  then show ?thesis unfolding level_of_dom by blast
qed

lemma side_rep_entry: "side_rep m G \<Longrightarrow> (p, lvl) \<in> set m \<Longrightarrow> level_of G p = Some lvl"
  by (auto simp: side_rep_def dest!: ordered_distinct map_of_is_SomeI)

lemma side_rep_sorted: "side_rep m G \<Longrightarrow> sorted_wrt before (map fst m)"
  by (simp add: side_rep_def ordered_def)

lemma side_rep_best:
  "side_rep m G \<Longrightarrow> m = (p, lvl) # m' \<Longrightarrow> p' \<in> fst ` set m \<Longrightarrow> p' = p \<or> before p p'"
  by (auto simp: side_rep_def ordered_Cons)

end

lemma side_of_snd: "map snd (side_of bid G) = ab_side bid (map snd G)"
  by (induction G) (auto simp: side_of_def ab_side_def)

lemma side_of_prices: "bo_price ` snd ` set (side_of bid G) = bo_price ` set (ab_side bid (map snd G))"
  by (simp flip: side_of_snd)

lemma queue_at:
  "map snd (filter (\<lambda>(a, ord). bo_price ord = p) (side_of bid G)) = ab_queue bid p (map snd G)"
  by (induction G) (auto simp: side_of_def ab_queue_def)

lemma level_of_view:
  assumes "level_of (side_of bid G) p = Some lvl"
  shows "level_view lvl = ab_level bid (map snd G) p" and "pl_price lvl = p"
    and "length (pl_orders lvl) = length (ab_queue bid p (map snd G))"
    and "pl_orders lvl \<noteq> []"
proof -
  let ?q = "filter (\<lambda>(a, ord). bo_price ord = p) (side_of bid G)"
  from assms have ne: "?q \<noteq> []" and lvl: "lvl = \<lparr>pl_price = p,
      pl_total_quantity = sum_list (map (\<lambda>(a, ord). bo_qty ord) ?q), pl_orders = map fst ?q\<rparr>"
    by (auto simp: level_of_def Let_def split: if_splits)
  have q: "map (\<lambda>(a, ord). bo_qty ord) ?q = map bo_qty (ab_queue bid p (map snd G))"
    "length ?q = length (ab_queue bid p (map snd G))"
    by (simp_all add: case_prod_unfold flip: queue_at)
  show "level_view lvl = ab_level bid (map snd G) p"
    by (simp add: lvl level_view_def ab_level_def q(1) flip: q(2))
  from ne lvl q(2) show "pl_price lvl = p" "length (pl_orders lvl) = length (ab_queue bid p (map snd G))"
    "pl_orders lvl \<noteq> []"
    by simp_all
qed

lemma rep_sides:
  assumes "rep b G"
  shows "map fst (ob_bids b) = ab_prices True (map snd G)"
    and "map fst (ob_asks b) = ab_prices False (map snd G)"
    and "map (level_view \<circ> snd) (ob_bids b) = ab_ladder True (map snd G)"
    and "map (level_view \<circ> snd) (ob_asks b) = ab_ladder False (map snd G)"
proof -
  from assms have bids: "bid_side.side_rep (ob_bids b) (side_of True G)"
    and asks: "ask_side.side_rep (ob_asks b) (side_of False G)"
    by (simp_all add: rep_def stored_def)
  show keys: "map fst (ob_bids b) = ab_prices True (map snd G)"
    "map fst (ob_asks b) = ab_prices False (map snd G)"
    using bid_side.side_rep_sorted [OF bids] bid_side.side_rep_keys [OF bids]
      ask_side.side_rep_sorted [OF asks] ask_side.side_rep_keys [OF asks]
    by (auto intro!: bid_prices_unique ask_prices_unique simp: side_of_prices)
  have "map (level_view \<circ> snd) (ob_bids b) = map (ab_level True (map snd G)) (map fst (ob_bids b))"
    using bid_side.side_rep_entry [OF bids] by (auto simp: level_of_view(1))
  then show "map (level_view \<circ> snd) (ob_bids b) = ab_ladder True (map snd G)"
    by (simp only: keys ab_ladder_def)
  have "map (level_view \<circ> snd) (ob_asks b) = map (ab_level False (map snd G)) (map fst (ob_asks b))"
    using ask_side.side_rep_entry [OF asks] by (auto simp: level_of_view(1))
  then show "map (level_view \<circ> snd) (ob_asks b) = ab_ladder False (map snd G)"
    by (simp only: keys ab_ladder_def)
qed

section \<open>Sizes\<close>

lemma rep_order_count: "rep b G \<Longrightarrow> length (ob_orders b) = length G"
proof -
  assume "rep b G"
  then have m: "distinct (map fst (ob_orders b))" "distinct (map (bo_id \<circ> snd) G)"
    "dom (map_of (ob_orders b)) = dom (map_of (map entry_of G))"
    by (simp_all add: rep_def loc_rep_def)
  from m(3) have "set (map fst (ob_orders b)) = set (map (bo_id \<circ> snd) G)"
    by (simp add: dom_map_of_conv_image_fst image_comp)
  with m(1,2) show ?thesis
    by (metis distinct_card length_map)
qed

lemma sum_list_indicator:
  "distinct ks \<Longrightarrow> x \<in> set ks \<Longrightarrow> sum_list (map (\<lambda>p. if x = p then 1 else 0) ks) = (1::nat)"
proof (induction ks)
  case (Cons k ks)
  moreover have "k \<notin> set ks \<Longrightarrow> sum_list (map (\<lambda>p. if k = p then 1 else 0) ks) = (0::nat)"
    by (induction ks) auto
  ultimately show ?case by auto
qed simp

lemma sum_list_partition:
  "distinct ks \<Longrightarrow> f ` set xs \<subseteq> set ks \<Longrightarrow>
     sum_list (map (\<lambda>p. length (filter (\<lambda>x. f x = p) xs)) ks) = length xs"
proof (induction xs)
  case (Cons x xs)
  have "(\<lambda>p. length (filter (\<lambda>y. f y = p) (x # xs))) =
      (\<lambda>p. (if f x = p then 1 else 0) + length (filter (\<lambda>y. f y = p) xs))"
    by auto
  with Cons show ?case
    by (simp add: sum_list_addf sum_list_indicator)
qed simp

lemma ladder_count:
  assumes "map fst m = ab_prices bid L"
    and "\<And>p lvl. (p, lvl) \<in> set m \<Longrightarrow> length (pl_orders lvl) = length (ab_queue bid p L)"
  shows "sum_list (map (\<lambda>(p, lvl). length (pl_orders lvl)) m) = length (ab_side bid L)"
proof -
  have "map (\<lambda>(p, lvl). length (pl_orders lvl)) m =
      map (\<lambda>p. length (filter (\<lambda>ord. bo_price ord = p) (ab_side bid L))) (map fst m)"
    using assms(2) by (auto simp: ab_queue_def ab_side_def conj_commute)
  then show ?thesis
    by (simp only: assms(1) sum_list_partition distinct_ab_prices set_ab_prices subset_refl)
qed

lemma sides_count: "length (ab_side True L) + length (ab_side False L) = length L"
  by (induction L) (auto simp: ab_side_def)

section \<open>The self check\<close>

lemma orders_ok_eq:
  "\<forall>(a, ord) \<in> set q. ns a = Some \<lparr>ro_id = bo_id ord, ro_quantity = bo_qty ord\<rparr> \<and> bo_qty ord \<noteq> 0 \<Longrightarrow>
     orders_ok ns (map fst q) acc = Inr (Some (acc + sum_list (map (\<lambda>(a, ord). bo_qty ord) q)))"
  by (induction q arbitrary: acc) (auto simp: deref_def add.assoc)

lemma level_ok_eq:
  assumes "\<forall>(a, ord) \<in> set G. ns a = Some \<lparr>ro_id = bo_id ord, ro_quantity = bo_qty ord\<rparr> \<and> bo_qty ord \<noteq> 0"
    and "\<And>p lvl. (p, lvl) \<in> set m \<Longrightarrow> level_of G p = Some lvl"
  shows "level_ok ns m = Inr True"
  using assms(2)
proof (induction m)
  case (Cons e m)
  obtain p lvl where e: "e = (p, lvl)" by fastforce
  let ?q = "filter (\<lambda>(a, ord). bo_price ord = p) G"
  from Cons.prems [of p lvl] e have "level_of G p = Some lvl" by simp
  then have "?q \<noteq> []" and lvl: "lvl = \<lparr>pl_price = p,
      pl_total_quantity = sum_list (map (\<lambda>(a, ord). bo_qty ord) ?q), pl_orders = map fst ?q\<rparr>"
    by (auto simp: level_of_def Let_def split: if_splits)
  moreover have "orders_ok ns (map fst ?q) 0 =
      Inr (Some (0 + sum_list (map (\<lambda>(a, ord). bo_qty ord) ?q)))"
    using assms(1) by (intro orders_ok_eq) auto
  ultimately show ?case
    using Cons e by simp
qed simp

lemma rep_nodes:
  assumes "rep b G"
  shows "\<forall>(a, ord) \<in> set (side_of bid G).
    nodes b a = Some \<lparr>ro_id = bo_id ord, ro_quantity = bo_qty ord\<rparr> \<and> bo_qty ord \<noteq> 0"
proof clarify
  fix a ord assume "(a, ord) \<in> set (side_of bid G)"
  then have "(a, ord) \<in> set G" by (simp add: side_of_def)
  then obtain xs ys where G: "G = xs @ (a, ord) # ys" by (auto dest: split_list)
  with assms show "nodes b a = Some \<lparr>ro_id = bo_id ord, ro_quantity = bo_qty ord\<rparr> \<and> bo_qty ord \<noteq> 0"
    using stored_at [of b xs a ord ys] by (simp add: rep_def)
qed

lemma ab_crossed_best:
  assumes "rep b G"
  shows "ab_crossed (map snd G) \<longleftrightarrow>
    (case (ob_bids b, ob_asks b) of
       ((_, bid) # _, (_, ask) # _) \<Rightarrow> sint (pl_price bid) \<ge> sint (pl_price ask)
     | _ \<Rightarrow> False)"
proof -
  from assms have bids: "bid_side.side_rep (ob_bids b) (side_of True G)"
    and asks: "ask_side.side_rep (ob_asks b) (side_of False G)"
    by (simp_all add: rep_def stored_def)
  have crossed: "ab_crossed (map snd G) \<longleftrightarrow> (\<exists>p \<in> fst ` set (ob_bids b). \<exists>q \<in> fst ` set (ob_asks b). sint p \<ge> sint q)"
    using bid_side.side_rep_keys [OF bids] ask_side.side_rep_keys [OF asks]
    by (auto simp: side_of_prices ab_side_def ab_crossed_def)
  show ?thesis
  proof (cases "ob_bids b")
    case bs: (Cons e m)
    show ?thesis
    proof (cases "ob_asks b")
      case as: (Cons e' m')
      obtain p lvl q lvl' where e: "e = (p, lvl)" "e' = (q, lvl')" by fastforce
      have price: "pl_price lvl = p" "pl_price lvl' = q"
        using bid_side.side_rep_entry [OF bids, of p lvl] ask_side.side_rep_entry [OF asks, of q lvl']
          bs as e level_of_view(2) by simp_all
      have "sint p' \<le> sint p" if "p' \<in> fst ` set (ob_bids b)" for p'
        using bid_side.side_rep_best [OF bids, of p lvl m p'] that bs e
        by (auto simp: bid_before_def)
      moreover have "sint q \<le> sint q'" if "q' \<in> fst ` set (ob_asks b)" for q'
        using ask_side.side_rep_best [OF asks, of q lvl' m' q'] that as e
        by (auto simp: ask_before_def)
      moreover have "p \<in> fst ` set (ob_bids b)" "q \<in> fst ` set (ob_asks b)" using bs as e by simp_all
      ultimately have "ab_crossed (map snd G) \<longleftrightarrow> sint p \<ge> sint q"
        unfolding crossed by (meson order.trans)
      then show ?thesis by (simp add: bs as e price)
    qed (simp add: crossed bs split: prod.split)
  qed (simp add: crossed)
qed

lemma check_invariants_rep:
  assumes "rep b G"
  shows "check_invariants b = Inr (\<not> ab_crossed (map snd G))"
proof -
  from assms have bids: "bid_side.side_rep (ob_bids b) (side_of True G)"
    and asks: "ask_side.side_rep (ob_asks b) (side_of False G)"
    by (simp_all add: rep_def stored_def)
  have ok: "level_ok (nodes b) (ob_bids b) = Inr True" "level_ok (nodes b) (ob_asks b) = Inr True"
    by (rule level_ok_eq [OF rep_nodes [OF assms]],
        erule bid_side.side_rep_entry [OF bids] ask_side.side_rep_entry [OF asks])+
  have "sum_list (map (\<lambda>(p, lvl). length (pl_orders lvl)) (ob_bids b)) = length (ab_side True (map snd G))"
    using rep_sides(1) [OF assms] bid_side.side_rep_entry [OF bids] level_of_view(3)
    by (intro ladder_count) blast+
  moreover have "sum_list (map (\<lambda>(p, lvl). length (pl_orders lvl)) (ob_asks b)) = length (ab_side False (map snd G))"
    using rep_sides(2) [OF assms] ask_side.side_rep_entry [OF asks] level_of_view(3)
    by (intro ladder_count) blast+
  ultimately have "sum_list (map (\<lambda>(p, lvl). length (pl_orders lvl)) (ob_bids b)) +
      sum_list (map (\<lambda>(p, lvl). length (pl_orders lvl)) (ob_asks b)) = length (ob_orders b)"
    by (simp add: sides_count rep_order_count [OF assms])
  moreover note ab_crossed_best [OF assms, symmetric]
  ultimately show ?thesis
    by (simp add: check_invariants_def ok Let_def)
qed

section \<open>Depth and snapshot\<close>

lemma top_levels_loop_eq:
  "length out \<le> depth \<Longrightarrow>
     top_levels_loop m depth out = out @ take (depth - length out) (map (level_view \<circ> snd) m)"
proof (induction m arbitrary: out)
  case (Cons e m)
  obtain p lvl where "e = (p, lvl)" by fastforce
  moreover have "depth - length out = Suc (depth - Suc (length out))" if "length out < depth"
    using that by simp
  ultimately show ?case
    using Cons by (cases "length out < depth") (auto simp del: Suc_diff_Suc)
qed simp

lemma depth_rep:
  assumes "rep b G"
  shows "bids_depth b n = take n (ab_ladder True (map snd G))"
    and "asks_depth b n = take n (ab_ladder False (map snd G))"
  using rep_sides(3,4) [OF assms]
  by (simp_all add: bids_depth_def asks_depth_def top_levels_def top_levels_loop_eq)

lemma fill_levels_eq:
  "i + length vs \<le> length arr \<Longrightarrow>
     fill_levels vs i arr =
       Inr (take i arr @ map (\<lambda>v. \<lparr>sl_price = lv_price v, sl_quantity = lv_quantity v\<rparr>) vs @
            drop (i + length vs) arr)"
proof (induction vs arbitrary: i arr)
  case (Cons v vs)
  then have "i < length arr" by simp
  with Cons show ?case
    by (simp add: upd_conv_take_nth_drop drop_update_cancel take_Suc_conv_app_nth
        list_update_append min_def add.commute)
qed simp

definition snapshot_side :: "LevelView list \<Rightarrow> SnapshotLevel list" where
  "snapshot_side vs =
     map (\<lambda>v. \<lparr>sl_price = lv_price v, sl_quantity = lv_quantity v\<rparr>) (take kMaxSnapshotLevels vs) @
     replicate (kMaxSnapshotLevels - length vs) \<lparr>sl_price = 0, sl_quantity = 0\<rparr>"

lemma fill_levels_zero:
  "fill_levels (take kMaxSnapshotLevels vs) 0
     (replicate kMaxSnapshotLevels \<lparr>sl_price = 0, sl_quantity = 0\<rparr>) = Inr (snapshot_side vs)"
  by (subst fill_levels_eq) (auto simp: snapshot_side_def min_def)

lemma snapshot_rep:
  assumes "rep b G"
  shows "snapshot b = Inr \<lparr>bs_symbol = ob_symbol b,
    bs_num_bid_levels = of_nat (min kMaxSnapshotLevels (length (ab_prices True (map snd G)))),
    bs_num_ask_levels = of_nat (min kMaxSnapshotLevels (length (ab_prices False (map snd G)))),
    bs_bids = snapshot_side (ab_ladder True (map snd G)),
    bs_asks = snapshot_side (ab_ladder False (map snd G))\<rparr>"
  by (simp add: snapshot_def Let_def depth_rep [OF assms] fill_levels_zero ab_ladder_def
      flip: take_map) (simp add: min.commute)

section \<open>Properties\<close>

lemma sample_bids: "\<exists>lvl. ob_bids sample_book = [(100, lvl)]"
proof -
  from represents_sample obtain G where "rep sample_book G" "sample_orders = map snd G"
    by (auto simp: represents_def)
  with rep_sides(1) [of sample_book G] have "map fst (ob_bids sample_book) = [100]"
    by (simp add: sample_orders_def ab_prices_def ab_side_def is_bid_def)
  then show ?thesis by (auto simp: map_eq_Cons_conv)
qed

text \<open>C12. On a book that represents live orders, as every reachable one does, the best quotes and
  the depth of a side are read off the abstract ladder: the distinct prices of the live orders, best first, with the total and the number of the orders there.\<close>

theorem depth_refines:
  assumes "represents b L"
  shows "bids_depth b n = take n (ab_ladder True L) \<and> asks_depth b n = take n (ab_ladder False L) \<and>
    best_bid b = (case ab_ladder True L of [] \<Rightarrow> None | v # _ \<Rightarrow> Some v) \<and>
    best_ask b = (case ab_ladder False L of [] \<Rightarrow> None | v # _ \<Rightarrow> Some v) \<and>
    bid_levels b = length (ab_ladder True L) \<and> ask_levels b = length (ab_ladder False L) \<and>
    order_count b = length L"
proof -
  from assms obtain G where G: "rep b G" "L = map snd G" by (auto simp: represents_def)
  note sides = rep_sides(3,4) [OF G(1), symmetric]
  show ?thesis
    by (auto simp: G(2) depth_rep [OF G(1)] sides best_bid_def best_ask_def bid_levels_def
      ask_levels_def order_count_def rep_order_count [OF G(1)] simp del: map_map
      split: list.split prod.split)
qed

theorem depth_refines_witness:
  "best_bid sample_book = Some \<lparr>lv_price = 100, lv_quantity = 14, lv_order_count = 2\<rparr> \<and>
   asks_depth sample_book 5 = [\<lparr>lv_price = 105, lv_quantity = 7, lv_order_count = 1\<rparr>]"
  using depth_refines [OF represents_sample, of 5]
  by (simp add: sample_orders_def ab_ladder_def ab_prices_def ab_side_def ab_level_def ab_queue_def
      is_bid_def)

text \<open>C11. Price-time priority: the list of a price level, front to back, holds exactly the live
  orders of that side and price in the order in which they joined, with their remaining
  quantities.\<close>

theorem level_is_fifo:
  assumes "represents b L"
  shows "(\<forall>(p, lvl) \<in> set (ob_bids b). map (nodes b) (pl_orders lvl) =
      map (\<lambda>ord. Some \<lparr>ro_id = bo_id ord, ro_quantity = bo_qty ord\<rparr>)
        (filter (\<lambda>ord. bo_side ord = Buy \<and> bo_price ord = p) L)) \<and>
    (\<forall>(p, lvl) \<in> set (ob_asks b). map (nodes b) (pl_orders lvl) =
      map (\<lambda>ord. Some \<lparr>ro_id = bo_id ord, ro_quantity = bo_qty ord\<rparr>)
        (filter (\<lambda>ord. bo_side ord \<noteq> Buy \<and> bo_price ord = p) L))"
proof -
  from assms obtain G where G: "rep b G" "L = map snd G" by (auto simp: represents_def)
  then have bids: "bid_side.side_rep (ob_bids b) (side_of True G)"
    and asks: "ask_side.side_rep (ob_asks b) (side_of False G)"
    by (simp_all add: rep_def stored_def)
  have queue: "map (nodes b) (pl_orders lvl) =
      map (\<lambda>ord. Some \<lparr>ro_id = bo_id ord, ro_quantity = bo_qty ord\<rparr>) (ab_queue bid p L)"
    if "level_of (side_of bid G) p = Some lvl" for bid p lvl
  proof -
    let ?q = "filter (\<lambda>(a, ord). bo_price ord = p) (side_of bid G)"
    from that have "pl_orders lvl = map fst ?q"
      by (auto simp: level_of_def Let_def split: if_splits)
    moreover have "map (nodes b) (map fst ?q) =
        map (\<lambda>ord. Some \<lparr>ro_id = bo_id ord, ro_quantity = bo_qty ord\<rparr>) (map snd ?q)"
      using rep_nodes [OF G(1), of bid] by auto
    ultimately show ?thesis by (simp only: queue_at G(2))
  qed
  show ?thesis
    using queue bid_side.side_rep_entry [OF bids] ask_side.side_rep_entry [OF asks]
    by (fastforce simp: ab_queue_def is_bid_def)
qed

theorem level_is_fifo_witness:
  "\<exists>lvl. ob_bids sample_book = [(100, lvl)] \<and> map (nodes sample_book) (pl_orders lvl) =
     [Some \<lparr>ro_id = 1, ro_quantity = 5\<rparr>, Some \<lparr>ro_id = 3, ro_quantity = 9\<rparr>]"
proof -
  obtain lvl where "ob_bids sample_book = [(100, lvl)]" using sample_bids by blast
  with level_is_fifo [OF represents_sample] show ?thesis by (simp add: sample_orders_def)
qed

text \<open>C13. The self check never faults on a reachable book and reports exactly one thing there: that
  no bid is at or above an offer. The structural checks can not fail.\<close>

theorem check_invariants_iff_uncrossed:
  assumes "represents b L"
  shows "check_invariants b = Inr (\<not> (\<exists>x \<in> set L. \<exists>y \<in> set L. bo_side x = Buy \<and> bo_side y \<noteq> Buy \<and>
    sint (bo_price y) \<le> sint (bo_price x)))"
  using assms check_invariants_rep by (auto simp: represents_def ab_crossed_def is_bid_def)

theorem check_invariants_iff_uncrossed_witness: "check_invariants sample_book = Inr True"
  using check_invariants_iff_uncrossed [OF represents_sample] by (simp add: sample_orders_def)

text \<open>A snapshot never writes outside its arrays: it holds the best five levels of each side,
  zero-filled, and their number.\<close>

theorem snapshot_refines:
  assumes "represents b L"
  shows "\<exists>s. snapshot b = Inr s \<and> snapshot_ok s \<and> bs_symbol s = ob_symbol b \<and>
    unat (bs_num_bid_levels s) = min kMaxSnapshotLevels (length (ab_ladder True L)) \<and>
    unat (bs_num_ask_levels s) = min kMaxSnapshotLevels (length (ab_ladder False L)) \<and>
    bs_bids s = snapshot_side (ab_ladder True L) \<and> bs_asks s = snapshot_side (ab_ladder False L)"
proof -
  from assms obtain G where G: "rep b G" "L = map snd G" by (auto simp: represents_def)
  have small: "unat (of_nat (min kMaxSnapshotLevels n) :: u8) = min kMaxSnapshotLevels n" for n
    using min.cobounded1 [of kMaxSnapshotLevels n]
    by (simp add: unat_of_nat kMaxSnapshotLevels_def del: of_nat_min)
  show ?thesis
    by (simp add: snapshot_rep [OF G(1)] G(2) snapshot_ok_def small ab_ladder_def)
      (simp add: snapshot_side_def min_def)
qed

theorem snapshot_refines_witness:
  "\<exists>s. snapshot sample_book = Inr s \<and> snapshot_ok s \<and> unat (bs_num_bid_levels s) = 1 \<and>
    hd (bs_bids s) = \<lparr>sl_price = 100, sl_quantity = 14\<rparr>"
  using snapshot_refines [OF represents_sample]
  by (auto simp: sample_orders_def ab_ladder_def ab_prices_def ab_side_def ab_level_def ab_queue_def
      is_bid_def kMaxSnapshotLevels_def snapshot_side_def)

text \<open>The spread is the difference of the best prices of the two sides; the subtraction is
  undefined exactly when the difference does not fit in 64 bits.\<close>

theorem spread_refines:
  assumes "represents b L"
  shows "spread b = (case (ab_prices True L, ab_prices False L) of
      (bid # _, ask # _) \<Rightarrow>
        if - (2 ^ 63) \<le> sint ask - sint bid \<and> sint ask - sint bid < 2 ^ 63
        then Inr (Some (ask - bid)) else Inl SignedOverflow
    | _ \<Rightarrow> Inr None)"
proof -
  from assms obtain G where G: "rep b G" "L = map snd G" by (auto simp: represents_def)
  note prices = rep_sides(1,2) [OF G(1), symmetric]
  from G(1) have bids: "bid_side.side_rep (ob_bids b) (side_of True G)"
    and asks: "ask_side.side_rep (ob_asks b) (side_of False G)"
    by (simp_all add: rep_def stored_def)
  have bid: "pl_price lvl = p" if "(p, lvl) \<in> set (ob_bids b)" for p lvl
    using level_of_view(2) bid_side.side_rep_entry [OF bids that] by blast
  have ask: "pl_price lvl = p" if "(p, lvl) \<in> set (ob_asks b)" for p lvl
    using level_of_view(2) ask_side.side_rep_entry [OF asks that] by blast
  show ?thesis
  proof (cases "ob_bids b")
    case bs: (Cons e m)
    obtain p lvl where e: "e = (p, lvl)" by fastforce
    show ?thesis
    proof (cases "ob_asks b")
      case as: (Cons e' m')
      obtain q lvl' where e': "e' = (q, lvl')" by fastforce
      have "pl_price lvl = p" "pl_price lvl' = q" using bid [of p lvl] ask [of q lvl'] bs as e e' by simp_all
      then show ?thesis by (simp add: spread_def G(2) prices bs as e e' Let_def)
    qed (simp add: spread_def G(2) prices bs e)
  qed (simp add: spread_def G(2) prices)
qed

theorem spread_refines_witness: "spread sample_book = Inr (Some 5)"
  using spread_refines [OF represents_sample]
  by (simp add: sample_orders_def ab_prices_def ab_side_def is_bid_def)

text \<open>A level's 32-bit total is the true total of its queue as long as that fits in 32 bits,
  and wraps modulo \<open>2 ^ 32\<close> otherwise.\<close>

theorem level_total_bound:
  assumes "represents b L"
  shows "\<forall>(p, lvl) \<in> set (ob_bids b). unat (pl_total_quantity lvl) =
    sum_list (map (\<lambda>ord. unat (bo_qty ord))
      (filter (\<lambda>ord. bo_side ord = Buy \<and> bo_price ord = p) L)) mod 2 ^ 32"
proof -
  from assms obtain G where G: "rep b G" "L = map snd G" by (auto simp: represents_def)
  then have bids: "bid_side.side_rep (ob_bids b) (side_of True G)"
    by (simp add: rep_def stored_def)
  have wrap: "unat (sum_list qs :: u32) = sum_list (map unat qs) mod 2 ^ 32" for qs
  proof (induction qs)
    case (Cons q qs)
    then show ?case by (simp add: unat_word_ariths mod_add_right_eq)
  qed simp
  show ?thesis
  proof clarify
    fix p lvl assume "(p, lvl) \<in> set (ob_bids b)"
    then have "level_view lvl = ab_level True L p"
      using level_of_view(1) bid_side.side_rep_entry [OF bids] G(2) by blast
    then have "pl_total_quantity lvl = sum_list (map bo_qty (ab_queue True p L))"
      by (simp add: level_view_def ab_level_def)
    then show "unat (pl_total_quantity lvl) =
        sum_list (map (\<lambda>ord. unat (bo_qty ord))
          (filter (\<lambda>ord. bo_side ord = Buy \<and> bo_price ord = p) L)) mod 2 ^ 32"
      by (simp add: wrap ab_queue_def is_bid_def comp_def)
  qed
qed

theorem level_total_bound_witness:
  "\<exists>lvl. ob_bids sample_book = [(100, lvl)] \<and> unat (pl_total_quantity lvl) = 14"
proof -
  obtain lvl where "ob_bids sample_book = [(100, lvl)]" using sample_bids by blast
  with level_total_bound [OF represents_sample] show ?thesis by (simp add: sample_orders_def)
qed

end
