(* ===== verification/Serialization.thy ===== *)
theory Serialization
  imports Protocol
begin

text \<open>
  Model of \<^verbatim>\<open>include/mdfh/serialization.hpp\<close>: header and body encoders and decoders and
  \<^verbatim>\<open>encode_message\<close>. Encoders are sequences of checked stores through an advancing pointer,
  decoders are checked loads at fixed offsets, as in the code. A decoder returns
  \<open>Inr None\<close> where the code returns \<^verbatim>\<open>false\<close>; \<open>Inl\<close> would be an access outside the
  buffer. The lemmas give the exact bytes each encoder writes (\<open>frame_bytes\<close>), the closed
  form of each decoder, and from them the round trips in both directions.
\<close>

section \<open>Header\<close>

definition encode_header ::
  "byte list \<Rightarrow> nat \<Rightarrow> MsgType \<Rightarrow> Sequence \<Rightarrow> TimestampNs \<Rightarrow> (byte list \<times> nat) exec" where
  "encode_header dst p type seq ts =
     ebind (store_le dst p (msg_type_code type)) (\<lambda>(dst, p).
     ebind (store_le dst p kProtocolVersion) (\<lambda>(dst, p).
     ebind (store_le dst p (of_nat (body_size_for type) :: u16)) (\<lambda>(dst, p).
     ebind (store_le dst p seq) (\<lambda>(dst, p).
     ebind (store_le dst p ts) (\<lambda>(dst, p).
     Inr (dst, p))))))"

definition decode_header :: "byte list \<Rightarrow> MessageHeader option exec" where
  "decode_header buf =
     (if length buf < kHeaderWireSize then Inr None
      else
        ebind (load_le buf (0 + 0)) (\<lambda>raw_type.
        if \<not> is_valid_msg_type raw_type then Inr None
        else
          ebind (load_le buf 1) (\<lambda>version.
          ebind (load_le buf 2) (\<lambda>body_size.
          ebind (load_le buf 4) (\<lambda>sequence.
          ebind (load_le buf 8) (\<lambda>timestamp.
          Inr (Some \<lparr>hdr_type = msg_type_cast raw_type, hdr_version = version,
                     hdr_body_size = body_size, hdr_sequence = sequence,
                     hdr_timestamp = timestamp\<rparr>)))))))"

section \<open>Body encoders\<close>

definition encode_add :: "byte list \<Rightarrow> nat \<Rightarrow> AddOrder \<Rightarrow> (byte list \<times> nat) exec" where
  "encode_add dst p m =
     ebind (store_le dst p (ao_symbol m)) (\<lambda>(dst, p).
     ebind (store_le dst p (ao_order_id m)) (\<lambda>(dst, p).
     ebind (store_le dst p (side_raw (ao_side m))) (\<lambda>(dst, p).
     ebind (store_le dst p (ao_price m)) (\<lambda>(dst, p).
     store_le dst p (ao_quantity m)))))"

definition encode_cancel :: "byte list \<Rightarrow> nat \<Rightarrow> CancelOrder \<Rightarrow> (byte list \<times> nat) exec" where
  "encode_cancel dst p m =
     ebind (store_le dst p (co_symbol m)) (\<lambda>(dst, p).
     store_le dst p (co_order_id m))"

definition encode_modify :: "byte list \<Rightarrow> nat \<Rightarrow> ModifyOrder \<Rightarrow> (byte list \<times> nat) exec" where
  "encode_modify dst p m =
     ebind (store_le dst p (mo_symbol m)) (\<lambda>(dst, p).
     ebind (store_le dst p (mo_order_id m)) (\<lambda>(dst, p).
     ebind (store_le dst p (mo_new_price m)) (\<lambda>(dst, p).
     store_le dst p (mo_new_quantity m))))"

definition encode_trade :: "byte list \<Rightarrow> nat \<Rightarrow> Trade \<Rightarrow> (byte list \<times> nat) exec" where
  "encode_trade dst p m =
     ebind (store_le dst p (tr_symbol m)) (\<lambda>(dst, p).
     ebind (store_le dst p (tr_resting_order_id m)) (\<lambda>(dst, p).
     ebind (store_le dst p (tr_price m)) (\<lambda>(dst, p).
     ebind (store_le dst p (tr_quantity m)) (\<lambda>(dst, p).
     store_le dst p (side_raw (tr_aggressor_side m))))))"

text \<open>The two range-for loops over the snapshot's levels.\<close>

fun encode_levels ::
  "byte list \<Rightarrow> nat \<Rightarrow> SnapshotLevel list \<Rightarrow> (byte list \<times> nat) exec" where
  "encode_levels dst p [] = Inr (dst, p)"
| "encode_levels dst p (lvl # lvls) =
     ebind (store_le dst p (sl_price lvl)) (\<lambda>(dst, p).
     ebind (store_le dst p (sl_quantity lvl)) (\<lambda>(dst, p).
     encode_levels dst p lvls))"

definition encode_snapshot :: "byte list \<Rightarrow> nat \<Rightarrow> BookSnapshot \<Rightarrow> (byte list \<times> nat) exec" where
  "encode_snapshot dst p m =
     ebind (store_le dst p (bs_symbol m)) (\<lambda>(dst, p).
     ebind (store_le dst p (bs_num_bid_levels m)) (\<lambda>(dst, p).
     ebind (store_le dst p (bs_num_ask_levels m)) (\<lambda>(dst, p).
     ebind (store_le dst p (0 :: u16)) (\<lambda>(dst, p).
     ebind (encode_levels dst p (bs_bids m)) (\<lambda>(dst, p).
     encode_levels dst p (bs_asks m))))))"

text \<open>The \<^verbatim>\<open>encode_body\<close> overloads.\<close>

fun encode_body :: "byte list \<Rightarrow> nat \<Rightarrow> Body \<Rightarrow> (byte list \<times> nat) exec" where
  "encode_body dst p (BodyAdd m) = encode_add dst p m"
| "encode_body dst p (BodyCancel m) = encode_cancel dst p m"
| "encode_body dst p (BodyModify m) = encode_modify dst p m"
| "encode_body dst p (BodyTrade m) = encode_trade dst p m"
| "encode_body dst p (BodySnapshot m) = encode_snapshot dst p m"
| "encode_body dst p BodyHeartbeat = Inr (dst, p)"

text \<open>\<^verbatim>\<open>encode_message\<close>: the new contents of \<open>out\<close> and the number of bytes written.\<close>

definition encode_message ::
  "byte list \<Rightarrow> Sequence \<Rightarrow> TimestampNs \<Rightarrow> Body \<Rightarrow> (byte list \<times> nat) exec" where
  "encode_message out seq ts body =
     (let type = msg_type_of body; total = kHeaderWireSize + body_size_for type
      in if length out < total then Inr (out, 0)
         else ebind (encode_header out 0 type seq ts) (\<lambda>(out, p).
              ebind (encode_body out p body) (\<lambda>(out, _).
              Inr (out, total))))"

section \<open>Body decoders\<close>

definition decode_add :: "byte list \<Rightarrow> AddOrder option exec" where
  "decode_add b =
     (if length b < kAddOrderBodySize then Inr None
      else ebind (load_le b 0) (\<lambda>symbol.
           ebind (load_le b 4) (\<lambda>order_id.
           ebind (load_le b 12) (\<lambda>side.
           ebind (load_le b 13) (\<lambda>price.
           ebind (load_le b 21) (\<lambda>quantity.
           Inr (Some \<lparr>ao_symbol = symbol, ao_order_id = order_id, ao_side = Side side,
                      ao_price = price, ao_quantity = quantity\<rparr>)))))))"

definition decode_cancel :: "byte list \<Rightarrow> CancelOrder option exec" where
  "decode_cancel b =
     (if length b < kCancelOrderBodySize then Inr None
      else ebind (load_le b 0) (\<lambda>symbol.
           ebind (load_le b 4) (\<lambda>order_id.
           Inr (Some \<lparr>co_symbol = symbol, co_order_id = order_id\<rparr>))))"

definition decode_modify :: "byte list \<Rightarrow> ModifyOrder option exec" where
  "decode_modify b =
     (if length b < kModifyOrderBodySize then Inr None
      else ebind (load_le b 0) (\<lambda>symbol.
           ebind (load_le b 4) (\<lambda>order_id.
           ebind (load_le b 12) (\<lambda>new_price.
           ebind (load_le b 20) (\<lambda>new_quantity.
           Inr (Some \<lparr>mo_symbol = symbol, mo_order_id = order_id,
                      mo_new_price = new_price, mo_new_quantity = new_quantity\<rparr>))))))"

definition decode_trade :: "byte list \<Rightarrow> Trade option exec" where
  "decode_trade b =
     (if length b < kTradeBodySize then Inr None
      else ebind (load_le b 0) (\<lambda>symbol.
           ebind (load_le b 4) (\<lambda>resting_order_id.
           ebind (load_le b 12) (\<lambda>price.
           ebind (load_le b 20) (\<lambda>quantity.
           ebind (load_le b 24) (\<lambda>aggressor_side.
           Inr (Some \<lparr>tr_symbol = symbol, tr_resting_order_id = resting_order_id,
                      tr_price = price, tr_quantity = quantity,
                      tr_aggressor_side = Side aggressor_side\<rparr>)))))))"

text \<open>The loop \<^verbatim>\<open>for (auto& lvl : m.bids)\<close>: \<open>n\<close> levels from offset \<open>off\<close>, and the next offset.\<close>

fun decode_levels :: "nat \<Rightarrow> byte list \<Rightarrow> nat \<Rightarrow> (SnapshotLevel list \<times> nat) exec" where
  "decode_levels 0 b off = Inr ([], off)"
| "decode_levels (Suc n) b off =
     ebind (load_le b off) (\<lambda>price.
     ebind (load_le b (off + 8)) (\<lambda>quantity.
     ebind (decode_levels n b (off + 12)) (\<lambda>(lvls, off).
     Inr (\<lparr>sl_price = price, sl_quantity = quantity\<rparr> # lvls, off))))"

definition decode_snapshot :: "byte list \<Rightarrow> BookSnapshot option exec" where
  "decode_snapshot b =
     (if length b < kSnapshotBodySize then Inr None
      else ebind (load_le b 0) (\<lambda>symbol.
           ebind (load_le b 4) (\<lambda>num_bid_levels.
           ebind (load_le b 5) (\<lambda>num_ask_levels.
           ebind (decode_levels kMaxSnapshotLevels b 8) (\<lambda>(bids, off).
           ebind (decode_levels kMaxSnapshotLevels b off) (\<lambda>(asks, off).
           Inr (Some \<lparr>bs_symbol = symbol, bs_num_bid_levels = num_bid_levels,
                      bs_num_ask_levels = num_ask_levels,
                      bs_bids = bids, bs_asks = asks\<rparr>)))))))"

text \<open>The \<^verbatim>\<open>decode_body\<close> overloads, by the message type that selects one.\<close>

fun decode_body :: "MsgType \<Rightarrow> byte list \<Rightarrow> Body option exec" where
  "decode_body AddOrder b = ebind (decode_add b) (\<lambda>m. Inr (map_option BodyAdd m))"
| "decode_body CancelOrder b = ebind (decode_cancel b) (\<lambda>m. Inr (map_option BodyCancel m))"
| "decode_body ModifyOrder b = ebind (decode_modify b) (\<lambda>m. Inr (map_option BodyModify m))"
| "decode_body Trade b = ebind (decode_trade b) (\<lambda>m. Inr (map_option BodyTrade m))"
| "decode_body BookSnapshot b =
     ebind (decode_snapshot b) (\<lambda>m. Inr (map_option BodySnapshot m))"
| "decode_body Heartbeat b = Inr (Some BodyHeartbeat)"

section \<open>The bytes on the wire\<close>

text \<open>What the encoders are to produce, as plain byte strings.\<close>

definition header_bytes :: "MsgType \<Rightarrow> Sequence \<Rightarrow> TimestampNs \<Rightarrow> byte list" where
  "header_bytes type seq ts =
     le_bytes (msg_type_code type) @ le_bytes kProtocolVersion @
     le_bytes (of_nat (body_size_for type) :: u16) @ le_bytes seq @ le_bytes ts"

definition level_bytes :: "SnapshotLevel \<Rightarrow> byte list" where
  "level_bytes lvl = le_bytes (sl_price lvl) @ le_bytes (sl_quantity lvl)"

fun body_bytes :: "Body \<Rightarrow> byte list" where
  "body_bytes (BodyAdd m) =
     le_bytes (ao_symbol m) @ le_bytes (ao_order_id m) @ le_bytes (side_raw (ao_side m)) @
     le_bytes (ao_price m) @ le_bytes (ao_quantity m)"
| "body_bytes (BodyCancel m) = le_bytes (co_symbol m) @ le_bytes (co_order_id m)"
| "body_bytes (BodyModify m) =
     le_bytes (mo_symbol m) @ le_bytes (mo_order_id m) @ le_bytes (mo_new_price m) @
     le_bytes (mo_new_quantity m)"
| "body_bytes (BodyTrade m) =
     le_bytes (tr_symbol m) @ le_bytes (tr_resting_order_id m) @ le_bytes (tr_price m) @
     le_bytes (tr_quantity m) @ le_bytes (side_raw (tr_aggressor_side m))"
| "body_bytes (BodySnapshot m) =
     le_bytes (bs_symbol m) @ le_bytes (bs_num_bid_levels m) @
     le_bytes (bs_num_ask_levels m) @ le_bytes (0 :: u16) @
     concat (map level_bytes (bs_bids m)) @ concat (map level_bytes (bs_asks m))"
| "body_bytes BodyHeartbeat = []"

definition frame_bytes :: "Sequence \<Rightarrow> TimestampNs \<Rightarrow> Body \<Rightarrow> byte list" where
  "frame_bytes seq ts body = header_bytes (msg_type_of body) seq ts @ body_bytes body"

text \<open>The header a frame carries.\<close>

definition header_of :: "Sequence \<Rightarrow> TimestampNs \<Rightarrow> Body \<Rightarrow> MessageHeader" where
  "header_of seq ts body =
     \<lparr>hdr_type = msg_type_of body, hdr_version = kProtocolVersion,
      hdr_body_size = of_nat (body_size_for (msg_type_of body)),
      hdr_sequence = seq, hdr_timestamp = ts\<rparr>"

lemma length_header_bytes [simp]: "length (header_bytes t seq ts) = kHeaderWireSize"
  by (simp add: header_bytes_def kHeaderWireSize_def)

lemma length_level_bytes [simp]: "length (level_bytes l) = 12"
  by (simp add: level_bytes_def)

lemma length_levels_bytes [simp]: "length (concat (map level_bytes ls)) = 12 * length ls"
  by (induction ls) simp_all

lemma length_body_bytes:
  "body_ok body \<Longrightarrow> length (body_bytes body) = body_size_for (msg_type_of body)"
  by (cases body) (simp_all add: snapshot_ok_def wire_size_defs)

lemma length_frame_bytes:
  "body_ok body \<Longrightarrow>
     length (frame_bytes seq ts body) = kHeaderWireSize + body_size_for (msg_type_of body)"
  by (simp add: frame_bytes_def length_body_bytes)

section \<open>What the encoders write\<close>

lemma writes_encode_header:
  "writes (\<lambda>dst p. encode_header dst p t seq ts) (header_bytes t seq ts)"
proof -
  have "writes (\<lambda>dst p. encode_header dst p t seq ts)
    (le_bytes (msg_type_code t) @ le_bytes kProtocolVersion @
     le_bytes (of_nat (body_size_for t) :: u16) @ le_bytes seq @ le_bytes ts @ [])"
    unfolding encode_header_def by (intro writes_intros)
  then show ?thesis by (simp add: header_bytes_def)
qed

lemma writes_encode_levels:
  "writes (\<lambda>dst p. encode_levels dst p ls) (concat (map level_bytes ls))"
proof (induction ls)
  case Nil
  show ?case by (simp add: writes_nothing)
next
  case (Cons l ls)
  have "writes (\<lambda>dst p. encode_levels dst p (l # ls))
    (le_bytes (sl_price l) @ le_bytes (sl_quantity l) @ concat (map level_bytes ls))"
    unfolding encode_levels.simps by (intro writes_intros Cons.IH)
  then show ?case by (simp add: level_bytes_def [of l])
qed

lemma writes_encode_body: "writes (\<lambda>dst p. encode_body dst p body) (body_bytes body)"
  by (cases body;
      simp only: encode_body.simps body_bytes.simps encode_add_def encode_cancel_def
        encode_modify_def encode_trade_def encode_snapshot_def;
      intro writes_intros writes_encode_levels)

theorem encode_message_bytes:
  assumes "body_ok body" and "kHeaderWireSize + body_size_for (msg_type_of body) \<le> length out"
  shows "encode_message out seq ts body =
    Inr (frame_bytes seq ts body @ drop (length (frame_bytes seq ts body)) out,
         length (frame_bytes seq ts body))"
proof -
  let ?t = "msg_type_of body"
  let ?f = "\<lambda>dst p. ebind (encode_header dst p ?t seq ts) (\<lambda>(dst, p). encode_body dst p body)"
  have "writes ?f (frame_bytes seq ts body)"
    unfolding frame_bytes_def by (rule writes_bind writes_encode_header writes_encode_body)+
  from writesD [OF this, of 0 out] assms
  have "?f out 0 = Inr (frame_bytes seq ts body @ drop (length (frame_bytes seq ts body)) out,
      length (frame_bytes seq ts body))"
    by (simp add: length_frame_bytes)
  with assms show ?thesis
    by (auto simp: encode_message_def Let_def length_frame_bytes ebind_eq_Inr_iff)
qed

lemma encode_message_too_small:
  "length out < kHeaderWireSize + body_size_for (msg_type_of body) \<Longrightarrow>
     encode_message out seq ts body = Inr (out, 0)"
  by (simp add: encode_message_def Let_def)

section \<open>Closed forms of the decoders\<close>

text \<open>The \<open>n\<close>-byte field at an offset.\<close>

abbreviation field :: "nat \<Rightarrow> nat \<Rightarrow> byte list \<Rightarrow> byte list" where
  "field off n b \<equiv> take n (drop off b)"

lemma decode_header_eq [wire_simps]:
  "decode_header buf =
     Inr (if length buf < kHeaderWireSize \<or> \<not> is_valid_msg_type (le_value (field 0 1 buf))
          then None
          else Some \<lparr>hdr_type = msg_type_cast (le_value (field 0 1 buf)),
                     hdr_version = le_value (field 1 1 buf),
                     hdr_body_size = le_value (field 2 2 buf),
                     hdr_sequence = le_value (field 4 4 buf),
                     hdr_timestamp = le_value (field 8 8 buf)\<rparr>)"
  by (simp add: decode_header_def kHeaderWireSize_def load_le_Inr)

lemma decode_add_eq [wire_simps]:
  "decode_add b =
     Inr (if length b < kAddOrderBodySize then None
          else Some \<lparr>ao_symbol = le_value (field 0 4 b), ao_order_id = le_value (field 4 8 b),
                     ao_side = Side (le_value (field 12 1 b)),
                     ao_price = le_value (field 13 8 b), ao_quantity = le_value (field 21 4 b)\<rparr>)"
  by (simp add: decode_add_def wire_size_defs load_le_Inr)

lemma decode_cancel_eq [wire_simps]:
  "decode_cancel b =
     Inr (if length b < kCancelOrderBodySize then None
          else Some \<lparr>co_symbol = le_value (field 0 4 b), co_order_id = le_value (field 4 8 b)\<rparr>)"
  by (simp add: decode_cancel_def wire_size_defs load_le_Inr)

lemma decode_modify_eq [wire_simps]:
  "decode_modify b =
     Inr (if length b < kModifyOrderBodySize then None
          else Some \<lparr>mo_symbol = le_value (field 0 4 b), mo_order_id = le_value (field 4 8 b),
                     mo_new_price = le_value (field 12 8 b),
                     mo_new_quantity = le_value (field 20 4 b)\<rparr>)"
  by (simp add: decode_modify_def wire_size_defs load_le_Inr)

lemma decode_trade_eq [wire_simps]:
  "decode_trade b =
     Inr (if length b < kTradeBodySize then None
          else Some \<lparr>tr_symbol = le_value (field 0 4 b),
                     tr_resting_order_id = le_value (field 4 8 b),
                     tr_price = le_value (field 12 8 b), tr_quantity = le_value (field 20 4 b),
                     tr_aggressor_side = Side (le_value (field 24 1 b))\<rparr>)"
  by (simp add: decode_trade_def wire_size_defs load_le_Inr)

fun levels_at :: "nat \<Rightarrow> byte list \<Rightarrow> nat \<Rightarrow> SnapshotLevel list" where
  "levels_at 0 b off = []"
| "levels_at (Suc n) b off =
     \<lparr>sl_price = le_value (field off 8 b), sl_quantity = le_value (field (off + 8) 4 b)\<rparr>
     # levels_at n b (off + 12)"

lemma length_levels_at [simp]: "length (levels_at n b off) = n"
  by (induction n arbitrary: off) simp_all

lemma decode_levels_eq [wire_simps]:
  "off + 12 * n \<le> length b \<Longrightarrow>
     decode_levels n b off = Inr (levels_at n b off, off + 12 * n)"
  by (induction n arbitrary: off) (simp_all add: load_le_Inr)

lemma decode_snapshot_eq [wire_simps]:
  "decode_snapshot b =
     Inr (if length b < kSnapshotBodySize then None
          else Some \<lparr>bs_symbol = le_value (field 0 4 b), bs_num_bid_levels = le_value (field 4 1 b),
                     bs_num_ask_levels = le_value (field 5 1 b),
                     bs_bids = levels_at kMaxSnapshotLevels b 8,
                     bs_asks = levels_at kMaxSnapshotLevels b 68\<rparr>)"
  by (simp add: decode_snapshot_def wire_size_defs load_le_Inr decode_levels_eq)

text \<open>No decoder leaves the buffer it is given, whatever the buffer holds.\<close>

lemma decode_body_total: "\<exists>r. decode_body t b = Inr r"
  by (cases t) (simp_all add: wire_simps)

lemma decode_body_exact:
  "length b = body_size_for t \<Longrightarrow> \<exists>m. decode_body t b = Inr (Some m) \<and> msg_type_of m = t \<and> body_ok m"
  by (cases t) (auto simp: wire_simps snapshot_ok_def)

section \<open>Round trips\<close>

lemma take_le_bytes [simp]:
  "sizeof TYPE('a) = n \<Longrightarrow> take n (le_bytes (v :: 'a::len word) @ xs) = le_bytes v"
  by simp

lemma decode_header_frame [wire_simps]:
  "decode_header (frame_bytes seq ts body @ rest) = Inr (Some (header_of seq ts body))"
  by (simp add: wire_simps frame_bytes_def header_bytes_def header_of_def kHeaderWireSize_def)

lemma levels_at_bytes:
  "off = length pre \<Longrightarrow> n = length ls \<Longrightarrow>
     levels_at n (pre @ concat (map level_bytes ls) @ post) off = ls"
proof (induction ls arbitrary: n pre off)
  case (Cons l ls)
  have "levels_at (length ls) ((pre @ level_bytes l) @ concat (map level_bytes ls) @ post)
    (length pre + 12) = ls"
    by (rule Cons.IH) simp_all
  with Cons.prems show ?case by (simp add: level_bytes_def [of l])
qed simp

lemma decode_body_bytes [wire_simps]:
  assumes "body_ok body"
  shows "decode_body (msg_type_of body) (body_bytes body) = Inr (Some body)"
proof (cases body)
  case (BodySnapshot m)
  let ?pre = "le_bytes (bs_symbol m) @ le_bytes (bs_num_bid_levels m) @
    le_bytes (bs_num_ask_levels m) @ le_bytes (0 :: u16)"
  let ?bids = "concat (map level_bytes (bs_bids m))"
  have len: "length (bs_bids m) = 5" "length (bs_asks m) = 5"
    using assms BodySnapshot by (simp_all add: snapshot_ok_def kMaxSnapshotLevels_def)
  have "levels_at 5 (?pre @ ?bids @ concat (map level_bytes (bs_asks m))) 8 = bs_bids m"
    by (rule levels_at_bytes) (simp_all add: len)
  moreover have
    "levels_at 5 ((?pre @ ?bids) @ concat (map level_bytes (bs_asks m)) @ []) 68 = bs_asks m"
    by (rule levels_at_bytes) (simp_all add: len)
  ultimately show ?thesis
    using BodySnapshot len by (simp add: wire_simps wire_size_defs)
qed (simp_all add: wire_simps wire_size_defs)

text \<open>Decoding loses nothing: the fields determine the bytes they were read from.\<close>

lemma field_drop [simp]: "off + n = m \<Longrightarrow> field off n b @ drop m b = drop off b"
  by (metis add.commute append_take_drop_id drop_drop)

lemma decode_body_inverse:
  assumes "decode_body t b = Inr (Some m)" and "length b = body_size_for t" and "t \<noteq> BookSnapshot"
  shows "body_bytes m = b"
  using assms
  by (cases t) (auto simp: wire_simps wire_size_defs le_bytes_le_value)

text \<open>The same for a header of the protocol's version and with the size of its type.\<close>

lemma decode_header_inverse:
  assumes "decode_header buf = Inr (Some h)"
    and "hdr_version h = kProtocolVersion"
    and "unat (hdr_body_size h) = body_size_for (hdr_type h)"
  shows "header_bytes (hdr_type h) (hdr_sequence h) (hdr_timestamp h) = take kHeaderWireSize buf"
proof -
  from assms(1) have len: "16 \<le> length buf" and ok: "is_valid_msg_type (le_value (take 1 buf))"
    and h: "h = \<lparr>hdr_type = msg_type_cast (le_value (field 0 1 buf)),
      hdr_version = le_value (field 1 1 buf), hdr_body_size = le_value (field 2 2 buf),
      hdr_sequence = le_value (field 4 4 buf), hdr_timestamp = le_value (field 8 8 buf)\<rparr>"
    by (auto simp: wire_simps kHeaderWireSize_def split: if_splits)
  have "of_nat (body_size_for (hdr_type h)) = hdr_body_size h"
    by (simp add: assms(3) [symmetric])
  then have "header_bytes (hdr_type h) (hdr_sequence h) (hdr_timestamp h) =
    take 1 buf @ field 1 1 buf @ field 2 2 buf @ field 4 4 buf @ field 8 8 buf"
    using len ok assms(2) by (simp add: header_bytes_def h msg_type_code_cast le_bytes_le_value
      assms(2) [symmetric])
  also have "\<dots> = take (1 + (1 + (2 + (4 + 8)))) buf"
    by (simp only: take_add drop_drop) (simp del: One_nat_def)
  finally show ?thesis by (simp add: kHeaderWireSize_def)
qed

section \<open>Properties\<close>

text \<open>C21. Encoding any message into a large enough buffer and decoding the buffer gives the
  header and the message back; the bytes after the frame are untouched, and the returned
  size is the frame's.\<close>

theorem encode_decode_roundtrip:
  assumes "body_ok body" and "kHeaderWireSize + body_size_for (msg_type_of body) \<le> length out"
  shows "\<exists>out' n. encode_message out seq ts body = Inr (out', n) \<and>
    n = kHeaderWireSize + body_size_for (msg_type_of body) \<and>
    length out' = length out \<and> drop n out' = drop n out \<and>
    decode_header out' = Inr (Some \<lparr>hdr_type = msg_type_of body, hdr_version = kProtocolVersion,
      hdr_body_size = of_nat (body_size_for (msg_type_of body)),
      hdr_sequence = seq, hdr_timestamp = ts\<rparr>) \<and>
    decode_body (msg_type_of body) (take (n - kHeaderWireSize) (drop kHeaderWireSize out')) =
      Inr (Some body)"
  using assms encode_message_bytes [OF assms, of seq ts]
    decode_header_frame [of seq ts body "drop (length (frame_bytes seq ts body)) out"]
    decode_body_bytes [OF assms(1)]
  by (simp add: length_frame_bytes header_of_def)
    (simp add: frame_bytes_def length_body_bytes)

definition sample_add :: AddOrder where
  "sample_add = \<lparr>ao_symbol = 7, ao_order_id = 42, ao_side = Sell, ao_price = - 1, ao_quantity = 300\<rparr>"

theorem encode_decode_roundtrip_witness:
  "\<exists>out' n. encode_message (replicate 50 0) 9 1234 (BodyAdd sample_add) = Inr (out', n) \<and> n = 41 \<and>
    drop 41 out' = replicate 9 0 \<and>
    decode_body AddOrder (take 25 (drop 16 out')) = Inr (Some (BodyAdd sample_add))"
  using encode_decode_roundtrip [of "BodyAdd sample_add" "replicate 50 0" 9 1234]
  by (auto simp: wire_size_defs)

text \<open>C29. Whatever bytes arrive, every decoder returns a value without leaving the buffer. A
  header is accepted exactly when sixteen bytes are there and the first is a message type; a
  body exactly when the bytes of its type's size are there.\<close>

theorem decoders_total:
  "\<exists>h m. decode_header buf = Inr h \<and> decode_body t buf = Inr m \<and>
    (h \<noteq> None \<longleftrightarrow> kHeaderWireSize \<le> length buf \<and> is_valid_msg_type (buf ! 0)) \<and>
    (m \<noteq> None \<longleftrightarrow> body_size_for t \<le> length buf)"
proof -
  have first: "le_value (take 1 buf) = buf ! 0" if "buf \<noteq> []"
  proof -
    from that have "le_bytes (le_value (take 1 buf) :: byte) = take 1 buf"
      by (intro le_bytes_le_value) (cases buf; simp)+
    with that show ?thesis by (cases buf) (simp_all add: le_bytes_byte)
  qed
  obtain h where h: "decode_header buf = Inr h"
    by (simp add: decode_header_eq)
  obtain m where m: "decode_body t buf = Inr m" using decode_body_total by blast
  have "h \<noteq> None \<longleftrightarrow> kHeaderWireSize \<le> length buf \<and> is_valid_msg_type (buf ! 0)"
    using h first by (cases "buf = []") (auto simp: decode_header_eq kHeaderWireSize_def split: if_splits)
  moreover have "m \<noteq> None \<longleftrightarrow> body_size_for t \<le> length buf"
    using m by (cases t) (auto simp: wire_simps wire_size_defs split: if_splits)
  ultimately show ?thesis using h m by blast
qed

text \<open>The encoding is canonical: when the decoders accept a frame of the protocol's version
  and with the size of its type, encoding what they return gives back the very bytes of the
  frame. (A snapshot is left out: its two padding bytes are not read.)\<close>

theorem decode_encode_canonical:
  assumes "decode_header buf = Inr (Some h)" and "hdr_version h = kProtocolVersion"
    and "unat (hdr_body_size h) = body_size_for (hdr_type h)" and "hdr_type h \<noteq> BookSnapshot"
    and "length buf = kHeaderWireSize + body_size_for (hdr_type h)"
    and "decode_body (hdr_type h) (drop kHeaderWireSize buf) = Inr (Some m)"
  shows "encode_message buf (hdr_sequence h) (hdr_timestamp h) m = Inr (buf, length buf)"
proof -
  obtain m' where "decode_body (hdr_type h) (drop kHeaderWireSize buf) = Inr (Some m')"
    "msg_type_of m' = hdr_type h" "body_ok m'"
    using decode_body_exact [of "drop kHeaderWireSize buf" "hdr_type h"] assms(5) by auto
  with assms(6) have m: "msg_type_of m = hdr_type h" "body_ok m" by simp_all
  have "frame_bytes (hdr_sequence h) (hdr_timestamp h) m =
      take kHeaderWireSize buf @ drop kHeaderWireSize buf"
    using decode_header_inverse [OF assms(1-3)] decode_body_inverse [OF assms(6) _ assms(4)] assms(5) m(1)
    by (simp add: frame_bytes_def del: append_take_drop_id)
  then have "frame_bytes (hdr_sequence h) (hdr_timestamp h) m = buf" by simp
  with encode_message_bytes [OF m(2), of buf "hdr_sequence h" "hdr_timestamp h"] m(1) assms(5)
  show ?thesis by simp
qed

definition sample_cancel :: CancelOrder where
  "sample_cancel = \<lparr>co_symbol = 7, co_order_id = 42\<rparr>"

theorem decode_encode_canonical_witness:
  "\<exists>buf h. length buf = 28 \<and> decode_header buf = Inr (Some h) \<and> hdr_sequence h = 5 \<and>
     encode_message buf 5 1 (BodyCancel sample_cancel) = Inr (buf, 28)"
proof -
  let ?buf = "frame_bytes 5 1 (BodyCancel sample_cancel)"
  have len: "length ?buf = 28" by (simp add: length_frame_bytes wire_size_defs)
  have h: "decode_header ?buf = Inr (Some (header_of 5 1 (BodyCancel sample_cancel)))"
    using decode_header_frame [of 5 1 "BodyCancel sample_cancel" "[]"] by simp
  have "decode_body CancelOrder (drop kHeaderWireSize ?buf) = Inr (Some (BodyCancel sample_cancel))"
    using decode_body_bytes [of "BodyCancel sample_cancel"] by (simp add: frame_bytes_def)
  with decode_encode_canonical [OF h, of "BodyCancel sample_cancel"] len h show ?thesis
    by (auto simp: header_of_def wire_size_defs)
qed

end
