(* ===== verification/Event_Handler.thy ===== *)
theory Event_Handler
  imports Serialization
begin

text \<open>
  Model of \<^verbatim>\<open>include/mdfh/event_handler.hpp\<close>. A type satisfying the \<^verbatim>\<open>HandlerLike\<close>
  concept is a record of its seven callbacks over the handler's state, which is how the
  parser and the feed handler take their downstream as a template parameter. The locale
  \<open>handler\<close> is the contract the parser relies on: no callback faults, and each keeps the
  handler's invariant. \<open>offset_blind\<close> adds that the handler does not look at the offset of
  a malformed message, which is what makes its result independent of how a stream was cut
  into segments.
\<close>

record 'h Handler =
  on_add_order :: "MessageHeader \<Rightarrow> AddOrder \<Rightarrow> 'h \<Rightarrow> 'h exec"
  on_cancel_order :: "MessageHeader \<Rightarrow> CancelOrder \<Rightarrow> 'h \<Rightarrow> 'h exec"
  on_modify_order :: "MessageHeader \<Rightarrow> ModifyOrder \<Rightarrow> 'h \<Rightarrow> 'h exec"
  on_trade :: "MessageHeader \<Rightarrow> Trade \<Rightarrow> 'h \<Rightarrow> 'h exec"
  on_snapshot :: "MessageHeader \<Rightarrow> BookSnapshot \<Rightarrow> 'h \<Rightarrow> 'h exec"
  on_heartbeat :: "MessageHeader \<Rightarrow> 'h \<Rightarrow> 'h exec"
  on_malformed :: "nat \<Rightarrow> 'h \<Rightarrow> 'h exec"

text \<open>The abstract base class \<^verbatim>\<open>EventHandler\<close>: every callback does nothing.\<close>

definition EventHandler_default :: "'h Handler" where
  "EventHandler_default =
     \<lparr>on_add_order = (\<lambda>_ _ h. Inr h), on_cancel_order = (\<lambda>_ _ h. Inr h),
      on_modify_order = (\<lambda>_ _ h. Inr h), on_trade = (\<lambda>_ _ h. Inr h),
      on_snapshot = (\<lambda>_ _ h. Inr h), on_heartbeat = (\<lambda>_ h. Inr h),
      on_malformed = (\<lambda>_ h. Inr h)\<rparr>"

text \<open>The callback a decoded body goes to.\<close>

fun on_body :: "'h Handler \<Rightarrow> MessageHeader \<Rightarrow> Body \<Rightarrow> 'h \<Rightarrow> 'h exec" where
  "on_body H hdr (BodyAdd m) h = on_add_order H hdr m h"
| "on_body H hdr (BodyCancel m) h = on_cancel_order H hdr m h"
| "on_body H hdr (BodyModify m) h = on_modify_order H hdr m h"
| "on_body H hdr (BodyTrade m) h = on_trade H hdr m h"
| "on_body H hdr (BodySnapshot m) h = on_snapshot H hdr m h"
| "on_body H hdr BodyHeartbeat h = on_heartbeat H hdr h"

text \<open>
  What a handler is called with, in order: a decoded message, or the offset of a malformed
  one. \<open>run_items\<close> is the sequence of those calls.
\<close>

datatype Item = Deliver MessageHeader Body | Reject nat

fun on_item :: "'h Handler \<Rightarrow> Item \<Rightarrow> 'h \<Rightarrow> 'h exec" where
  "on_item H (Deliver hdr body) h = on_body H hdr body h"
| "on_item H (Reject off) h = on_malformed H off h"

fun run_items :: "'h Handler \<Rightarrow> Item list \<Rightarrow> 'h \<Rightarrow> 'h exec" where
  "run_items H [] h = Inr h"
| "run_items H (i # is) h = ebind (on_item H i h) (run_items H is)"

lemma run_items_append:
  "run_items H (is @ js) h = ebind (run_items H is h) (run_items H js)"
proof (induction "is" arbitrary: h)
  case (Cons i "is")
  have "run_items H (is @ js) = (\<lambda>h. ebind (run_items H is h) (run_items H js))"
    by (rule ext) (rule Cons.IH)
  then show ?case by (simp add: ebind_assoc)
qed simp

fun is_delivery :: "Item \<Rightarrow> bool" where
  "is_delivery (Deliver _ _) = True"
| "is_delivery (Reject _) = False"

text \<open>Deliveries carry well-formed bodies; two rejections differ in the offset only.\<close>

definition item_ok :: "Item \<Rightarrow> bool" where
  "item_ok i = (case i of Deliver hdr body \<Rightarrow> body_ok body | Reject off \<Rightarrow> True)"

definition same_item :: "Item \<Rightarrow> Item \<Rightarrow> bool" where
  "same_item i j = (i = j \<or> (\<not> is_delivery i \<and> \<not> is_delivery j))"

lemma same_item_refl [simp]: "same_item i i"
  by (simp add: same_item_def)

section \<open>The contract\<close>

locale handler =
  fixes H :: "'h Handler" and Inv :: "'h \<Rightarrow> bool"
  assumes body_safe: "Inv h \<Longrightarrow> body_ok body \<Longrightarrow> \<exists>h'. on_body H hdr body h = Inr h' \<and> Inv h'"
    and malformed_safe: "Inv h \<Longrightarrow> \<exists>h'. on_malformed H off h = Inr h' \<and> Inv h'"
begin

lemma item_safe: "Inv h \<Longrightarrow> item_ok i \<Longrightarrow> \<exists>h'. on_item H i h = Inr h' \<and> Inv h'"
  by (cases i) (auto simp: item_ok_def body_safe malformed_safe)

lemma run_safe:
  "Inv h \<Longrightarrow> list_all item_ok is \<Longrightarrow> \<exists>h'. run_items H is h = Inr h' \<and> Inv h'"
proof (induction "is" arbitrary: h)
  case (Cons i "is")
  from Cons.prems item_safe [of h i] obtain h1 where "on_item H i h = Inr h1" "Inv h1" by auto
  with Cons.IH [of h1] Cons.prems show ?case by simp
qed simp

end

locale offset_blind = handler +
  assumes offset_irrelevant: "on_malformed H off h = on_malformed H off' h"
begin

lemma same_item_run: "list_all2 same_item is js \<Longrightarrow> run_items H is h = run_items H js h"
proof (induction arbitrary: h rule: list_all2_induct)
  case (Cons i "is" j js)
  have "on_item H i h = on_item H j h"
    using Cons.hyps(1) offset_irrelevant
    by (cases i; cases j) (auto simp: same_item_def)
  moreover have "run_items H is = run_items H js"
    by (rule ext) (rule Cons.IH)
  ultimately show ?case by simp
qed simp

end

interpretation default_handler: offset_blind EventHandler_default "\<lambda>_. True"
proof unfold_locales
  fix h :: 'h and hdr body
  show "\<exists>h'. on_body EventHandler_default hdr body h = Inr h' \<and> True"
    by (cases body) (simp_all add: EventHandler_default_def)
qed (simp_all add: EventHandler_default_def)

end
