(* ===== verification/Parser.thy ===== *)
theory Parser
  imports Event_Handler
begin

text \<open>
  Model of \<^verbatim>\<open>include/mdfh/parser.hpp\<close>. \<open>parse_loop\<close> and \<open>dispatch\<close> follow
  \<^verbatim>\<open>BinaryParser::parse\<close> and \<^verbatim>\<open>BinaryParser::dispatch\<close> branch for branch, over checked
  subspans and checked loads. \<open>classify\<close> states what one position of a buffer holds and
  \<open>scan\<close> what a whole buffer holds; \<open>parse_eq\<close> says that the parser calls its handler with
  exactly the scanned items, in order, and never reads outside the buffer. The framing
  lemmas (\<open>classify_append\<close>, \<open>scan_append\<close>, \<open>scan_frames\<close>) are about \<open>scan\<close>, so that the
  feed handler, the replay and the pipeline share them.
\<close>

section \<open>The parser\<close>

record ParseResult =
  bytes_consumed :: nat
  messages :: nat
  malformed :: nat
  needs_more :: bool

definition ParseResult_init :: ParseResult where
  "ParseResult_init =
     \<lparr>bytes_consumed = 0, messages = 0, malformed = 0, needs_more = False\<rparr>"

text \<open>
  One arm of the \<^verbatim>\<open>switch\<close>: \<^verbatim>\<open>if (decode_body(body, m)) { on_...(hdr, m); ++r.messages; }
  else { on_malformed(off); ++r.malformed; }\<close>.
\<close>

definition deliver ::
  "'m option exec \<Rightarrow> ('m \<Rightarrow> 'h \<Rightarrow> 'h exec) \<Rightarrow> (nat \<Rightarrow> 'h \<Rightarrow> 'h exec) \<Rightarrow> nat \<Rightarrow> 'h \<Rightarrow> ParseResult \<Rightarrow>
     ('h \<times> ParseResult) exec" where
  "deliver decoded on_m on_bad off h r =
     ebind decoded (\<lambda>d. case d of
       Some m \<Rightarrow> ebind (on_m m h) (\<lambda>h. Inr (h, r\<lparr>messages := messages r + 1\<rparr>))
     | None \<Rightarrow> ebind (on_bad off h) (\<lambda>h. Inr (h, r\<lparr>malformed := malformed r + 1\<rparr>)))"

definition dispatch ::
  "'h Handler \<Rightarrow> MessageHeader \<Rightarrow> byte list \<Rightarrow> nat \<Rightarrow> 'h \<Rightarrow> ParseResult \<Rightarrow> ('h \<times> ParseResult) exec" where
  "dispatch H hdr body off h r =
     (case hdr_type hdr of
        AddOrder \<Rightarrow> deliver (decode_add body) (on_add_order H hdr) (on_malformed H) off h r
      | CancelOrder \<Rightarrow> deliver (decode_cancel body) (on_cancel_order H hdr) (on_malformed H) off h r
      | ModifyOrder \<Rightarrow> deliver (decode_modify body) (on_modify_order H hdr) (on_malformed H) off h r
      | Trade \<Rightarrow> deliver (decode_trade body) (on_trade H hdr) (on_malformed H) off h r
      | BookSnapshot \<Rightarrow> deliver (decode_snapshot body) (on_snapshot H hdr) (on_malformed H) off h r
      | Heartbeat \<Rightarrow> ebind (on_heartbeat H hdr h) (\<lambda>h. Inr (h, r\<lparr>messages := messages r + 1\<rparr>)))"

text \<open>
  The loop of \<^verbatim>\<open>parse\<close>. \<^verbatim>\<open>break\<close> and the failed loop condition both store the offset in
  \<open>bytes_consumed\<close>; the bad-header branch returns at once with the header skipped.
\<close>

function parse_loop ::
  "'h Handler \<Rightarrow> byte list \<Rightarrow> nat \<Rightarrow> 'h \<Rightarrow> ParseResult \<Rightarrow> ('h \<times> ParseResult) exec" where
  "parse_loop H buf off h r =
     (if off + kHeaderWireSize \<le> length buf then
        ebind (subspan buf off kHeaderWireSize) (\<lambda>header_span.
        ebind (decode_header header_span) (\<lambda>decoded. case decoded of
          None \<Rightarrow>
            ebind (on_malformed H off h) (\<lambda>h.
            Inr (h, r\<lparr>malformed := malformed r + 1, bytes_consumed := off + kHeaderWireSize\<rparr>))
        | Some hdr \<Rightarrow>
            (let expected_body = body_size_for (hdr_type hdr);
                 frame = kHeaderWireSize + unat (hdr_body_size hdr)
             in if off + frame > length buf then
                  Inr (h, r\<lparr>needs_more := True, bytes_consumed := off\<rparr>)
                else if unat (hdr_body_size hdr) \<noteq> expected_body
                     \<or> hdr_version hdr \<noteq> kProtocolVersion then
                  ebind (on_malformed H off h) (\<lambda>h.
                  parse_loop H buf (off + frame) h (r\<lparr>malformed := malformed r + 1\<rparr>))
                else
                  ebind (subspan buf (off + kHeaderWireSize) expected_body) (\<lambda>body.
                  ebind (dispatch H hdr body off h r) (\<lambda>(h, r).
                  parse_loop H buf (off + frame) h r)))))
      else Inr (h, r\<lparr>bytes_consumed := off\<rparr>))"
  by pat_completeness auto
termination
  by (relation "measure (\<lambda>(H, buf, off, h, r). length buf - off)")
    (auto simp: kHeaderWireSize_def)

declare parse_loop.simps [simp del]

definition parse :: "'h Handler \<Rightarrow> byte list \<Rightarrow> 'h \<Rightarrow> ('h \<times> ParseResult) exec" where
  "parse H buf h = parse_loop H buf 0 h ParseResult_init"

section \<open>What a buffer holds\<close>

text \<open>What the front of a buffer is; the numbers are whole frame lengths.\<close>

datatype Front =
    Short                              \<comment> \<open>fewer bytes than a header\<close>
  | BadHeader                          \<comment> \<open>a header with an invalid type byte\<close>
  | Partial                            \<comment> \<open>a header whose declared body has not all arrived\<close>
  | Mismatch nat                       \<comment> \<open>a whole frame of the wrong size or version\<close>
  | Framed MessageHeader Body nat      \<comment> \<open>a well-formed message\<close>

definition front_header :: "byte list \<Rightarrow> MessageHeader option" where
  "front_header buf =
     (case decode_header (take kHeaderWireSize buf) of Inr d \<Rightarrow> d | Inl _ \<Rightarrow> None)"

definition classify :: "byte list \<Rightarrow> Front" where
  "classify buf =
     (if length buf < kHeaderWireSize then Short
      else case front_header buf of
        None \<Rightarrow> BadHeader
      | Some hdr \<Rightarrow>
          (let frame = kHeaderWireSize + unat (hdr_body_size hdr)
           in if frame > length buf then Partial
              else if unat (hdr_body_size hdr) \<noteq> body_size_for (hdr_type hdr)
                   \<or> hdr_version hdr \<noteq> kProtocolVersion then Mismatch frame
              else case decode_body (hdr_type hdr)
                     (take (body_size_for (hdr_type hdr)) (drop kHeaderWireSize buf)) of
                Inr (Some body) \<Rightarrow> Framed hdr body frame
              | _ \<Rightarrow> Mismatch frame))"

datatype Stop = AtEnd | AtPartial | AtBadHeader

lemma classify_frame_bounds:
  "classify buf = Mismatch n \<Longrightarrow> kHeaderWireSize \<le> n \<and> n \<le> length buf"
  "classify buf = Framed hdr body n \<Longrightarrow> kHeaderWireSize \<le> n \<and> n \<le> length buf \<and> body_ok body"
proof -
  show "classify buf = Mismatch n \<Longrightarrow> kHeaderWireSize \<le> n \<and> n \<le> length buf"
    by (auto simp: classify_def Let_def split: if_splits option.splits sum.splits)
next
  assume *: "classify buf = Framed hdr body n"
  then have n: "n = kHeaderWireSize + body_size_for (hdr_type hdr)" "n \<le> length buf"
    and d: "decode_body (hdr_type hdr)
      (take (body_size_for (hdr_type hdr)) (drop kHeaderWireSize buf)) = Inr (Some body)"
    by (auto simp: classify_def Let_def split: if_splits option.splits sum.splits)
  from n have "length (take (body_size_for (hdr_type hdr)) (drop kHeaderWireSize buf)) =
    body_size_for (hdr_type hdr)" by simp
  from decode_body_exact [OF this] d n
  show "kHeaderWireSize \<le> n \<and> n \<le> length buf \<and> body_ok body" by auto
qed

text \<open>The items of a buffer, the bytes they take, and why the scan stops.\<close>

function scan :: "nat \<Rightarrow> byte list \<Rightarrow> Item list \<times> nat \<times> Stop" where
  "scan off buf = (case classify buf of
       Short \<Rightarrow> ([], off, AtEnd)
     | Partial \<Rightarrow> ([], off, AtPartial)
     | BadHeader \<Rightarrow> ([Reject off], off + kHeaderWireSize, AtBadHeader)
     | Mismatch n \<Rightarrow>
         (let (items, c, s) = scan (off + n) (drop n buf) in (Reject off # items, c, s))
     | Framed hdr body n \<Rightarrow>
         (let (items, c, s) = scan (off + n) (drop n buf) in (Deliver hdr body # items, c, s)))"
  by pat_completeness auto
termination
  by (relation "measure (\<lambda>(off, buf). length buf)")
    (auto dest!: classify_frame_bounds simp: kHeaderWireSize_def)

declare scan.simps [simp del]

definition deliveries :: "Item list \<Rightarrow> nat" where
  "deliveries items = length (filter is_delivery items)"

definition rejections :: "Item list \<Rightarrow> nat" where
  "rejections items = length (filter (\<lambda>i. \<not> is_delivery i) items)"

lemma deliveries_simps [simp]:
  "deliveries [] = 0" "deliveries (Deliver hdr body # is) = Suc (deliveries is)"
  "deliveries (Reject off # is) = deliveries is"
  "rejections [] = 0" "rejections (Deliver hdr body # is) = rejections is"
  "rejections (Reject off # is) = Suc (rejections is)"
  by (simp_all add: deliveries_def rejections_def)

section \<open>The parser hands over exactly what the buffer holds\<close>

lemma dispatch_eq:
  "decode_body (hdr_type hdr) body = Inr (Some m) \<Longrightarrow>
     dispatch H hdr body off h r =
       ebind (on_body H hdr m h) (\<lambda>h. Inr (h, r\<lparr>messages := messages r + 1\<rparr>))"
  by (cases "hdr_type hdr") (auto simp: dispatch_def deliver_def exec_simps)

lemma front_header_Some:
  "kHeaderWireSize \<le> length buf \<Longrightarrow>
     decode_header (take kHeaderWireSize buf) = Inr (front_header buf)"
  by (simp add: front_header_def wire_simps)

lemma decode_body_Framed:
  "length b = body_size_for t \<Longrightarrow> \<exists>m. decode_body t b = Inr (Some m)"
  using decode_body_exact by blast

text \<open>One iteration of the loop, by what the front of the remaining bytes is.\<close>

lemma parse_loop_step:
  assumes "off \<le> length buf"
  shows "parse_loop H buf off h r = (case classify (drop off buf) of
       Short \<Rightarrow> Inr (h, r\<lparr>bytes_consumed := off\<rparr>)
     | Partial \<Rightarrow> Inr (h, r\<lparr>needs_more := True, bytes_consumed := off\<rparr>)
     | BadHeader \<Rightarrow> ebind (on_malformed H off h) (\<lambda>h.
         Inr (h, r\<lparr>malformed := malformed r + 1, bytes_consumed := off + kHeaderWireSize\<rparr>))
     | Mismatch n \<Rightarrow> ebind (on_malformed H off h) (\<lambda>h.
         parse_loop H buf (off + n) h (r\<lparr>malformed := malformed r + 1\<rparr>))
     | Framed hdr body n \<Rightarrow> ebind (on_body H hdr body h) (\<lambda>h.
         parse_loop H buf (off + n) h (r\<lparr>messages := messages r + 1\<rparr>)))"
proof (cases "off + kHeaderWireSize \<le> length buf")
  case False
  then have "classify (drop off buf) = Short"
    using assms by (auto simp: classify_def)
  with False show ?thesis by (subst parse_loop.simps) simp
next
  case True
  let ?b = "drop off buf"
  have hdr: "decode_header (take kHeaderWireSize ?b) = Inr (front_header ?b)"
    using True by (intro front_header_Some) simp
  have long: "\<not> length buf - off < kHeaderWireSize"
    using True by simp
  show ?thesis
  proof (cases "front_header ?b")
    case None
    with True hdr long show ?thesis by (subst parse_loop.simps) (simp add: classify_def)
  next
    case (Some h0)
    let ?sz = "unat (hdr_body_size h0)"
    consider (partial) "off + (kHeaderWireSize + ?sz) > length buf"
      | (mismatch) "off + (kHeaderWireSize + ?sz) \<le> length buf"
          "?sz \<noteq> body_size_for (hdr_type h0) \<or> hdr_version h0 \<noteq> kProtocolVersion"
      | (framed) "off + (kHeaderWireSize + ?sz) \<le> length buf"
          "?sz = body_size_for (hdr_type h0)" "hdr_version h0 = kProtocolVersion"
      by linarith
    then show ?thesis
    proof cases
      case partial
      then have "length buf - off < kHeaderWireSize + ?sz" using True by linarith
      then have "classify ?b = Partial" using Some long by (simp add: classify_def Let_def)
      with partial True hdr Some show ?thesis
        by (subst parse_loop.simps) (simp add: Let_def)
    next
      case mismatch
      then have "\<not> length buf - off < kHeaderWireSize + ?sz" by linarith
      then have "classify ?b = Mismatch (kHeaderWireSize + ?sz)"
        using Some long mismatch by (simp add: classify_def Let_def)
      moreover have "\<not> length buf < off + (kHeaderWireSize + ?sz)" using mismatch by linarith
      ultimately show ?thesis
        using mismatch True hdr Some by (subst parse_loop.simps) (simp add: Let_def)
    next
      case framed
      let ?body = "take ?sz (drop (off + kHeaderWireSize) buf)"
      obtain m where m: "decode_body (hdr_type h0) ?body = Inr (Some m)"
        using framed decode_body_Framed [of ?body "hdr_type h0"] by auto
      from framed have "classify ?b = Framed h0 m (kHeaderWireSize + ?sz)"
        using True Some m long by (simp add: classify_def Let_def add.commute)
      moreover have "\<not> off + (kHeaderWireSize + ?sz) > length buf" using framed by simp
      ultimately show ?thesis
        using framed True hdr Some m
        by (subst parse_loop.simps) (simp add: Let_def dispatch_eq ebind_assoc)
    qed
  qed
qed

lemma ParseResult_updates:
  "r\<lparr>malformed := m, bytes_consumed := c\<rparr> =
     \<lparr>bytes_consumed = c, messages = messages r, malformed = m, needs_more = needs_more r\<rparr>"
  "r\<lparr>needs_more := b, bytes_consumed := c\<rparr> =
     \<lparr>bytes_consumed = c, messages = messages r, malformed = malformed r, needs_more = b\<rparr>"
  "r\<lparr>bytes_consumed := c\<rparr> =
     \<lparr>bytes_consumed = c, messages = messages r, malformed = malformed r,
      needs_more = needs_more r\<rparr>"
  for r :: ParseResult
  by simp_all

lemma parse_loop_scan:
  assumes "off \<le> length buf" and "scan off (drop off buf) = (items, c, s)"
  shows "parse_loop H buf off h r =
    ebind (run_items H items h) (\<lambda>h.
      Inr (h, \<lparr>bytes_consumed = c, messages = messages r + deliveries items,
               malformed = malformed r + rejections items,
               needs_more = needs_more r \<or> s = AtPartial\<rparr>))"
  using assms
proof (induction "length buf - off" arbitrary: off h r items c s rule: less_induct)
  case less
  note scan = less.prems(2) [unfolded scan.simps [of off]]
  show ?case
  proof (cases "classify (drop off buf)")
    case (Mismatch n)
    from classify_frame_bounds(1) [OF this] have n: "0 < n" "off + n \<le> length buf"
      by (auto simp: kHeaderWireSize_def)
    obtain is' c' s' where rec: "scan (off + n) (drop (off + n) buf) = (is', c', s')"
      by (metis prod_cases3)
    with scan Mismatch have "items = Reject off # is'" "c = c'" "s = s'"
      by (auto simp: add.commute)
    with less.hyps [OF _ n(2) rec] n Mismatch less.prems(1) show ?thesis
      by (simp add: parse_loop_step ebind_assoc)
  next
    case (Framed hdr body n)
    from classify_frame_bounds(2) [OF this] have n: "0 < n" "off + n \<le> length buf"
      by (auto simp: kHeaderWireSize_def)
    obtain is' c' s' where rec: "scan (off + n) (drop (off + n) buf) = (is', c', s')"
      by (metis prod_cases3)
    with scan Framed have "items = Deliver hdr body # is'" "c = c'" "s = s'"
      by (auto simp: add.commute)
    with less.hyps [OF _ n(2) rec] n Framed less.prems(1) show ?thesis
      by (simp add: parse_loop_step ebind_assoc)
  qed (use scan less.prems(1) in \<open>auto simp: parse_loop_step ebind_assoc ParseResult_updates\<close>)
qed

lemma parse_eq:
  assumes "scan 0 buf = (items, c, s)"
  shows "parse H buf h =
    ebind (run_items H items h) (\<lambda>h.
      Inr (h, \<lparr>bytes_consumed = c, messages = deliveries items,
               malformed = rejections items, needs_more = (s = AtPartial)\<rparr>))"
  using parse_loop_scan [of 0 buf items c s H h ParseResult_init] assms
  by (simp add: parse_def ParseResult_init_def)

section \<open>Framing\<close>

lemma scan_Short: "classify buf = Short \<Longrightarrow> scan off buf = ([], off, AtEnd)"
  by (simp add: scan.simps)

lemma scan_Partial: "classify buf = Partial \<Longrightarrow> scan off buf = ([], off, AtPartial)"
  by (simp add: scan.simps)

lemma scan_BadHeader:
  "classify buf = BadHeader \<Longrightarrow> scan off buf = ([Reject off], off + kHeaderWireSize, AtBadHeader)"
  by (simp add: scan.simps)

lemma scan_Mismatch:
  "classify buf = Mismatch n \<Longrightarrow> scan (off + n) (drop n buf) = (items, c, s) \<Longrightarrow>
     scan off buf = (Reject off # items, c, s)"
  by (simp add: scan.simps [of off buf])

lemma scan_Framed:
  "classify buf = Framed hdr body n \<Longrightarrow> scan (off + n) (drop n buf) = (items, c, s) \<Longrightarrow>
     scan off buf = (Deliver hdr body # items, c, s)"
  by (simp add: scan.simps [of off buf])

lemmas scan_rules = scan_Short scan_Partial scan_BadHeader scan_Mismatch scan_Framed

text \<open>Induction on the frames of a buffer.\<close>

lemma scan_cases [case_names Short Partial BadHeader Mismatch Framed]:
  assumes "scan off buf = (items, c, s)"
  obtains "classify buf = Short" "items = []" "c = off" "s = AtEnd"
  | "classify buf = Partial" "items = []" "c = off" "s = AtPartial"
  | "classify buf = BadHeader" "items = [Reject off]" "c = off + kHeaderWireSize" "s = AtBadHeader"
  | n is' where "classify buf = Mismatch n" "items = Reject off # is'"
      "scan (off + n) (drop n buf) = (is', c, s)" "length (drop n buf) < length buf"
      "n \<le> length buf"
  | hdr body n is' where "classify buf = Framed hdr body n" "items = Deliver hdr body # is'"
      "scan (off + n) (drop n buf) = (is', c, s)" "length (drop n buf) < length buf"
      "n \<le> length buf" "body_ok body"
proof (cases "classify buf")
  case (Mismatch n)
  obtain is' c' s' where rec: "scan (off + n) (drop n buf) = (is', c', s')"
    by (metis prod_cases3)
  have "length (drop n buf) < length buf" "n \<le> length buf"
    using classify_frame_bounds(1) [OF Mismatch] by (auto simp: kHeaderWireSize_def)
  moreover from scan_Mismatch [OF Mismatch rec] assms
  have "items = Reject off # is'" "c' = c" "s' = s" by simp_all
  ultimately show thesis using Mismatch rec that(4) by blast
next
  case (Framed hdr body n)
  obtain is' c' s' where rec: "scan (off + n) (drop n buf) = (is', c', s')"
    by (metis prod_cases3)
  have "length (drop n buf) < length buf" "n \<le> length buf" "body_ok body"
    using classify_frame_bounds(2) [OF Framed] by (auto simp: kHeaderWireSize_def)
  moreover from scan_Framed [OF Framed rec] assms
  have "items = Deliver hdr body # is'" "c' = c" "s' = s" by simp_all
  ultimately show thesis using Framed rec that(5) by blast
next
  case Short
  with assms that(1) show thesis by (simp add: scan_Short)
next
  case Partial
  with assms that(2) show thesis by (simp add: scan_Partial)
next
  case BadHeader
  with assms that(3) show thesis by (simp add: scan_BadHeader)
qed

lemma scan_bounds: "scan off buf = (items, c, s) \<Longrightarrow> off \<le> c \<and> c \<le> off + length buf"
proof (induction "length buf" arbitrary: off buf items rule: less_induct)
  case less
  from less.prems show ?case
  proof (cases rule: scan_cases)
    case BadHeader
    then have "kHeaderWireSize \<le> length buf"
      by (auto simp: classify_def Let_def split: if_splits)
    with BadHeader show ?thesis by simp
  next
    case (Mismatch n is')
    with less.hyps [of "drop n buf" "off + n" is'] show ?thesis by simp
  next
    case (Framed hdr body n is')
    with less.hyps [of "drop n buf" "off + n" is'] show ?thesis by simp
  qed simp_all
qed

lemma scan_length:
  "scan off buf = (items, c, s) \<Longrightarrow> off + kHeaderWireSize * length items \<le> c"
proof (induction "length buf" arbitrary: off buf items rule: less_induct)
  case less
  from less.prems show ?case
  proof (cases rule: scan_cases)
    case (Mismatch n is')
    with less.hyps [of "drop n buf" "off + n" is'] classify_frame_bounds(1) [of buf n]
    show ?thesis by simp
  next
    case (Framed hdr body n is')
    with less.hyps [of "drop n buf" "off + n" is'] classify_frame_bounds(2) [of buf hdr body n]
    show ?thesis by simp
  qed simp_all
qed

lemma scan_item_ok: "scan off buf = (items, c, s) \<Longrightarrow> list_all item_ok items"
proof (induction "length buf" arbitrary: off buf items rule: less_induct)
  case less
  from less.prems show ?case
  proof (cases rule: scan_cases)
    case (Mismatch n is')
    with less.hyps [of "drop n buf" "off + n" is'] show ?thesis by (simp add: item_ok_def)
  next
    case (Framed hdr body n is')
    with less.hyps [of "drop n buf" "off + n" is'] show ?thesis by (simp add: item_ok_def)
  qed (simp_all add: item_ok_def)
qed

text \<open>The start offset moves the end and the offsets of the rejections, nothing else.\<close>

lemma scan_shift:
  "scan off buf = (items, c, s) \<Longrightarrow>
     \<exists>items'. scan off' buf = (items', off' + (c - off), s) \<and> list_all2 same_item items items'"
proof (induction "length buf" arbitrary: off off' buf items rule: less_induct)
  case less
  from less.prems show ?case
  proof (cases rule: scan_cases)
    case (Mismatch n is')
    with less.hyps [of "drop n buf" "off + n" is' "off' + n"] obtain items' where
      "scan (off' + n) (drop n buf) = (items', off' + n + (c - (off + n)), s)"
      and "list_all2 same_item is' items'" by auto
    moreover from scan_bounds [OF Mismatch(3)] have "off + n \<le> c" by simp
    ultimately show ?thesis
      using Mismatch by (auto simp: scan_Mismatch same_item_def)
  next
    case (Framed hdr body n is')
    with less.hyps [of "drop n buf" "off + n" is' "off' + n"] obtain items' where
      "scan (off' + n) (drop n buf) = (items', off' + n + (c - (off + n)), s)"
      and "list_all2 same_item is' items'" by auto
    moreover from scan_bounds [OF Framed(3)] have "off + n \<le> c" by simp
    ultimately show ?thesis
      using Framed by (auto simp: scan_Framed)
  qed (auto simp: scan_rules same_item_def)
qed

text \<open>What is whole stays as it is when more bytes arrive.\<close>

lemma front_header_append:
  "kHeaderWireSize \<le> length buf \<Longrightarrow> front_header (buf @ rest) = front_header buf"
  by (simp add: front_header_def)

lemma classify_append:
  assumes "classify buf \<noteq> Short" and "classify buf \<noteq> Partial"
  shows "classify (buf @ rest) = classify buf"
proof -
  from assms(1) have "\<not> length buf < kHeaderWireSize" by (auto simp: classify_def)
  moreover from this have "front_header (buf @ rest) = front_header buf"
    by (intro front_header_append) simp
  ultimately show ?thesis
    using assms(2)
    by (cases "front_header buf") (auto simp: classify_def Let_def split: if_splits)
qed

lemma scan_append:
  "scan off buf = (items, c, s) \<Longrightarrow> s \<noteq> AtBadHeader \<Longrightarrow>
   scan c (drop (c - off) buf @ rest) = (items2, c2, s2) \<Longrightarrow>
     scan off (buf @ rest) = (items @ items2, c2, s2)"
proof (induction "length buf" arbitrary: off buf items rule: less_induct)
  case less
  from less.prems(1) show ?case
  proof (cases rule: scan_cases)
    case (Mismatch n is')
    from scan_bounds [OF Mismatch(3)] Mismatch(4,5) less.prems(2,3)
      less.hyps [of "drop n buf" "off + n" is'] Mismatch(3)
    have "scan (off + n) (drop n buf @ rest) = (is' @ items2, c2, s2)" by simp
    with Mismatch show ?thesis by (simp add: scan_Mismatch classify_append)
  next
    case (Framed hdr body n is')
    from scan_bounds [OF Framed(3)] Framed(4,5) less.prems(2,3)
      less.hyps [of "drop n buf" "off + n" is'] Framed(3)
    have "scan (off + n) (drop n buf @ rest) = (is' @ items2, c2, s2)" by simp
    with Framed show ?thesis by (simp add: scan_Framed classify_append)
  qed (use less.prems in simp_all)
qed

lemma scan_append_BadHeader:
  "scan off buf = (items, c, AtBadHeader) \<Longrightarrow> scan off (buf @ rest) = (items, c, AtBadHeader)"
proof (induction "length buf" arbitrary: off buf items rule: less_induct)
  case less
  from less.prems show ?case
  proof (cases rule: scan_cases)
    case (Mismatch n is')
    with less.hyps [of "drop n buf" "off + n" is'] show ?thesis
      by (simp add: scan_Mismatch classify_append)
  next
    case (Framed hdr body n is')
    with less.hyps [of "drop n buf" "off + n" is'] show ?thesis
      by (simp add: scan_Framed classify_append)
  qed (simp_all add: scan_BadHeader classify_append)
qed

section \<open>Streams of encoded messages\<close>

type_synonym message = "Sequence \<times> TimestampNs \<times> Body"

fun message_bytes :: "message \<Rightarrow> byte list" where
  "message_bytes (seq, ts, body) = frame_bytes seq ts body"

fun message_ok :: "message \<Rightarrow> bool" where
  "message_ok (seq, ts, body) = body_ok body"

fun message_item :: "message \<Rightarrow> Item" where
  "message_item (seq, ts, body) = Deliver (header_of seq ts body) body"

definition wire :: "message list \<Rightarrow> byte list" where
  "wire msgs = concat (map message_bytes msgs)"

lemma wire_simps' [simp]:
  "wire [] = []" "wire (m # ms) = message_bytes m @ wire ms"
  "wire (ms @ ms') = wire ms @ wire ms'"
  by (simp_all add: wire_def)

lemma unat_body_size [simp]: "unat (of_nat (body_size_for t) :: u16) = body_size_for t"
  using body_size_for_u16 [of t] by (simp add: unat_of_nat)

lemma front_header_frame:
  assumes "body_ok body"
  shows "front_header (frame_bytes seq ts body @ rest) = Some (header_of seq ts body)"
proof -
  have "take kHeaderWireSize (frame_bytes seq ts body @ rest) =
    header_bytes (msg_type_of body) seq ts"
    by (simp add: frame_bytes_def)
  moreover have "decode_header (header_bytes (msg_type_of body) seq ts) =
    Inr (Some (header_of seq ts body))"
    by (simp add: wire_simps header_bytes_def header_of_def kHeaderWireSize_def)
  ultimately show ?thesis by (simp add: front_header_def)
qed

lemma classify_frame:
  assumes "body_ok body"
  shows "classify (frame_bytes seq ts body @ rest) =
    Framed (header_of seq ts body) body (length (frame_bytes seq ts body))"
proof -
  note front_header_frame [OF assms, of seq ts rest]
  then show ?thesis
    using assms
    by (simp add: classify_def Let_def length_frame_bytes header_of_def decode_body_bytes length_body_bytes
      frame_bytes_def)
qed

lemma scan_wire:
  "list_all message_ok msgs \<Longrightarrow> scan (off + length (wire msgs)) tail = (items, c, s) \<Longrightarrow>
     scan off (wire msgs @ tail) = (map message_item msgs @ items, c, s)"
proof (induction msgs arbitrary: off)
  case (Cons m msgs)
  obtain seq ts body where m: "m = (seq, ts, body)" by (cases m)
  have "scan (off + length (frame_bytes seq ts body)) (wire msgs @ tail) =
    (map message_item msgs @ items, c, s)"
    using Cons.prems m by (intro Cons.IH) (simp_all add: add.assoc)
  with Cons.prems m show ?case by (simp add: scan_Framed classify_frame)
qed simp

lemma message_item_counts [simp]:
  "deliveries (map message_item ms @ is) = length ms + deliveries is"
  "rejections (map message_item ms @ is) = rejections is"
  "deliveries (map message_item ms) = length ms" "rejections (map message_item ms) = 0"
  by (induction ms) auto

text \<open>A message cut short is not taken for anything else.\<close>

lemma classify_cut_frame:
  assumes "body_ok body" and "k < length (frame_bytes seq ts body)"
  shows "classify (take k (frame_bytes seq ts body)) = (if k < kHeaderWireSize then Short else Partial)"
proof (cases "k < kHeaderWireSize")
  case True
  with assms(2) show ?thesis by (simp add: classify_def)
next
  case False
  let ?f = "frame_bytes seq ts body"
  have "front_header (take k ?f) = front_header ?f"
    using False assms(2) front_header_append [of "take k ?f" "drop k ?f"] by simp
  also have "\<dots> = Some (header_of seq ts body)"
    using front_header_frame [OF assms(1), of seq ts "[]"] by simp
  finally show ?thesis
    using False assms by (auto simp: classify_def Let_def header_of_def length_frame_bytes)
qed

lemma classify_bad_type:
  assumes "length header = kHeaderWireSize" and "\<not> is_valid_msg_type (header ! 0)"
  shows "classify (header @ rest) = BadHeader"
proof -
  from assms(1) have "header \<noteq> []" by (auto simp: kHeaderWireSize_def)
  have "le_value [b] = b" for b :: byte
    using le_value_le_bytes [of b] by (simp add: le_bytes_byte)
  then have first: "le_value (take (Suc 0) header) = header ! 0"
    using \<open>header \<noteq> []\<close> by (cases header) simp_all
  have "front_header (header @ rest) = None"
    using assms first by (simp add: front_header_def decode_header_eq)
  then show ?thesis
    using assms(1) by (simp add: classify_def)
qed

lemma scan_cut_stream:
  assumes "list_all message_ok msgs" and "message_ok m" and "k < length (message_bytes m)"
  shows "scan 0 (wire msgs @ take k (message_bytes m)) =
    (map message_item msgs, length (wire msgs), if k < kHeaderWireSize then AtEnd else AtPartial)"
proof -
  obtain seq ts body where m: "m = (seq, ts, body)" by (cases m)
  let ?tail = "take k (message_bytes m)"
  have "classify ?tail = (if k < kHeaderWireSize then Short else Partial)"
    using assms(2,3) m by (simp add: classify_cut_frame)
  then have "scan (0 + length (wire msgs)) ?tail =
      ([], length (wire msgs), if k < kHeaderWireSize then AtEnd else AtPartial)"
    by (simp add: scan_Short scan_Partial split: if_splits)
  from scan_wire [OF assms(1) this] show ?thesis by simp
qed

section \<open>Safety of parsing, for any handler that keeps its contract\<close>

context handler
begin

lemma parse_safe:
  assumes "Inv h"
  shows "\<exists>h' r. parse H buf h = Inr (h', r) \<and> Inv h' \<and> bytes_consumed r \<le> length buf"
proof -
  obtain items c s where sc: "scan 0 buf = (items, c, s)" by (metis prod_cases3)
  from run_safe [OF assms scan_item_ok [OF sc]] obtain h' where
    "run_items H items h = Inr h'" "Inv h'" by blast
  with parse_eq [OF sc, of H h] scan_bounds [OF sc] show ?thesis by simp
qed

end

section \<open>The types of the events\<close>

text \<open>
  What a handler may rely on: the callback fits the type in the header, the header has the
  protocol's version and the size of that type, a snapshot has all its levels, and the offset of
  a malformed frame is that of a complete header in the buffer.
\<close>

fun well_typed :: "nat \<Rightarrow> nat \<Rightarrow> Item \<Rightarrow> bool" where
  "well_typed lo hi (Deliver hdr body) = (hdr_type hdr = msg_type_of body \<and>
     hdr_version hdr = kProtocolVersion \<and> unat (hdr_body_size hdr) = body_size_for (msg_type_of body) \<and>
     body_ok body)"
| "well_typed lo hi (Reject off) = (lo \<le> off \<and> off + kHeaderWireSize \<le> hi)"

lemma well_typed_later: "well_typed lo' hi i \<Longrightarrow> lo \<le> lo' \<Longrightarrow> well_typed lo hi i"
  by (cases i) auto

lemma classify_typed:
  assumes "classify buf = Framed hdr body n"
  shows "well_typed lo hi (Deliver hdr body)"
proof -
  from assms have n: "kHeaderWireSize + body_size_for (hdr_type hdr) \<le> length buf"
    and hdr: "unat (hdr_body_size hdr) = body_size_for (hdr_type hdr)" "hdr_version hdr = kProtocolVersion"
    and d: "decode_body (hdr_type hdr)
      (take (body_size_for (hdr_type hdr)) (drop kHeaderWireSize buf)) = Inr (Some body)"
    by (auto simp: classify_def Let_def split: if_splits option.splits sum.splits)
  from n have "length (take (body_size_for (hdr_type hdr)) (drop kHeaderWireSize buf)) =
    body_size_for (hdr_type hdr)" by simp
  from decode_body_exact [OF this] d have "msg_type_of body = hdr_type hdr" "body_ok body" by auto
  with hdr show ?thesis by simp
qed

lemma scan_typed:
  "scan off buf = (items, c, s) \<Longrightarrow> list_all (well_typed off (off + length buf)) items"
proof (induction "length buf" arbitrary: off buf items rule: less_induct)
  case less
  from less.prems show ?case
  proof (cases rule: scan_cases)
    case BadHeader
    then have "kHeaderWireSize \<le> length buf"
      by (auto simp: classify_def Let_def split: if_splits)
    with BadHeader show ?thesis by simp
  next
    case (Mismatch n is')
    with less.hyps [of "drop n buf" "off + n" is'] classify_frame_bounds(1) [of buf n]
    show ?thesis by (auto simp: list_all_iff intro: well_typed_later)
  next
    case (Framed hdr body n is')
    with less.hyps [of "drop n buf" "off + n" is'] classify_typed [OF Framed(1)]
    show ?thesis by (auto simp: list_all_iff intro: well_typed_later)
  qed simp_all
qed

section \<open>Properties\<close>

text \<open>C33. The events of a buffer are well typed and do not depend on who handles them: for any bytes
  there is one sequence of events, each with a header of the protocol's version whose type and
  size are those of the body delivered with it, or the offset of a complete header, such that
  every handler, whatever it does with them, is called with exactly these, in this order.\<close>

theorem parse_events_typed:
  "\<exists>items c more. list_all (well_typed 0 (length buf)) items \<and> c \<le> length buf \<and>
    (\<forall>(H :: 'h Handler) h. parse H buf h = ebind (run_items H items h) (\<lambda>h.
      Inr (h, \<lparr>bytes_consumed = c, messages = deliveries items, malformed = rejections items,
               needs_more = more\<rparr>)))"
proof -
  obtain items c s where sc: "scan 0 buf = (items, c, s)" by (metis prod_cases3)
  from scan_typed [OF sc] scan_bounds [OF sc] show ?thesis
    by (intro exI [of _ items] exI [of _ c] exI [of _ "s = AtPartial"] conjI allI parse_eq [OF sc]) simp_all
qed

text \<open>C22. A buffer holding whole messages and a cut one: every whole message is delivered, in
  order and once; the report counts them and points at the cut message; \<open>needs_more\<close> is
  set exactly when the header of the cut message has arrived.\<close>

theorem parse_wire_stream:
  assumes "list_all message_ok msgs" and "message_ok m" and "k < length (message_bytes m)"
  shows "parse H (wire msgs @ take k (message_bytes m)) h =
    ebind (run_items H (map message_item msgs) h) (\<lambda>h.
      Inr (h, \<lparr>bytes_consumed = length (wire msgs), messages = length msgs, malformed = 0,
               needs_more = (kHeaderWireSize \<le> k)\<rparr>))"
  by (simp add: parse_eq [OF scan_cut_stream [OF assms]])

definition sample_messages :: "message list" where
  "sample_messages = [(1, 100, BodyAdd sample_add), (2, 200, BodyHeartbeat)]"

theorem parse_wire_stream_witness:
  "parse EventHandler_default
     (wire sample_messages @ take 20 (message_bytes (3, 300, BodyCancel sample_cancel))) () =
   Inr ((), \<lparr>bytes_consumed = 57, messages = 2, malformed = 0, needs_more = True\<rparr>)"
  using parse_wire_stream [of sample_messages "(3, 300, BodyCancel sample_cancel)" 20
      EventHandler_default "()"]
  by (simp add: sample_messages_def length_frame_bytes wire_size_defs EventHandler_default_def)

text \<open>A complete frame whose version is not the protocol's, or whose declared size is not its
  type's, is reported once and stepped over by its declared size; the messages after it are
  delivered as if it had not been there.\<close>

theorem parse_skips_bad_frame:
  assumes "list_all message_ok msgs" and "list_all message_ok msgs'"
    and "unat (sz :: u16) = length payload"
    and "ver \<noteq> kProtocolVersion \<or> unat sz \<noteq> body_size_for type"
  shows "parse H (wire msgs @ (le_bytes (msg_type_code type) @ le_bytes (ver :: u8) @ le_bytes sz @
      le_bytes (seq :: u32) @ le_bytes (ts :: u64) @ payload) @ wire msgs') h =
    ebind (run_items H (map message_item msgs @ Reject (length (wire msgs)) #
                        map message_item msgs') h) (\<lambda>h.
      Inr (h, \<lparr>bytes_consumed = length (wire msgs) + 16 + length payload + length (wire msgs'),
               messages = length msgs + length msgs', malformed = 1, needs_more = False\<rparr>))"
proof -
  let ?hd = "le_bytes (msg_type_code type) @ le_bytes ver @ le_bytes sz @ le_bytes seq @ le_bytes ts"
  let ?buf = "(?hd @ payload) @ wire msgs'"
  have len: "length ?hd = 16" by simp
  have front: "front_header ?buf = Some \<lparr>hdr_type = type, hdr_version = ver, hdr_body_size = sz,
      hdr_sequence = seq, hdr_timestamp = ts\<rparr>"
    by (simp add: front_header_def kHeaderWireSize_def decode_header_eq)
  have "classify ?buf = Mismatch (16 + length payload)"
    using assms(3,4) unfolding classify_def front by (auto simp: Let_def kHeaderWireSize_def)
  moreover have "scan (length (wire msgs) + (16 + length payload)) (drop (16 + length payload) ?buf) =
      (map message_item msgs', length (wire msgs) + (16 + length payload) + length (wire msgs'), AtEnd)"
    using scan_wire [OF assms(2), of "length (wire msgs) + (16 + length payload)" "[]"]
    by (simp add: scan_Short classify_def kHeaderWireSize_def)
  ultimately have "scan (0 + length (wire msgs)) ?buf =
      (Reject (length (wire msgs)) # map message_item msgs',
       length (wire msgs) + (16 + length payload) + length (wire msgs'), AtEnd)"
    using scan_Mismatch [of ?buf "16 + length payload" "length (wire msgs)"] by simp
  from parse_eq [OF scan_wire [OF assms(1) this], of H h]
  have "parse H (wire msgs @ ?buf) h = ebind (run_items H (map message_item msgs @
        Reject (length (wire msgs)) # map message_item msgs') h) (\<lambda>h.
      Inr (h, \<lparr>bytes_consumed = length (wire msgs) + (16 + length payload) + length (wire msgs'),
        messages = deliveries (map message_item msgs @ Reject (length (wire msgs)) # map message_item msgs'),
        malformed = rejections (map message_item msgs @ Reject (length (wire msgs)) # map message_item msgs'),
        needs_more = False\<rparr>))"
    by simp
  then show ?thesis by (simp add: add.assoc)
qed

theorem parse_skips_bad_frame_witness:
  "parse EventHandler_default (wire sample_messages @ (le_bytes (msg_type_code Trade) @
      le_bytes (2 :: u8) @ le_bytes (3 :: u16) @ le_bytes (9 :: u32) @ le_bytes (0 :: u64) @ [1, 2, 3]) @
      wire sample_messages) () =
   Inr ((), \<lparr>bytes_consumed = 133, messages = 4, malformed = 1, needs_more = False\<rparr>)"
  using parse_skips_bad_frame [of sample_messages sample_messages 3 "[1, 2, 3]" 2 Trade
      EventHandler_default 9 0 "()"]
  by (simp add: sample_messages_def length_frame_bytes wire_size_defs EventHandler_default_def
      kProtocolVersion_def)

text \<open>A header whose type byte is no message type ends the parse: it is reported once, its
  sixteen bytes are consumed, and nothing behind it is looked at, whatever it is.\<close>

theorem parse_stops_at_bad_type:
  assumes "list_all message_ok msgs" and "length header = kHeaderWireSize"
    and "\<not> is_valid_msg_type (header ! 0)"
  shows "parse H (wire msgs @ header @ rest) h =
    ebind (run_items H (map message_item msgs @ [Reject (length (wire msgs))]) h) (\<lambda>h.
      Inr (h, \<lparr>bytes_consumed = length (wire msgs) + kHeaderWireSize, messages = length msgs,
               malformed = 1, needs_more = False\<rparr>))"
proof -
  have "classify (header @ rest) = BadHeader"
    using assms(2,3) by (rule classify_bad_type)
  then have "scan (0 + length (wire msgs)) (header @ rest) =
      ([Reject (length (wire msgs))], length (wire msgs) + kHeaderWireSize, AtBadHeader)"
    by (simp add: scan_BadHeader)
  from parse_eq [OF scan_wire [OF assms(1) this], of H h]
  have "parse H (wire msgs @ header @ rest) h =
    ebind (run_items H (map message_item msgs @ [Reject (length (wire msgs))]) h) (\<lambda>h.
      Inr (h, \<lparr>bytes_consumed = length (wire msgs) + kHeaderWireSize,
        messages = deliveries (map message_item msgs @ [Reject (length (wire msgs))]),
        malformed = rejections (map message_item msgs @ [Reject (length (wire msgs))]),
        needs_more = False\<rparr>))"
    by simp
  then show ?thesis by simp
qed

theorem parse_stops_at_bad_type_witness:
  "parse EventHandler_default (wire sample_messages @ replicate 16 99 @ wire sample_messages) () =
   Inr ((), \<lparr>bytes_consumed = 73, messages = 2, malformed = 1, needs_more = False\<rparr>)"
  using parse_stops_at_bad_type [of sample_messages "replicate 16 99" EventHandler_default
      "wire sample_messages" "()"]
  by (simp add: sample_messages_def length_frame_bytes wire_size_defs EventHandler_default_def
      is_valid_msg_type_def)

text \<open>The report of a parse is consistent with any buffer whatsoever: no more is consumed than
  was given, and each counted message or malformed frame took at least a header.\<close>

theorem parse_report_bounds:
  assumes "parse H buf h = Inr (h', r)"
  shows "bytes_consumed r \<le> length buf \<and>
    kHeaderWireSize * (messages r + malformed r) \<le> bytes_consumed r"
proof -
  obtain items c s where sc: "scan 0 buf = (items, c, s)" by (metis prod_cases3)
  with assms parse_eq [OF sc, of H h] have
    r: "r = \<lparr>bytes_consumed = c, messages = deliveries items, malformed = rejections items,
             needs_more = (s = AtPartial)\<rparr>"
    by (auto simp: ebind_eq_Inr_iff)
  have "deliveries items + rejections items = length items"
    by (induction items) (auto simp: deliveries_def rejections_def)
  with r scan_bounds [OF sc] scan_length [OF sc] show ?thesis by simp
qed

theorem parse_report_bounds_witness:
  "\<exists>r. parse EventHandler_default (wire sample_messages) () = Inr ((), r) \<and> bytes_consumed r \<le> 57"
  using parse_report_bounds [of EventHandler_default "wire sample_messages" "()" "()"]
    parse_eq [OF scan_wire [of sample_messages 0 "[]"], of "[]" 57 AtEnd EventHandler_default "()"]
  by (auto simp: sample_messages_def length_frame_bytes wire_size_defs EventHandler_default_def
      scan_Short classify_def)

end
