(* ===== verification/Sequence_Tracker.thy ===== *)
theory Sequence_Tracker
  imports Protocol
begin

text \<open>
  Model of \<^verbatim>\<open>include/mdfh/sequence_tracker.hpp\<close>. Sequence numbers are 32-bit words with
  wrapping arithmetic and unsigned comparison, the counters 64-bit words. An abstract
  tracker over unbounded numbers (\<open>hw_observe\<close>) states what the classification means; the
  code refines it as long as no observed number is \<open>2 ^ 32 - 1\<close>, the one whose successor
  wraps. The remaining lemmas are the counter identities, which hold without that bound,
  and the behaviour at the wrap.
\<close>

section \<open>The tracker\<close>

datatype SeqStatus = InOrder | Duplicate | Gap | OutOfOrder

record SeqStats =
  st_total :: u64
  st_in_order :: u64
  st_duplicates :: u64
  st_out_of_order :: u64
  st_gap_events :: u64
  st_missing :: u64

definition SeqStats_init :: SeqStats where
  "SeqStats_init = \<lparr>st_total = 0, st_in_order = 0, st_duplicates = 0, st_out_of_order = 0,
     st_gap_events = 0, st_missing = 0\<rparr>"

record SequenceTracker =
  initialized :: bool
  next_expected :: Sequence
  last_seq :: Sequence
  stats :: SeqStats

definition SequenceTracker_init :: SequenceTracker where
  "SequenceTracker_init =
     \<lparr>initialized = False, next_expected = 0, last_seq = 0, stats = SeqStats_init\<rparr>"

definition observe :: "Sequence \<Rightarrow> SequenceTracker \<Rightarrow> SeqStatus \<times> SequenceTracker" where
  "observe seq t =
     (let st = (stats t)\<lparr>st_total := st_total (stats t) + 1\<rparr>
      in if \<not> initialized t then
           (InOrder, t\<lparr>initialized := True, next_expected := seq + 1, last_seq := seq,
              stats := st\<lparr>st_in_order := st_in_order st + 1\<rparr>\<rparr>)
         else if seq = next_expected t then
           (InOrder, t\<lparr>next_expected := seq + 1, last_seq := seq,
              stats := st\<lparr>st_in_order := st_in_order st + 1\<rparr>\<rparr>)
         else if seq > next_expected t then
           (Gap, t\<lparr>next_expected := seq + 1, last_seq := seq,
              stats := st\<lparr>st_missing := st_missing st + ucast (seq - next_expected t),
                          st_gap_events := st_gap_events st + 1\<rparr>\<rparr>)
         else if seq = last_seq t then
           (Duplicate, t\<lparr>last_seq := seq,
              stats := st\<lparr>st_duplicates := st_duplicates st + 1\<rparr>\<rparr>)
         else
           (OutOfOrder, t\<lparr>last_seq := seq,
              stats := st\<lparr>st_out_of_order := st_out_of_order st + 1\<rparr>\<rparr>))"

definition reset :: "SequenceTracker \<Rightarrow> SequenceTracker" where
  "reset t = SequenceTracker_init"

text \<open>The delivery policy's reading of a status (\<^verbatim>\<open>FeedHandler::accept\<close> forwards these).\<close>

fun forwards :: "SeqStatus \<Rightarrow> bool" where
  "forwards InOrder = True"
| "forwards Gap = True"
| "forwards Duplicate = False"
| "forwards OutOfOrder = False"

text \<open>A run over the arriving sequence numbers.\<close>

fun observe_all :: "Sequence list \<Rightarrow> SequenceTracker \<Rightarrow> SeqStatus list \<times> SequenceTracker" where
  "observe_all [] t = ([], t)"
| "observe_all (s # ss) t =
     (let (status, t1) = observe s t; (statuses, t2) = observe_all ss t1
      in (status # statuses, t2))"

lemmas observe_cases_simps = observe_def Let_def SequenceTracker_init_def SeqStats_init_def

section \<open>Counter identities\<close>

definition counters_balanced :: "SequenceTracker \<Rightarrow> bool" where
  "counters_balanced t \<longleftrightarrow> st_total (stats t) =
     st_in_order (stats t) + st_duplicates (stats t) + st_out_of_order (stats t) +
     st_gap_events (stats t)"

lemma counters_balanced_init [simp]: "counters_balanced SequenceTracker_init"
  by (simp add: counters_balanced_def observe_cases_simps)

lemma counters_balanced_observe: "counters_balanced t \<Longrightarrow> counters_balanced (snd (observe s t))"
  by (simp add: counters_balanced_def observe_def Let_def)

text \<open>
  The high-water identity: the sequence numbers from the first one up to the next expected
  one are exactly those delivered and those counted missing.
\<close>

definition span_accounted :: "Sequence \<Rightarrow> SequenceTracker \<Rightarrow> bool" where
  "span_accounted first t \<longleftrightarrow> initialized t \<and> next_expected t =
     first + ucast (st_in_order (stats t) + st_gap_events (stats t) + st_missing (stats t))"

lemma span_accounted_first: "span_accounted s (snd (observe s SequenceTracker_init))"
  by (simp add: span_accounted_def observe_cases_simps)

lemma ucast_add_64_32: "(ucast (a + b :: u64) :: u32) = ucast a + ucast b"
proof -
  have "(ucast (a + b) :: u32) = word_of_int (uint (a + b))"
    by simp
  also have "\<dots> = word_of_int (take_bit 64 (uint a + uint b))"
    by (simp add: uint_word_ariths take_bit_eq_mod)
  also have "\<dots> = word_of_int (uint a + uint b)"
    by (simp only: word_of_int_eq_iff) simp
  also have "\<dots> = ucast a + ucast b"
    by simp
  finally show ?thesis .
qed

lemma ucast_32_64_32 [simp]: "(ucast (ucast (a :: u32) :: u64) :: u32) = a"
  by (rule bit_word_eqI) (simp add: bit_simps)

lemma span_accounted_observe:
  "span_accounted first t \<Longrightarrow> span_accounted first (snd (observe s t))"
  by (auto simp: span_accounted_def observe_def Let_def ucast_add_64_32)

lemma observe_all_invariant:
  assumes "\<And>s t. I t \<Longrightarrow> I (snd (observe s t))" and "I t"
  shows "I (snd (observe_all ss t))"
  using assms(2)
  by (induction ss arbitrary: t) (auto simp: split_beta Let_def intro: assms(1))

section \<open>The abstract tracker\<close>

text \<open>
  The classification over unbounded numbers: a high-water mark (one past the largest number
  seen) and the last number. A number is new exactly when it reaches the mark.
\<close>

record hw_state =
  hw_mark :: nat
  hw_last :: nat

definition hw_observe :: "nat \<Rightarrow> hw_state option \<Rightarrow> SeqStatus \<times> hw_state" where
  "hw_observe n h = (case h of
       None \<Rightarrow> (InOrder, \<lparr>hw_mark = n + 1, hw_last = n\<rparr>)
     | Some h \<Rightarrow>
         if n = hw_mark h then (InOrder, \<lparr>hw_mark = n + 1, hw_last = n\<rparr>)
         else if n > hw_mark h then (Gap, \<lparr>hw_mark = n + 1, hw_last = n\<rparr>)
         else if n = hw_last h then (Duplicate, h)
         else (OutOfOrder, h\<lparr>hw_last := n\<rparr>))"

definition hw_abs :: "SequenceTracker \<Rightarrow> hw_state option" where
  "hw_abs t =
     (if initialized t
      then Some \<lparr>hw_mark = unat (next_expected t), hw_last = unat (last_seq t)\<rparr> else None)"

lemma unat_Suc_32: "(s :: u32) \<noteq> - 1 \<Longrightarrow> unat (s + 1) = unat s + 1"
proof -
  assume "s \<noteq> - 1"
  then have "1 + s \<noteq> 0" by (metis add.commute eq_neg_iff_add_eq_0)
  from unatSuc [OF this] show ?thesis by (simp add: add.commute)
qed

lemma observe_refines:
  assumes "s \<noteq> - 1"
  shows "hw_observe (unat s) (hw_abs t) = (st, h) \<Longrightarrow>
    fst (observe s t) = st \<and> hw_abs (snd (observe s t)) = Some h"
  using assms
  by (auto simp: hw_observe_def hw_abs_def observe_def Let_def unat_Suc_32 word_less_nat_alt
      word_unat_eq_iff split: if_splits)

fun hw_observe_all :: "nat list \<Rightarrow> hw_state option \<Rightarrow> SeqStatus list \<times> hw_state option" where
  "hw_observe_all [] h = ([], h)"
| "hw_observe_all (n # ns) h =
     (let (st, h1) = hw_observe n h; (sts, h2) = hw_observe_all ns (Some h1) in (st # sts, h2))"

lemma observe_all_refines:
  "- 1 \<notin> set ss \<Longrightarrow> hw_observe_all (map unat ss) (hw_abs t) =
     (fst (observe_all ss t), hw_abs (snd (observe_all ss t)))"
proof (induction ss arbitrary: t)
  case (Cons s ss)
  obtain st h where h: "hw_observe (unat s) (hw_abs t) = (st, h)" by fastforce
  from Cons.prems have "s \<noteq> - 1" and rest: "- 1 \<notin> set ss" by auto
  from observe_refines [OF this(1) h] Cons.IH [OF rest, of "snd (observe s t)"] h
  show ?case by (auto simp: Let_def split_beta)
qed simp

text \<open>
  What is forwarded in the abstract run: the numbers above everything seen before them
  (the strict left-to-right maxima).
\<close>

fun new_maxima :: "nat option \<Rightarrow> nat list \<Rightarrow> nat list" where
  "new_maxima m [] = []"
| "new_maxima m (n # ns) =
     (case m of
        None \<Rightarrow> n # new_maxima (Some n) ns
      | Some k \<Rightarrow> if k < n then n # new_maxima (Some n) ns else new_maxima (Some k) ns)"

definition delivered :: "'a list \<Rightarrow> SeqStatus list \<Rightarrow> 'a list" where
  "delivered xs sts = map fst (filter (\<lambda>(_, st). forwards st) (zip xs sts))"

lemma delivered_simps [simp]:
  "delivered [] sts = []"
  "delivered (x # xs) (st # sts) = (if forwards st then x # delivered xs sts else delivered xs sts)"
  by (simp_all add: delivered_def)

lemma delivered_map: "delivered (map f xs) sts = map f (delivered xs sts)"
proof (induction xs arbitrary: sts)
  case (Cons x xs)
  then show ?case by (cases sts) (simp_all add: delivered_def)
qed simp

lemma hw_delivered:
  "(case h of None \<Rightarrow> m = None | Some h \<Rightarrow> hw_mark h > 0 \<and> m = Some (hw_mark h - 1)) \<Longrightarrow>
     delivered ns (fst (hw_observe_all ns h)) = new_maxima m ns"
proof (induction ns arbitrary: h m)
  case (Cons n ns)
  obtain st h1 where h1: "hw_observe n h = (st, h1)" by fastforce
  have IH: "hw_mark h1 > 0 \<Longrightarrow> delivered ns (fst (hw_observe_all ns (Some h1))) =
      new_maxima (Some (hw_mark h1 - 1)) ns"
    by (rule Cons.IH) simp
  show ?case
    using Cons.prems h1 IH
    by (auto simp: hw_observe_def Let_def split_beta split: option.splits if_splits)
qed simp

lemma new_maxima_above: "\<forall>n \<in> set (new_maxima (Some k) ns). k < n"
  by (induction ns arbitrary: k) (auto, force+)

lemma sorted_new_maxima: "sorted_wrt (<) (new_maxima m ns)"
proof (induction ns arbitrary: m)
  case (Cons n ns)
  then show ?case
    using new_maxima_above [of n ns] by (auto split: option.split)
qed simp

section \<open>Runs\<close>

lemma observe_contiguous:
  "initialized t \<and> next_expected t = s \<or> t = SequenceTracker_init \<Longrightarrow>
     fst (observe_all (map (\<lambda>i. s + of_nat i) [0..<n]) t) = replicate n InOrder"
proof (induction n arbitrary: s t)
  case (Suc n)
  obtain t1 where t1: "observe s t = (InOrder, t1)" "initialized t1" "next_expected t1 = s + 1"
    using Suc.prems by (auto simp: observe_cases_simps)
  have "map (\<lambda>i. s + of_nat i) [0..<Suc n] = s # map (\<lambda>i. s + 1 + of_nat i) [0..<n]"
    by (simp add: upt_conv_Cons map_Suc_upt [symmetric] del: upt_Suc)
  with Suc.IH [of t1 "s + 1"] t1 show ?case
    by (simp add: Let_def split_beta del: upt_Suc)
qed simp

lemma observe_in_order_stats:
  "fst (observe_all ss t) = replicate (length ss) InOrder \<Longrightarrow>
     stats (snd (observe_all ss t)) = (stats t)\<lparr>st_total := st_total (stats t) + of_nat (length ss),
       st_in_order := st_in_order (stats t) + of_nat (length ss)\<rparr>"
proof (induction ss arbitrary: t)
  case (Cons s ss)
  obtain st t1 where o: "observe s t = (st, t1)" by fastforce
  with Cons.prems have "st = InOrder" "fst (observe_all ss t1) = replicate (length ss) InOrder"
    by (simp_all add: Let_def split_beta)
  moreover from this(1) o have "stats t1 = (stats t)\<lparr>st_total := st_total (stats t) + 1,
      st_in_order := st_in_order (stats t) + 1\<rparr>"
    by (auto simp: observe_def Let_def split: if_splits)
  ultimately show ?case using Cons.IH [of t1] o by (simp add: Let_def split_beta add.assoc)
qed simp

lemma observe_stale:
  "initialized t \<Longrightarrow> \<forall>s \<in> set ss. s < next_expected t \<Longrightarrow>
     (\<forall>st \<in> set (fst (observe_all ss t)). \<not> forwards st) \<and>
     next_expected (snd (observe_all ss t)) = next_expected t"
proof (induction ss arbitrary: t)
  case (Cons s ss)
  obtain st t1 where o: "observe s t = (st, t1)" by fastforce
  with Cons.prems have "\<not> forwards st" "initialized t1" "next_expected t1 = next_expected t"
    by (auto simp: observe_def Let_def split: if_splits)
  with Cons.IH [of t1] Cons.prems o show ?case
    by (simp add: Let_def split_beta)
qed simp

lemma increasing_last: "sorted_wrt (<) (s # ss) \<Longrightarrow> unat s + length ss \<le> unat (last (s # ss) :: u32)"
proof (induction ss arbitrary: s)
  case (Cons s' ss)
  then have "unat s < unat s'" by (simp add: word_less_nat_alt)
  moreover from Cons have "unat s' + length ss \<le> unat (last (s' # ss))" by simp
  ultimately show ?case by simp
qed simp

lemma observe_increasing:
  "initialized t \<Longrightarrow> sorted_wrt (<) ss \<Longrightarrow> \<forall>s \<in> set ss. next_expected t \<le> s \<and> s \<noteq> - 1 \<Longrightarrow>
     (\<forall>st \<in> set (fst (observe_all ss t)). forwards st) \<and>
     st_missing (stats (snd (observe_all ss t))) = st_missing (stats t) +
       (if ss = [] then 0
        else of_nat (unat (last ss) + 1 - unat (next_expected t) - length ss))"
proof (induction ss arbitrary: t)
  case (Cons s ss)
  obtain st t1 where o: "observe s t = (st, t1)" by fastforce
  have le: "next_expected t \<le> s" "s \<noteq> - 1" using Cons.prems(3) by auto
  have "(of_nat (unat s - unat (next_expected t)) :: u64) = ucast (s - next_expected t)"
    by (simp only: of_nat_unat flip: unat_sub [OF le(1)])
  then have t1: "forwards st" "initialized t1" "next_expected t1 = s + 1"
    "st_missing (stats t1) = st_missing (stats t) + of_nat (unat s - unat (next_expected t))"
    using o le(1) Cons.prems(1)
    by (auto simp: observe_def Let_def split: if_splits)
  have above: "\<forall>s' \<in> set ss. next_expected t1 \<le> s' \<and> s' \<noteq> - 1"
    using Cons.prems(2,3) le t1(3) inc_le [of s] by (auto simp: word_less_nat_alt)
  note IH = Cons.IH [OF t1(2) _ above]
  show ?case
  proof (cases "ss = []")
    case True
    with t1 o show ?thesis by (simp add: Let_def)
  next
    case False
    have "unat (next_expected t1) = unat s + 1" using t1(3) le(2) by (simp add: unat_Suc_32)
    moreover have "unat s + length ss \<le> unat (last ss)" "unat (next_expected t) \<le> unat s"
      using increasing_last [of s ss] Cons.prems(2) False le(1) by (simp_all add: word_le_nat_alt)
    ultimately have "(unat s - unat (next_expected t)) +
        (unat (last ss) + 1 - unat (next_expected t1) - length ss) =
        unat (last (s # ss)) + 1 - unat (next_expected t) - length (s # ss)"
      using False by simp
    then have "(of_nat (unat s - unat (next_expected t)) :: u64) +
        of_nat (unat (last ss) + 1 - unat (next_expected t1) - length ss) =
        of_nat (unat (last (s # ss)) + 1 - unat (next_expected t) - length (s # ss))"
      by (simp only: flip: of_nat_add)
    with IH Cons.prems(2) o t1(1,4) False show ?thesis
      by (simp add: Let_def split_beta add.assoc)
  qed
qed simp

section \<open>Properties\<close>

text \<open>From a fresh tracker, the numbers that are delivered are exactly the strict
  left-to-right maxima of the arrivals: every number larger than all before it, once, in
  increasing order; as long as no number is \<open>2 ^ 32 - 1\<close>.\<close>

theorem tracker_delivers_maxima:
  assumes "- 1 \<notin> set ss"
  shows "map unat (delivered ss (fst (observe_all ss SequenceTracker_init))) =
           new_maxima None (map unat ss) \<and>
         sorted_wrt (<) (map unat (delivered ss (fst (observe_all ss SequenceTracker_init))))"
proof -
  have "fst (observe_all ss SequenceTracker_init) = fst (hw_observe_all (map unat ss) None)"
    using observe_all_refines [OF assms, of SequenceTracker_init]
    by (simp add: hw_abs_def SequenceTracker_init_def)
  moreover have "delivered (map unat ss) (fst (hw_observe_all (map unat ss) None)) =
      new_maxima None (map unat ss)"
    by (rule hw_delivered) simp
  ultimately show ?thesis by (simp add: sorted_new_maxima flip: delivered_map)
qed

theorem tracker_delivers_maxima_witness:
  "map unat (delivered [5, 7, 6, 7, 8 :: Sequence] (fst (observe_all [5, 7, 6, 7, 8] SequenceTracker_init)))
     = [5, 7, 8]"
  using tracker_delivers_maxima [of "[5, 7, 6, 7, 8]"] by simp

text \<open>C32. Whatever numbers arrive, the counters add up: the total is the number of arrivals
  and the sum of the four classes, and the numbers from the first arrival up to the next
  expected one are those delivered plus those counted missing (modulo the counter widths).\<close>

theorem tracker_counters:
  "let t = snd (observe_all ss SequenceTracker_init); st = stats t in
     st_total st = of_nat (length ss) \<and>
     st_total st = st_in_order st + st_duplicates st + st_out_of_order st + st_gap_events st \<and>
     (case ss of [] \<Rightarrow> \<not> initialized t
      | s # _ \<Rightarrow> initialized t \<and> next_expected t =
          s + ucast (st_in_order st + st_gap_events st + st_missing st))"
proof -
  have total: "st_total (stats (snd (observe_all ss t))) = st_total (stats t) + of_nat (length ss)" for t
  proof (induction ss arbitrary: t)
    case (Cons s ss)
    have "st_total (stats (snd (observe s t))) = st_total (stats t) + 1"
      by (simp add: observe_def Let_def)
    with Cons show ?case by (simp add: Let_def split_beta)
  qed simp
  have "counters_balanced (snd (observe_all ss SequenceTracker_init))"
    by (rule observe_all_invariant [where I = counters_balanced])
      (simp_all add: counters_balanced_observe)
  moreover have "span_accounted s (snd (observe_all (s # ss') SequenceTracker_init))" for s ss'
    using observe_all_invariant [where I = "span_accounted s", of "snd (observe s SequenceTracker_init)" ss']
    by (simp add: Let_def split_beta span_accounted_observe span_accounted_first)
  ultimately show ?thesis
    using total [of SequenceTracker_init]
    by (auto simp: Let_def counters_balanced_def span_accounted_def SequenceTracker_init_def
        SeqStats_init_def simp del: observe_all.simps(2) split: list.split)
qed

text \<open>A gap-free feed is never reported as anything but in order, from any starting number
  and across the wrap of the 32-bit sequence.\<close>

theorem tracker_contiguous_in_order:
  "fst (observe_all (map (\<lambda>i. s + of_nat i) [0..<n]) SequenceTracker_init) = replicate n InOrder"
  by (rule observe_contiguous) simp

text \<open>Nothing below the next expected number is ever delivered, and it does not move the
  mark: replays are dropped. The same holds after a loss that straddles the wrap, where every
  later message stays below the mark and is dropped too.\<close>

theorem tracker_stale_dropped:
  assumes "initialized t" and "\<forall>s \<in> set ss. s < next_expected t"
  shows "delivered ss (fst (observe_all ss t)) = [] \<and>
    next_expected (snd (observe_all ss t)) = next_expected t"
proof -
  have "delivered xs sts = []" if "\<forall>st \<in> set sts. \<not> forwards st" for xs :: "Sequence list" and sts
    using that by (auto simp: delivered_def filter_empty_conv dest: set_zip_rightD)
  with observe_stale [OF assms] show ?thesis by blast
qed

definition wrapped_tracker :: SequenceTracker where
  "wrapped_tracker = snd (observe (- 2) SequenceTracker_init)"

theorem tracker_stale_dropped_witness:
  "delivered [0, 1, 2, 3] (fst (observe_all [0, 1, 2, 3] wrapped_tracker)) = [] \<and>
    next_expected (snd (observe_all [0, 1, 2, 3] wrapped_tracker)) = - 1"
  using tracker_stale_dropped [of wrapped_tracker "[0, 1, 2, 3]"]
  by (simp add: wrapped_tracker_def observe_cases_simps)

text \<open>On a feed that only loses messages (increasing numbers), everything that arrives is
  delivered and the missing count is exactly the number of lost messages since the first.\<close>

theorem tracker_counts_losses:
  assumes "sorted_wrt (<) (s # ss)" and "- 1 \<notin> set (s # ss)"
  shows "delivered (s # ss) (fst (observe_all (s # ss) SequenceTracker_init)) = s # ss \<and>
    st_missing (stats (snd (observe_all (s # ss) SequenceTracker_init))) =
      of_nat (unat (last (s # ss)) + 1 - unat s - length (s # ss))"
proof -
  obtain t where t: "observe s SequenceTracker_init = (InOrder, t)" "initialized t"
    "next_expected t = s + 1" "st_missing (stats t) = 0"
    by (simp add: observe_cases_simps)
  have "s \<noteq> - 1" using assms(2) by auto
  then have above: "\<forall>s' \<in> set ss. next_expected t \<le> s' \<and> s' \<noteq> - 1"
    using assms t(3) inc_le [of s] by auto
  from assms(1) have "sorted_wrt (<) ss" by simp
  note run = observe_increasing [OF t(2) this above]
  have all: "delivered xs sts = xs" if "\<forall>st \<in> set sts. forwards st" "length sts = length xs"
    for xs :: "Sequence list" and sts
    using that by (induction xs arbitrary: sts) (auto simp: length_Suc_conv delivered_def)
  have "length (fst (observe_all ss t)) = length ss" for ss t
    by (induction ss arbitrary: t) (simp_all add: Let_def split_beta)
  with all run have "delivered ss (fst (observe_all ss t)) = ss" by blast
  moreover have "unat (s + 1) = unat s + 1" using \<open>s \<noteq> - 1\<close> by (rule unat_Suc_32)
  ultimately show ?thesis
    using run t by (simp add: Let_def split_beta)
qed

theorem tracker_counts_losses_witness:
  "st_missing (stats (snd (observe_all [10, 11, 15, 16, 20] SequenceTracker_init))) = 6"
  using tracker_counts_losses [of 10 "[11, 15, 16, 20]"] by simp

end
