(* ===== verification/Feed_Handler.thy ===== *)
theory Feed_Handler
  imports Parser Sequence_Tracker
begin

text \<open>
  Model of \<^verbatim>\<open>include/mdfh/feed_handler.hpp\<close>. A \<open>FeedHandler\<close> record holds the downstream
  handler's state beside the tracker, the residual bytes and the counters; \<open>fh_handler\<close> is
  the feed handler as a \<^verbatim>\<open>HandlerLike\<close> of its own, which is what \<open>consume\<close> and
  \<open>consume_datagram\<close> give to the parser. The lemmas reduce both entry points to the scan of
  the buffer (\<open>consume_eq\<close>), show that the downstream handler sees exactly the admitted items
  (\<open>run_feed_eq\<close>), that the contract of the downstream handler lifts to the feed handler, and
  that the cut of a stream into segments does not matter (\<open>consume_all_eq\<close>).
\<close>

section \<open>The feed handler\<close>

record 'd FeedHandler =
  down :: 'd
  seq_tracker :: SequenceTracker
  residual :: "byte list"
  forwarded :: u64
  dropped :: u64
  fh_malformed :: u64

definition FeedHandler_init :: "'d \<Rightarrow> 'd FeedHandler" where
  "FeedHandler_init d =
     \<lparr>down = d, seq_tracker = SequenceTracker_init, residual = [], forwarded = 0, dropped = 0,
      fh_malformed = 0\<rparr>"

definition accept :: "Sequence \<Rightarrow> 'd FeedHandler \<Rightarrow> bool \<times> 'd FeedHandler" where
  "accept seq f =
     (let (status, t) = observe seq (seq_tracker f); f = f\<lparr>seq_tracker := t\<rparr>
      in case status of
           InOrder \<Rightarrow> (True, f\<lparr>forwarded := forwarded f + 1\<rparr>)
         | Gap \<Rightarrow> (True, f\<lparr>forwarded := forwarded f + 1\<rparr>)
         | Duplicate \<Rightarrow> (False, f\<lparr>dropped := dropped f + 1\<rparr>)
         | OutOfOrder \<Rightarrow> (False, f\<lparr>dropped := dropped f + 1\<rparr>))"

text \<open>The body shared by the six callbacks: \<^verbatim>\<open>if (accept(h.sequence)) down_.on_...(h, m)\<close>.\<close>

definition forward :: "MessageHeader \<Rightarrow> ('d \<Rightarrow> 'd exec) \<Rightarrow> 'd FeedHandler \<Rightarrow> 'd FeedHandler exec" where
  "forward hdr call f =
     (let (ok, f) = accept (hdr_sequence hdr) f
      in if ok then ebind (call (down f)) (\<lambda>d. Inr (f\<lparr>down := d\<rparr>)) else Inr f)"

definition fh_handler :: "'d Handler \<Rightarrow> 'd FeedHandler Handler" where
  "fh_handler H =
     \<lparr>on_add_order = (\<lambda>hdr m. forward hdr (on_add_order H hdr m)),
      on_cancel_order = (\<lambda>hdr m. forward hdr (on_cancel_order H hdr m)),
      on_modify_order = (\<lambda>hdr m. forward hdr (on_modify_order H hdr m)),
      on_trade = (\<lambda>hdr m. forward hdr (on_trade H hdr m)),
      on_snapshot = (\<lambda>hdr m. forward hdr (on_snapshot H hdr m)),
      on_heartbeat = (\<lambda>hdr. forward hdr (on_heartbeat H hdr)),
      on_malformed = (\<lambda>off f. ebind (on_malformed H off (down f)) (\<lambda>d. Inr (f\<lparr>down := d\<rparr>)))\<rparr>"

definition accumulate :: "ParseResult \<Rightarrow> 'd FeedHandler \<Rightarrow> 'd FeedHandler" where
  "accumulate r f = f\<lparr>fh_malformed := fh_malformed f + of_nat (malformed r)\<rparr>"

definition consume ::
  "'d Handler \<Rightarrow> byte list \<Rightarrow> 'd FeedHandler \<Rightarrow> ('d FeedHandler \<times> ParseResult) exec" where
  "consume H bytes f =
     (if residual f = [] then
        ebind (parse (fh_handler H) bytes f) (\<lambda>(f, r).
        ebind (if bytes_consumed r < length bytes
               then ebind (subspan_from bytes (bytes_consumed r)) (\<lambda>tail. Inr (f\<lparr>residual := tail\<rparr>))
               else Inr f) (\<lambda>f.
        Inr (accumulate r f, r)))
      else
        (let f = f\<lparr>residual := residual f @ bytes\<rparr>
         in ebind (parse (fh_handler H) (residual f) f) (\<lambda>(f, r).
            ebind (subspan_from (residual f) (bytes_consumed r)) (\<lambda>rest.
            Inr (accumulate r (f\<lparr>residual := rest\<rparr>), r)))))"

definition consume_datagram ::
  "'d Handler \<Rightarrow> byte list \<Rightarrow> 'd FeedHandler \<Rightarrow> ('d FeedHandler \<times> ParseResult) exec" where
  "consume_datagram H bytes f =
     ebind (parse (fh_handler H) bytes f) (\<lambda>(f, r). Inr (accumulate r f, r))"

text \<open>\<^verbatim>\<open>pending_bytes\<close> and the stream as the applications feed it, segment by segment.\<close>

definition pending_bytes :: "'d FeedHandler \<Rightarrow> nat" where
  "pending_bytes f = length (residual f)"

fun consume_all ::
  "'d Handler \<Rightarrow> byte list list \<Rightarrow> 'd FeedHandler \<Rightarrow> 'd FeedHandler exec" where
  "consume_all H [] f = Inr f"
| "consume_all H (seg # segs) f = ebind (consume H seg f) (\<lambda>(f, r). consume_all H segs f)"

section \<open>The callbacks\<close>

lemma accept_eq:
  "accept s f = (let (st, t) = observe s (seq_tracker f) in
     if forwards st then (True, f\<lparr>seq_tracker := t, forwarded := forwarded f + 1\<rparr>)
     else (False, f\<lparr>seq_tracker := t, dropped := dropped f + 1\<rparr>))"
  by (cases "fst (observe s (seq_tracker f))")
    (auto simp: accept_def Let_def split_beta)

lemma on_body_fun:
  "on_body H hdr (BodyAdd a) = on_add_order H hdr a"
  "on_body H hdr (BodyCancel c) = on_cancel_order H hdr c"
  "on_body H hdr (BodyModify m) = on_modify_order H hdr m"
  "on_body H hdr (BodyTrade t) = on_trade H hdr t"
  "on_body H hdr (BodySnapshot s) = on_snapshot H hdr s"
  "on_body H hdr BodyHeartbeat = on_heartbeat H hdr"
  by (simp_all add: fun_eq_iff)

lemma on_body_fh: "on_body (fh_handler H) hdr body = forward hdr (on_body H hdr body)"
  by (cases body) (simp_all add: on_body_fun fh_handler_def)

lemma on_malformed_fh:
  "on_malformed (fh_handler H) off f = ebind (on_malformed H off (down f)) (\<lambda>d. Inr (f\<lparr>down := d\<rparr>))"
  by (simp add: fh_handler_def)

text \<open>The callbacks neither read nor write the residual bytes and the malformed counter.\<close>

definition with_buffer :: "byte list \<Rightarrow> u64 \<Rightarrow> 'd FeedHandler \<Rightarrow> 'd FeedHandler" where
  "with_buffer buf n f = f\<lparr>residual := buf, fh_malformed := n\<rparr>"

lemma with_buffer_fields [simp]:
  "residual (with_buffer b n f) = b" "fh_malformed (with_buffer b n f) = n"
  "down (with_buffer b n f) = down f" "seq_tracker (with_buffer b n f) = seq_tracker f"
  "forwarded (with_buffer b n f) = forwarded f" "dropped (with_buffer b n f) = dropped f"
  by (simp_all add: with_buffer_def)

lemma with_buffer_update [simp]:
  "with_buffer b n (f\<lparr>down := d\<rparr>) = (with_buffer b n f)\<lparr>down := d\<rparr>"
  "with_buffer b n (f\<lparr>seq_tracker := t\<rparr>) = (with_buffer b n f)\<lparr>seq_tracker := t\<rparr>"
  "with_buffer b n (f\<lparr>forwarded := k\<rparr>) = (with_buffer b n f)\<lparr>forwarded := k\<rparr>"
  "with_buffer b n (f\<lparr>dropped := k\<rparr>) = (with_buffer b n f)\<lparr>dropped := k\<rparr>"
  by (simp_all add: with_buffer_def)

lemma on_item_with_buffer:
  "on_item (fh_handler H) i (with_buffer buf n f) =
     ebind (on_item (fh_handler H) i f) (\<lambda>f. Inr (with_buffer buf n f))"
  by (cases i)
    (simp_all add: on_body_fh on_malformed_fh forward_def accept_eq Let_def
      split_beta ebind_assoc)

lemma run_items_with_buffer:
  "run_items (fh_handler H) is (with_buffer buf n f) =
     ebind (run_items (fh_handler H) is f) (\<lambda>f. Inr (with_buffer buf n f))"
proof (induction "is" arbitrary: f)
  case (Cons i "is")
  then show ?case by (simp add: on_item_with_buffer ebind_assoc)
qed simp

lemma with_buffer_same [simp]: "with_buffer (residual f) (fh_malformed f) f = f"
  by (simp add: with_buffer_def)

lemma with_buffer_twice [simp]: "with_buffer b n (with_buffer b' n' f) = with_buffer b n f"
  by (simp add: with_buffer_def)

lemma with_buffer_residual [simp]: "(with_buffer b n f)\<lparr>residual := x\<rparr> = with_buffer x n f"
  "(with_buffer b n f)\<lparr>fh_malformed := k\<rparr> = with_buffer b k f"
  by (simp_all add: with_buffer_def)

lemma run_items_buffer:
  assumes "run_items (fh_handler H) is f = Inr f'"
  shows "residual f' = residual f \<and> fh_malformed f' = fh_malformed f"
proof -
  have "Inr f' = ebind (Inr f') (\<lambda>f'. Inr (with_buffer (residual f) (fh_malformed f) f'))"
    using run_items_with_buffer [of H "is" "residual f" "fh_malformed f" f] assms by simp
  then have "f' = with_buffer (residual f) (fh_malformed f) f'" by simp
  then show ?thesis by (metis with_buffer_fields(1,2))
qed

section \<open>The entry points, by the scan of the buffer\<close>

lemma consume_eq:
  assumes "scan 0 (residual f @ bytes) = (items, c, s)"
  shows "consume H bytes f =
    ebind (run_items (fh_handler H) items f) (\<lambda>f'.
      Inr (with_buffer (drop c (residual f @ bytes)) (fh_malformed f + of_nat (rejections items)) f',
           \<lparr>bytes_consumed = c, messages = deliveries items, malformed = rejections items,
            needs_more = (s = AtPartial)\<rparr>))"
proof (cases "residual f = []")
  case True
  from scan_bounds [OF assms] have c: "c \<le> length bytes" using True by simp
  note p = parse_eq [OF assms, of "fh_handler H" f]
  show ?thesis
  proof (cases "run_items (fh_handler H) items f")
    case (Inl e)
    with p True show ?thesis by (simp add: consume_def)
  next
    case (Inr f')
    from run_items_buffer [OF this] have "residual f' = []" "fh_malformed f' = fh_malformed f"
      using True by simp_all
    with p True Inr c show ?thesis
      by (cases "c = length bytes") (simp_all add: consume_def accumulate_def with_buffer_def)
  qed
next
  case False
  let ?buf = "residual f @ bytes"
  have up: "f\<lparr>residual := ?buf\<rparr> = with_buffer ?buf (fh_malformed f) f"
    by (simp add: with_buffer_def)
  from scan_bounds [OF assms] have c: "c \<le> length ?buf" by simp
  note p = parse_eq [OF assms, of "fh_handler H" "with_buffer ?buf (fh_malformed f) f"]
  show ?thesis
  proof (cases "run_items (fh_handler H) items f")
    case (Inl e)
    with p False show ?thesis by (simp add: consume_def Let_def up run_items_with_buffer)
  next
    case (Inr f')
    with p False c show ?thesis
      by (simp add: consume_def Let_def up run_items_with_buffer accumulate_def)
  qed
qed

lemma consume_InrE:
  assumes "consume H bytes f = Inr (f', r)" and "scan 0 (residual f @ bytes) = (items, c, s)"
  obtains g where "run_items (fh_handler H) items f = Inr g"
    and "f' = with_buffer (drop c (residual f @ bytes)) (fh_malformed f + of_nat (rejections items)) g"
    and "r = \<lparr>bytes_consumed = c, messages = deliveries items, malformed = rejections items,
              needs_more = (s = AtPartial)\<rparr>"
  using assms(1) unfolding consume_eq [OF assms(2)] ebind_eq_Inr_iff by auto

lemma consume_datagram_eq:
  assumes "scan 0 bytes = (items, c, s)"
  shows "consume_datagram H bytes f =
    ebind (run_items (fh_handler H) items f) (\<lambda>f'.
      Inr (f'\<lparr>fh_malformed := fh_malformed f' + of_nat (rejections items)\<rparr>,
           \<lparr>bytes_consumed = c, messages = deliveries items, malformed = rejections items,
            needs_more = (s = AtPartial)\<rparr>))"
  by (simp add: consume_datagram_def parse_eq [OF assms] ebind_assoc accumulate_def)

section \<open>What reaches the downstream handler\<close>

text \<open>
  The items the tracker admits: every rejection, and each delivery whose sequence number is
  in order or past a gap.
\<close>

fun admit :: "Item list \<Rightarrow> SequenceTracker \<Rightarrow> Item list \<times> SequenceTracker" where
  "admit [] t = ([], t)"
| "admit (Reject off # is) t = (let (js, t') = admit is t in (Reject off # js, t'))"
| "admit (Deliver hdr body # is) t =
     (let (st, t1) = observe (hdr_sequence hdr) t; (js, t2) = admit is t1
      in (if forwards st then Deliver hdr body # js else js, t2))"

lemma run_feed_eq:
  "run_items (fh_handler H) is f =
     (let (js, t) = admit is (seq_tracker f)
      in ebind (run_items H js (down f)) (\<lambda>d.
           Inr (f\<lparr>down := d, seq_tracker := t,
                  forwarded := forwarded f + of_nat (deliveries js),
                  dropped := dropped f + of_nat (deliveries is) - of_nat (deliveries js)\<rparr>)))"
proof (induction "is" "seq_tracker f" arbitrary: f rule: admit.induct)
  case 1
  show ?case by simp
next
  case (2 off "is" f)
  then have IH: "run_items (fh_handler H) is (f\<lparr>down := d\<rparr>) =
     (let (js, t) = admit is (seq_tracker f)
      in ebind (run_items H js d) (\<lambda>d.
           Inr (f\<lparr>down := d, seq_tracker := t,
                  forwarded := forwarded f + of_nat (deliveries js),
                  dropped := dropped f + of_nat (deliveries is) - of_nat (deliveries js)\<rparr>)))" for d
    using "2.hyps" [of "f\<lparr>down := d\<rparr>"] by simp
  show ?case
    by (cases "on_malformed H off (down f)")
      (simp_all add: on_malformed_fh IH Let_def split_beta)
next
  case (3 hdr body "is" f)
  obtain st t1 where o: "observe (hdr_sequence hdr) (seq_tracker f) = (st, t1)" by fastforce
  have IH: "seq_tracker g = t1 \<Longrightarrow> run_items (fh_handler H) is g =
     (let (js, t) = admit is t1
      in ebind (run_items H js (down g)) (\<lambda>d.
           Inr (g\<lparr>down := d, seq_tracker := t,
                  forwarded := forwarded g + of_nat (deliveries js),
                  dropped := dropped g + of_nat (deliveries is) - of_nat (deliveries js)\<rparr>)))" for g
    using "3.hyps" [OF refl, of st g] o by auto
  show ?case
  proof (cases "forwards st")
    case True
    then show ?thesis
      by (cases "on_body H hdr body (down f)")
        (simp_all add: on_body_fh forward_def accept_eq o IH Let_def split_beta algebra_simps)
  next
    case False
    then show ?thesis
      by (simp add: on_body_fh forward_def accept_eq o IH Let_def split_beta algebra_simps)
  qed
qed

text \<open>The feed handler's counters are those of its tracker.\<close>

definition feed_counted :: "'d FeedHandler \<Rightarrow> bool" where
  "feed_counted f \<longleftrightarrow>
     forwarded f = st_in_order (stats (seq_tracker f)) + st_gap_events (stats (seq_tracker f)) \<and>
     dropped f = st_duplicates (stats (seq_tracker f)) + st_out_of_order (stats (seq_tracker f))"

lemma feed_counted_init [simp]: "feed_counted (FeedHandler_init d)"
  by (simp add: feed_counted_def FeedHandler_init_def observe_cases_simps)

lemma feed_counted_accept: "feed_counted f \<Longrightarrow> feed_counted (snd (accept s f))"
  by (auto simp: feed_counted_def accept_eq observe_def Let_def split: if_splits)

lemma feed_counted_item:
  assumes "feed_counted f" and "on_item (fh_handler H) i f = Inr f'"
  shows "feed_counted f'"
proof (cases i)
  case (Deliver hdr body)
  obtain ok g where g: "accept (hdr_sequence hdr) f = (ok, g)" by fastforce
  with feed_counted_accept [OF assms(1), of "hdr_sequence hdr"] have "feed_counted g" by simp
  with assms(2) Deliver g show ?thesis
    by (auto simp: on_body_fh forward_def ebind_eq_Inr_iff feed_counted_def split: if_splits)
next
  case (Reject off)
  with assms show ?thesis by (auto simp: on_malformed_fh ebind_eq_Inr_iff feed_counted_def)
qed

lemma feed_counted_run:
  "feed_counted f \<Longrightarrow> run_items (fh_handler H) is f = Inr f' \<Longrightarrow> feed_counted f'"
  by (induction "is" arbitrary: f) (auto simp: ebind_eq_Inr_iff dest: feed_counted_item)

section \<open>The contract lifts\<close>

context handler
begin

lemma forward_safe:
  assumes "Inv (down f)" and "body_ok body"
  shows "\<exists>f'. forward hdr (on_body H hdr body) f = Inr f' \<and> Inv (down f')"
proof -
  obtain ok g where g: "accept (hdr_sequence hdr) f = (ok, g)" by fastforce
  then have "down g = down f"
    by (auto simp: accept_eq Let_def split_beta split: if_splits)
  with body_safe [of "down f" body hdr] assms g show ?thesis
    by (auto simp: forward_def)
qed

lemma feed_handler: "handler (fh_handler H) (\<lambda>f. Inv (down f))"
proof
  fix f :: "'h FeedHandler" and body hdr
  assume "Inv (down f)" and "body_ok body"
  then show "\<exists>f'. on_body (fh_handler H) hdr body f = Inr f' \<and> Inv (down f')"
    by (simp add: on_body_fh forward_safe)
next
  fix f :: "'h FeedHandler" and off
  assume "Inv (down f)"
  with malformed_safe [of "down f" off]
  show "\<exists>f'. on_malformed (fh_handler H) off f = Inr f' \<and> Inv (down f')"
    by (auto simp: on_malformed_fh)
qed

text \<open>Neither entry point can fault, whatever bytes arrive in whatever state.\<close>

lemma consume_safe:
  assumes "Inv (down f)"
  shows "\<exists>f' r. consume H bytes f = Inr (f', r) \<and> Inv (down f')"
proof -
  obtain items c s where sc: "scan 0 (residual f @ bytes) = (items, c, s)" by (metis prod_cases3)
  from handler.run_safe [OF feed_handler assms scan_item_ok [OF sc]] obtain f' where
    "run_items (fh_handler H) items f = Inr f'" "Inv (down f')" by blast
  with consume_eq [OF sc, of H] show ?thesis by simp
qed

lemma consume_datagram_safe:
  assumes "Inv (down f)"
  shows "\<exists>f' r. consume_datagram H bytes f = Inr (f', r) \<and> Inv (down f')"
proof -
  obtain items c s where sc: "scan 0 bytes = (items, c, s)" by (metis prod_cases3)
  from handler.run_safe [OF feed_handler assms scan_item_ok [OF sc]] obtain f' where
    "run_items (fh_handler H) items f = Inr f'" "Inv (down f')" by blast
  with consume_datagram_eq [OF sc, of H f] show ?thesis by simp
qed

lemma consume_all_safe:
  "Inv (down f) \<Longrightarrow> \<exists>f'. consume_all H segs f = Inr f' \<and> Inv (down f')"
proof (induction segs arbitrary: f)
  case (Cons seg segs)
  from consume_safe [OF Cons.prems, of seg] obtain f1 r where
    "consume H seg f = Inr (f1, r)" "Inv (down f1)" by blast
  with Cons.IH [of f1] show ?case by simp
qed simp

end

section \<open>Segments\<close>

text \<open>
  Bytes from which nothing more can be parsed: where a scan that met no bad header leaves
  the residual buffer.
\<close>

definition settled :: "byte list \<Rightarrow> bool" where
  "settled buf \<longleftrightarrow> classify buf = Short \<or> classify buf = Partial"

lemma settled_Nil [simp]: "settled []"
  by (simp add: settled_def classify_def kHeaderWireSize_def)

lemma settled_scan: "settled buf \<Longrightarrow> \<exists>s. scan off buf = ([], off, s)"
  by (auto simp: settled_def scan_Short scan_Partial)

lemma scan_settled:
  "scan off buf = (items, c, s) \<Longrightarrow> s \<noteq> AtBadHeader \<Longrightarrow> settled (drop (c - off) buf)"
proof (induction "length buf" arbitrary: off buf items rule: less_induct)
  case less
  from less.prems(1) show ?case
  proof (cases rule: scan_cases)
    case (Mismatch n is')
    with less.hyps [of "drop n buf" "off + n" is'] less.prems(2) scan_bounds [OF Mismatch(3)]
    show ?thesis by simp
  next
    case (Framed hdr body n is')
    with less.hyps [of "drop n buf" "off + n" is'] less.prems(2) scan_bounds [OF Framed(3)]
    show ?thesis by simp
  qed (use less.prems in \<open>simp_all add: settled_def\<close>)
qed

text \<open>A stream with a bad header in its prefix has one itself.\<close>

lemma scan_prefix_no_bad:
  assumes "scan 0 (buf @ rest) = (items, c, s)" and "s \<noteq> AtBadHeader"
    and "scan 0 buf = (items1, c1, s1)"
  shows "s1 \<noteq> AtBadHeader"
  using scan_append_BadHeader [of 0 buf items1 c1 rest] assms by auto

lemma same_item_rejections: "list_all2 same_item is js \<Longrightarrow> rejections is = rejections js"
proof (induction rule: list_all2_induct)
  case (Cons i "is" j js)
  then show ?case by (cases i; cases j) (auto simp: same_item_def)
qed simp

lemma rejections_append: "rejections (is @ js) = rejections is + rejections js"
  by (simp add: rejections_def)

lemma deliveries_append: "deliveries (is @ js) = deliveries is + deliveries js"
  by (simp add: deliveries_def)

context offset_blind
begin

lemma feed_offset_blind: "offset_blind (fh_handler H) (\<lambda>f. Inv (down f))"
  by (intro offset_blind.intro offset_blind_axioms.intro feed_handler)
    (simp only: on_malformed_fh, subst offset_irrelevant, rule refl)

text \<open>
  Feeding a stream segment by segment runs the items of the whole stream, however it was
  cut, provided the stream holds no bad header.
\<close>

lemma consume_all_eq:
  "scan 0 (residual f @ concat segs) = (items, c, s) \<Longrightarrow> s \<noteq> AtBadHeader \<Longrightarrow>
   settled (residual f) \<Longrightarrow>
     consume_all H segs f =
       ebind (run_items (fh_handler H) items f) (\<lambda>f'.
         Inr (with_buffer (drop c (residual f @ concat segs))
               (fh_malformed f + of_nat (rejections items)) f'))"
proof (induction segs arbitrary: f items c)
  case Nil
  from settled_scan [OF Nil.prems(3), of 0] Nil.prems(1) have "items = []" "c = 0" by auto
  then show ?case by simp
next
  case (Cons seg segs)
  let ?buf = "residual f @ seg"
  obtain items1 c1 s1 where sc1: "scan 0 ?buf = (items1, c1, s1)" by (metis prod_cases3)
  have ok1: "s1 \<noteq> AtBadHeader"
    using scan_prefix_no_bad [of ?buf "concat segs"] Cons.prems(1,2) sc1 by simp
  obtain items2 c2 s2 where sc2: "scan c1 (drop c1 ?buf @ concat segs) = (items2, c2, s2)"
    by (metis prod_cases3)
  from scan_append [OF sc1 ok1, of "concat segs"] sc2 Cons.prems(1)
  have items: "items = items1 @ items2" and c: "c2 = c" and s: "s2 = s" by simp_all
  from scan_shift [OF sc2, of 0] obtain items2' where
    sc2': "scan 0 (drop c1 ?buf @ concat segs) = (items2', c - c1, s)"
    and same: "list_all2 same_item items2 items2'"
    using c s by auto
  have run2: "run_items (fh_handler H) items2 g = run_items (fh_handler H) items2' g" for g
    by (rule offset_blind.same_item_run [OF feed_offset_blind same])
  from scan_bounds [OF sc1] scan_bounds [OF sc2] c
  have bounds: "c1 \<le> c" "c1 \<le> length ?buf" by simp_all
  have rest: "drop (c - c1) (drop c1 ?buf @ concat segs) = drop c (?buf @ concat segs)"
  proof -
    have "drop c1 ?buf @ concat segs = drop c1 (?buf @ concat segs)"
      using bounds(2) by simp
    then show ?thesis using bounds(1) by (simp only: drop_drop le_add_diff_inverse2)
  qed
  show ?case
  proof (cases "run_items (fh_handler H) items1 f")
    case (Inl e)
    then show ?thesis by (simp add: consume_eq [OF sc1] items run_items_append)
  next
    case (Inr f1)
    let ?f1 = "with_buffer (drop c1 ?buf) (fh_malformed f + of_nat (rejections items1)) f1"
    have "consume_all H segs ?f1 =
      ebind (run_items (fh_handler H) items2' ?f1) (\<lambda>f'.
        Inr (with_buffer (drop c (?buf @ concat segs))
              (fh_malformed ?f1 + of_nat (rejections items2')) f'))"
    proof -
      have "settled (residual ?f1)" using scan_settled [OF sc1 ok1] by simp
      with Cons.IH [of ?f1 items2' "c - c1"] sc2' Cons.prems(2) show ?thesis
        by (simp add: rest del: drop_append append_assoc)
    qed
    with Inr show ?thesis
      by (simp add: consume_eq [OF sc1] items run_items_append run_items_with_buffer ebind_assoc
          run2 same_item_rejections [OF same] rejections_append add.assoc del: drop_append)
  qed
qed

end

section \<open>Properties\<close>

lemma balanced_accept:
  "counters_balanced (seq_tracker f) \<Longrightarrow> counters_balanced (seq_tracker (snd (accept s f)))"
  by (auto simp: accept_eq Let_def split_beta counters_balanced_observe)

lemma balanced_item:
  assumes "counters_balanced (seq_tracker f)" and "on_item (fh_handler H) i f = Inr f'"
  shows "counters_balanced (seq_tracker f')"
proof (cases i)
  case (Deliver hdr body)
  obtain ok g where g: "accept (hdr_sequence hdr) f = (ok, g)" by fastforce
  with balanced_accept [OF assms(1), of "hdr_sequence hdr"]
  have "counters_balanced (seq_tracker g)" by simp
  with assms(2) Deliver g show ?thesis
    by (auto simp: on_body_fh forward_def ebind_eq_Inr_iff split: if_splits)
next
  case (Reject off)
  with assms show ?thesis by (auto simp: on_malformed_fh ebind_eq_Inr_iff)
qed

lemma balanced_run:
  "counters_balanced (seq_tracker f) \<Longrightarrow> run_items (fh_handler H) is f = Inr f' \<Longrightarrow>
     counters_balanced (seq_tracker f')"
  by (induction "is" arbitrary: f) (auto simp: ebind_eq_Inr_iff dest: balanced_item)

lemma feed_counted_with_buffer [simp]: "feed_counted (with_buffer b n f) = feed_counted f"
  by (simp add: feed_counted_def)

lemma consume_counted:
  assumes "feed_counted f \<and> counters_balanced (seq_tracker f)" and "consume H bytes f = Inr (f', r)"
  shows "feed_counted f' \<and> counters_balanced (seq_tracker f')"
proof -
  obtain items c s where sc: "scan 0 (residual f @ bytes) = (items, c, s)" by (metis prod_cases3)
  from assms(2) sc obtain g where "run_items (fh_handler H) items f = Inr g"
    "f' = with_buffer (drop c (residual f @ bytes)) (fh_malformed f + of_nat (rejections items)) g"
    by (rule consume_InrE)
  with assms(1) show ?thesis by (auto dest: feed_counted_run balanced_run)
qed

text \<open>After any byte stream in any segments through any downstream handler, every message is
  accounted for: the forwarded ones are those in order or past a gap, the dropped ones the
  duplicates and the late ones, and the two add up to the messages observed.\<close>

theorem feed_counters:
  assumes "consume_all H segs (FeedHandler_init d) = Inr f"
  shows "let st = stats (seq_tracker f) in
    forwarded f = st_in_order st + st_gap_events st \<and>
    dropped f = st_duplicates st + st_out_of_order st \<and>
    forwarded f + dropped f = st_total st"
proof -
  have run: "consume_all H segs f0 = Inr f \<Longrightarrow> feed_counted f0 \<and> counters_balanced (seq_tracker f0) \<Longrightarrow>
      feed_counted f \<and> counters_balanced (seq_tracker f)" for f0
  proof (induction segs arbitrary: f0)
    case (Cons seg segs)
    then obtain f1 r where "consume H seg f0 = Inr (f1, r)" "consume_all H segs f1 = Inr f"
      by (auto simp: ebind_eq_Inr_iff)
    with Cons consume_counted show ?case by blast
  qed simp
  have "feed_counted (FeedHandler_init d) \<and> counters_balanced (seq_tracker (FeedHandler_init d))"
    by (simp add: FeedHandler_init_def feed_counted_def observe_cases_simps counters_balanced_def)
  from run [OF assms this] show ?thesis
    by (simp add: feed_counted_def counters_balanced_def Let_def algebra_simps)
qed

theorem feed_counters_witness:
  "\<exists>f. consume_all EventHandler_default [wire sample_messages, [1, 2]] (FeedHandler_init ()) = Inr f \<and>
     forwarded f + dropped f = st_total (stats (seq_tracker f))"
proof -
  from default_handler.consume_all_safe obtain f where
    f: "consume_all EventHandler_default [wire sample_messages, [1, 2]] (FeedHandler_init ()) = Inr f"
    by blast
  from feed_counters [OF f] f show ?thesis unfolding Let_def by blast
qed

lemma settled_length: "settled buf \<Longrightarrow> length buf < kHeaderWireSize + 2 ^ 16"
proof -
  have size: "unat (hdr_body_size hdr) < 2 ^ 16" for hdr :: MessageHeader
    using unsigned_less [of "hdr_body_size hdr"] by simp
  assume "settled buf"
  then consider "length buf < kHeaderWireSize" |
    hdr :: MessageHeader where "length buf < kHeaderWireSize + unat (hdr_body_size hdr)"
    by (auto simp: settled_def classify_def Let_def split: if_splits option.splits sum.splits)
  then show ?thesis using size by cases (auto intro: less_trans)
qed

text \<open>The residual buffer stays bounded: after any segment that met no bad header, fewer bytes
  are pending than the largest frame a header can declare.\<close>

theorem pending_bytes_bounded:
  assumes "consume H bytes f = Inr (f', r)"
    and "scan 0 (residual f @ bytes) = (items, c, s)" and "s \<noteq> AtBadHeader"
  shows "pending_bytes f' < kHeaderWireSize + 2 ^ 16"
proof -
  let ?rest = "drop c (residual f @ bytes)"
  from assms(1,2) have "residual f' = ?rest" by (rule consume_InrE) simp
  moreover from scan_settled [OF assms(2,3)] have "settled ?rest" by simp
  ultimately show ?thesis by (metis settled_length pending_bytes_def)
qed

theorem pending_bytes_bounded_witness:
  "\<exists>f'. pending_bytes (f' :: unit FeedHandler) < kHeaderWireSize + 2 ^ 16 \<and>
     consume EventHandler_default (wire sample_messages @ take 20 (message_bytes (3, 300, BodyCancel sample_cancel)))
       (FeedHandler_init ()) =
     Inr (f', \<lparr>bytes_consumed = 57, messages = 2, malformed = 0, needs_more = True\<rparr>)"
proof -
  let ?bytes = "wire sample_messages @ take 20 (message_bytes (3, 300, BodyCancel sample_cancel))"
  have sc: "scan 0 (residual (FeedHandler_init ()) @ ?bytes) =
      (map message_item sample_messages, 57, AtPartial)"
    using scan_cut_stream [of sample_messages "(3, 300, BodyCancel sample_cancel)" 20]
    by (simp add: sample_messages_def length_frame_bytes wire_size_defs FeedHandler_init_def)
  from default_handler.consume_safe obtain f' r where
    run: "consume EventHandler_default ?bytes (FeedHandler_init ()) = Inr (f', r)"
    by blast
  from run sc have "r = \<lparr>bytes_consumed = 57, messages = 2, malformed = 0, needs_more = True\<rparr>"
    by (rule consume_InrE) (simp add: sample_messages_def)
  with run pending_bytes_bounded [OF run sc] show ?thesis by blast
qed

text \<open>A datagram whose last message is cut: the whole messages are delivered, the cut one is
  dropped without a trace in the malformed count, and the stream buffer is not involved.\<close>

theorem datagram_drops_cut_message:
  assumes "list_all message_ok msgs" and "message_ok m" and "k < length (message_bytes m)"
  shows "consume_datagram H (wire msgs @ take k (message_bytes m)) f =
    ebind (run_items (fh_handler H) (map message_item msgs) f) (\<lambda>f'.
      Inr (f', \<lparr>bytes_consumed = length (wire msgs), messages = length msgs, malformed = 0,
               needs_more = (kHeaderWireSize \<le> k)\<rparr>))"
  by (simp add: consume_datagram_eq [OF scan_cut_stream [OF assms]])

theorem datagram_drops_cut_message_witness:
  "\<exists>f'. consume_datagram EventHandler_default
       (wire sample_messages @ take 20 (message_bytes (3, 300, BodyCancel sample_cancel)))
       (FeedHandler_init ()) =
     Inr (f', \<lparr>bytes_consumed = 57, messages = 2, malformed = 0, needs_more = True\<rparr>)"
proof -
  from default_handler.consume_datagram_safe obtain f' r where run: "consume_datagram EventHandler_default
       (wire sample_messages @ take 20 (message_bytes (3, 300, BodyCancel sample_cancel)))
       (FeedHandler_init ()) = Inr (f', r)"
    by blast
  with datagram_drops_cut_message [of sample_messages "(3, 300, BodyCancel sample_cancel)" 20
      EventHandler_default "FeedHandler_init ()"]
  show ?thesis
    by (auto simp: sample_messages_def length_frame_bytes wire_size_defs ebind_eq_Inr_iff)
qed

end
