(* ===== verification/Book_Builder.thy ===== *)
theory Book_Builder
  imports Order_Book_Queries Feed_Handler
begin

text \<open>
  Model of \<^verbatim>\<open>include/mdfh/book_builder.hpp\<close> and \<^verbatim>\<open>src/book_builder.cpp\<close>: the per-symbol
  books and the handler that drives them. \<open>ndebug\<close> is the compile-time \<^verbatim>\<open>NDEBUG\<close>: it
  removes the \<^verbatim>\<open>assert\<close>s and sets the default of \<open>bb_verify\<close>. The second half is the
  abstract feed: a partial map from symbols to abstract books, and what each message does to
  it. \<open>builder_rep\<close> relates the two, every callback is simulated, and \<open>bb_handler\<close> is
  interpreted as a \<open>handler\<close>, so that the theorems on the parser and the feed handler
  apply to the real sink.
\<close>

section \<open>The manager\<close>

type_synonym BookManager = "(SymbolId, OrderBook) umap"

text \<open>\<^verbatim>\<open>book(symbol)\<close>: the manager, in which the book now exists, and the book.\<close>

definition book_of :: "SymbolId \<Rightarrow> BookManager \<Rightarrow> BookManager \<times> OrderBook" where
  "book_of symbol m =
     (let m = (if map_of m symbol = None then um_emplace symbol (OrderBook_init symbol) m else m)
      in (m, the (map_of m symbol)))"

definition find_book :: "SymbolId \<Rightarrow> BookManager \<Rightarrow> OrderBook option" where
  "find_book symbol m = map_of m symbol"

definition symbol_count :: "BookManager \<Rightarrow> nat" where
  "symbol_count m = length m"

fun check_all_invariants :: "BookManager \<Rightarrow> bool exec" where
  "check_all_invariants [] = Inr True"
| "check_all_invariants ((symbol, bk) # m) =
     ebind (check_invariants bk) (\<lambda>ok. if \<not> ok then Inr False else check_all_invariants m)"

fun for_each :: "(SymbolId \<Rightarrow> OrderBook \<Rightarrow> 's \<Rightarrow> 's) \<Rightarrow> BookManager \<Rightarrow> 's \<Rightarrow> 's" where
  "for_each fn [] st = st"
| "for_each fn ((symbol, bk) # m) st = for_each fn m (fn symbol bk st)"

definition bm_clear :: "BookManager \<Rightarrow> BookManager" where
  "bm_clear m = []"

section \<open>The builder\<close>

record BookStats =
  bst_adds :: u64
  bst_cancels :: u64
  bst_modifies :: u64
  bst_trades :: u64
  bst_snapshots :: u64
  bst_heartbeats :: u64
  bst_malformed :: u64
  bst_rejected :: u64

definition BookStats_init :: BookStats where
  "BookStats_init = \<lparr>bst_adds = 0, bst_cancels = 0, bst_modifies = 0, bst_trades = 0,
     bst_snapshots = 0, bst_heartbeats = 0, bst_malformed = 0, bst_rejected = 0\<rparr>"

record BookBuilder =
  bb_manager :: BookManager
  bb_stats :: BookStats
  bb_verify :: bool

definition BookBuilder_init :: "bool \<Rightarrow> BookBuilder" where
  "BookBuilder_init ndebug =
     \<lparr>bb_manager = [], bb_stats = BookStats_init, bb_verify = (\<not> ndebug)\<rparr>"

definition set_verify :: "bool \<Rightarrow> BookBuilder \<Rightarrow> BookBuilder" where
  "set_verify v bb = bb\<lparr>bb_verify := v\<rparr>"

text \<open>\<^verbatim>\<open>if (verify_) assert(bk.check_invariants());\<close>\<close>

definition verify_book :: "bool \<Rightarrow> bool \<Rightarrow> OrderBook \<Rightarrow> unit exec" where
  "verify_book ndebug verify bk =
     (if verify then if ndebug then Inr () else ebind (check_invariants bk) eassert
      else Inr ())"

text \<open>
  The body shared by the four order callbacks, after the counter: look the book up, apply the
  operation to it in place, count a refusal, verify.
\<close>

definition on_book ::
  "bool \<Rightarrow> SymbolId \<Rightarrow> (OrderBook \<Rightarrow> (bool \<times> OrderBook) exec) \<Rightarrow> BookBuilder \<Rightarrow> BookBuilder exec" where
  "on_book ndebug symbol op bb =
     (let (m, bk) = book_of symbol (bb_manager bb)
      in ebind (op bk) (\<lambda>(ok, bk).
         let bb = bb\<lparr>bb_manager := um_assign symbol bk m\<rparr>;
             st = bb_stats bb;
             bb = (if \<not> ok then bb\<lparr>bb_stats := st\<lparr>bst_rejected := bst_rejected st + 1\<rparr>\<rparr> else bb)
         in ebind (verify_book ndebug (bb_verify bb) bk) (\<lambda>_. Inr bb)))"

definition bb_add_order :: "bool \<Rightarrow> MessageHeader \<Rightarrow> AddOrder \<Rightarrow> BookBuilder \<Rightarrow> BookBuilder exec" where
  "bb_add_order ndebug hdr m bb =
     (let st = bb_stats bb; bb = bb\<lparr>bb_stats := st\<lparr>bst_adds := bst_adds st + 1\<rparr>\<rparr>
      in on_book ndebug (ao_symbol m)
           (add (ao_order_id m) (ao_side m) (ao_price m) (ao_quantity m)) bb)"

definition bb_cancel_order ::
  "bool \<Rightarrow> MessageHeader \<Rightarrow> CancelOrder \<Rightarrow> BookBuilder \<Rightarrow> BookBuilder exec" where
  "bb_cancel_order ndebug hdr m bb =
     (let st = bb_stats bb; bb = bb\<lparr>bb_stats := st\<lparr>bst_cancels := bst_cancels st + 1\<rparr>\<rparr>
      in on_book ndebug (co_symbol m) (cancel (co_order_id m)) bb)"

definition bb_modify_order ::
  "bool \<Rightarrow> MessageHeader \<Rightarrow> ModifyOrder \<Rightarrow> BookBuilder \<Rightarrow> BookBuilder exec" where
  "bb_modify_order ndebug hdr m bb =
     (let st = bb_stats bb; bb = bb\<lparr>bb_stats := st\<lparr>bst_modifies := bst_modifies st + 1\<rparr>\<rparr>
      in on_book ndebug (mo_symbol m)
           (modify (mo_order_id m) (mo_new_price m) (mo_new_quantity m)) bb)"

definition bb_trade :: "bool \<Rightarrow> MessageHeader \<Rightarrow> Trade \<Rightarrow> BookBuilder \<Rightarrow> BookBuilder exec" where
  "bb_trade ndebug hdr m bb =
     (let st = bb_stats bb; bb = bb\<lparr>bb_stats := st\<lparr>bst_trades := bst_trades st + 1\<rparr>\<rparr>
      in on_book ndebug (tr_symbol m) (execute (tr_resting_order_id m) (tr_quantity m)) bb)"

definition bb_snapshot :: "MessageHeader \<Rightarrow> BookSnapshot \<Rightarrow> BookBuilder \<Rightarrow> BookBuilder exec" where
  "bb_snapshot hdr m bb =
     (let st = bb_stats bb in Inr (bb\<lparr>bb_stats := st\<lparr>bst_snapshots := bst_snapshots st + 1\<rparr>\<rparr>))"

definition bb_heartbeat :: "MessageHeader \<Rightarrow> BookBuilder \<Rightarrow> BookBuilder exec" where
  "bb_heartbeat hdr bb =
     (let st = bb_stats bb in Inr (bb\<lparr>bb_stats := st\<lparr>bst_heartbeats := bst_heartbeats st + 1\<rparr>\<rparr>))"

definition bb_malformed :: "nat \<Rightarrow> BookBuilder \<Rightarrow> BookBuilder exec" where
  "bb_malformed off bb =
     (let st = bb_stats bb in Inr (bb\<lparr>bb_stats := st\<lparr>bst_malformed := bst_malformed st + 1\<rparr>\<rparr>))"

definition bb_handler :: "bool \<Rightarrow> BookBuilder Handler" where
  "bb_handler ndebug =
     \<lparr>on_add_order = bb_add_order ndebug, on_cancel_order = bb_cancel_order ndebug,
      on_modify_order = bb_modify_order ndebug, on_trade = bb_trade ndebug,
      on_snapshot = bb_snapshot, on_heartbeat = bb_heartbeat, on_malformed = bb_malformed\<rparr>"

section \<open>The abstract feed\<close>

type_synonym books = "SymbolId \<rightharpoonup> book"

definition ab_on :: "SymbolId \<Rightarrow> (book \<Rightarrow> bool \<times> book) \<Rightarrow> books \<Rightarrow> bool \<times> books" where
  "ab_on symbol op F =
     (let (ok, L) = op (case F symbol of None \<Rightarrow> [] | Some L \<Rightarrow> L) in (ok, F(symbol \<mapsto> L)))"

text \<open>What a message does to the books, and whether the exchange's event was applicable.\<close>

fun ab_body :: "Body \<Rightarrow> books \<Rightarrow> bool \<times> books" where
  "ab_body (BodyAdd m) F =
     ab_on (ao_symbol m) (ab_add (ao_order_id m) (ao_side m) (ao_price m) (ao_quantity m)) F"
| "ab_body (BodyCancel m) F = ab_on (co_symbol m) (ab_cancel (co_order_id m)) F"
| "ab_body (BodyModify m) F =
     ab_on (mo_symbol m) (ab_modify (mo_order_id m) (mo_new_price m) (mo_new_quantity m)) F"
| "ab_body (BodyTrade m) F =
     ab_on (tr_symbol m) (ab_execute (tr_resting_order_id m) (tr_quantity m)) F"
| "ab_body (BodySnapshot m) F = (True, F)"
| "ab_body BodyHeartbeat F = (True, F)"

text \<open>The symbol whose book a message touches.\<close>

fun body_symbol :: "Body \<Rightarrow> SymbolId option" where
  "body_symbol (BodyAdd m) = Some (ao_symbol m)"
| "body_symbol (BodyCancel m) = Some (co_symbol m)"
| "body_symbol (BodyModify m) = Some (mo_symbol m)"
| "body_symbol (BodyTrade m) = Some (tr_symbol m)"
| "body_symbol (BodySnapshot m) = None"
| "body_symbol BodyHeartbeat = None"

definition builder_rep :: "BookBuilder \<Rightarrow> books \<Rightarrow> bool" where
  "builder_rep bb F \<longleftrightarrow> distinct (map fst (bb_manager bb)) \<and>
     (\<forall>s. case (map_of (bb_manager bb) s, F s) of
        (None, None) \<Rightarrow> True
      | (Some bk, Some L) \<Rightarrow> represents bk L \<and> ob_symbol bk = s
      | _ \<Rightarrow> False)"

definition builder_ok :: "BookBuilder \<Rightarrow> bool" where
  "builder_ok bb \<longleftrightarrow> (\<exists>F. builder_rep bb F)"

section \<open>Simulation\<close>

lemma ob_symbol_init [simp]: "ob_symbol (OrderBook_init s) = s"
  by (simp add: OrderBook_init_def)

lemma builder_rep_init [simp]: "builder_rep (BookBuilder_init ndebug) Map.empty"
  by (simp add: builder_rep_def BookBuilder_init_def)

text \<open>The verdict of the debug assertion on a representable book.\<close>

lemma verify_book_eq:
  "represents bk L \<Longrightarrow>
     verify_book ndebug v bk = (if v \<and> \<not> ndebug \<and> ab_crossed L then Inl AssertFailed else Inr ())"
  by (auto simp: verify_book_def represents_def check_invariants_rep)

lemma builder_rep_at:
  assumes "builder_rep bb F"
  shows "F s = None \<Longrightarrow> map_of (bb_manager bb) s = None"
    and "F s = Some L \<Longrightarrow> \<exists>bk. map_of (bb_manager bb) s = Some bk \<and> represents bk L \<and> ob_symbol bk = s"
proof -
  from assms have "case (map_of (bb_manager bb) s, F s) of
        (None, None) \<Rightarrow> True
      | (Some bk, Some L) \<Rightarrow> represents bk L \<and> ob_symbol bk = s
      | _ \<Rightarrow> False"
    unfolding builder_rep_def by blast
  then show "F s = None \<Longrightarrow> map_of (bb_manager bb) s = None"
    and "F s = Some L \<Longrightarrow> \<exists>bk. map_of (bb_manager bb) s = Some bk \<and> represents bk L \<and> ob_symbol bk = s"
    by (cases "map_of (bb_manager bb) s"; simp)+
qed

lemma book_of_rep:
  assumes "builder_rep bb F"
  obtains m bk where "book_of s (bb_manager bb) = (m, bk)"
    and "represents bk (case F s of None \<Rightarrow> [] | Some L \<Rightarrow> L)" and "ob_symbol bk = s"
    and "distinct (map fst m)" and "map_of m = (map_of (bb_manager bb))(s \<mapsto> bk)"
proof (cases "F s")
  case None
  from assms have "map_of (bb_manager bb) s = None"
    using None by (rule builder_rep_at)
  with assms None show thesis
    by (intro that) (auto simp: book_of_def Let_def builder_rep_def map_of_um_emplace
      distinct_um_emplace)
next
  case (Some L)
  from assms obtain bk where "map_of (bb_manager bb) s = Some bk" "represents bk L" "ob_symbol bk = s"
    using Some builder_rep_at(2) by blast
  with assms Some show thesis
    by (intro that) (auto simp: book_of_def Let_def builder_rep_def fun_upd_triv)
qed

definition reject :: "bool \<Rightarrow> BookStats \<Rightarrow> BookStats" where
  "reject ok st = (if ok then st else st\<lparr>bst_rejected := bst_rejected st + 1\<rparr>)"

lemma on_book_simulates:
  assumes "simulates op aop" and "builder_rep bb F" and "ab_on s aop F = (ok, F')"
  obtains bb' where
    "on_book ndebug s op bb =
       (if bb_verify bb \<and> \<not> ndebug \<and> ab_crossed (the (F' s)) then Inl AssertFailed else Inr bb')"
    and "builder_rep bb' F'" and "bb_verify bb' = bb_verify bb"
    and "bb_stats bb' = reject ok (bb_stats bb)"
proof -
  obtain m bk where bk: "book_of s (bb_manager bb) = (m, bk)"
    "represents bk (case F s of None \<Rightarrow> [] | Some L \<Rightarrow> L)" "ob_symbol bk = s"
    "distinct (map fst m)" "map_of m = (map_of (bb_manager bb))(s \<mapsto> bk)"
    using assms(2) by (rule book_of_rep)
  obtain L where L: "aop (case F s of None \<Rightarrow> [] | Some L \<Rightarrow> L) = (ok, L)" "F' = F(s \<mapsto> L)"
    using assms(3) by (auto simp: ab_on_def Let_def split: prod.splits)
  from assms(1) bk(2) obtain bk' where op: "op bk = Inr (ok, bk')"
    and bk': "represents bk' L" "ob_symbol bk' = s"
    using L(1) bk(3) by (metis fst_conv simulatesE snd_conv)
  let ?bb = "bb\<lparr>bb_manager := um_assign s bk' m, bb_stats := reject ok (bb_stats bb)\<rparr>"
  have "map_of (um_assign s bk' m) = (map_of (bb_manager bb))(s \<mapsto> bk')"
    using map_of_om_assign [of m s bk bk'] bk(5) by simp
  then have rep: "builder_rep ?bb F'"
    using assms(2) bk(4) bk' by (auto simp: builder_rep_def L(2))
  have upd: "(if \<not> ok then bb\<lparr>bb_manager := um_assign s bk' m,
       bb_stats := bb_stats bb\<lparr>bst_rejected := bst_rejected (bb_stats bb) + 1\<rparr>\<rparr>
     else bb\<lparr>bb_manager := um_assign s bk' m\<rparr>) = ?bb"
    by (simp add: reject_def)
  show thesis
  proof (rule that [OF _ rep])
    show "on_book ndebug s op bb =
        (if bb_verify bb \<and> \<not> ndebug \<and> ab_crossed (the (F' s)) then Inl AssertFailed else Inr ?bb)"
      using upd by (cases ok)
        (simp_all add: on_book_def bk(1) op Let_def verify_book_eq [OF bk'(1)] L(2))
  qed simp_all
qed

text \<open>The counters of the kinds of messages.\<close>

fun count_body :: "Body \<Rightarrow> BookStats \<Rightarrow> BookStats" where
  "count_body (BodyAdd m) st = st\<lparr>bst_adds := bst_adds st + 1\<rparr>"
| "count_body (BodyCancel m) st = st\<lparr>bst_cancels := bst_cancels st + 1\<rparr>"
| "count_body (BodyModify m) st = st\<lparr>bst_modifies := bst_modifies st + 1\<rparr>"
| "count_body (BodyTrade m) st = st\<lparr>bst_trades := bst_trades st + 1\<rparr>"
| "count_body (BodySnapshot m) st = st\<lparr>bst_snapshots := bst_snapshots st + 1\<rparr>"
| "count_body BodyHeartbeat st = st\<lparr>bst_heartbeats := bst_heartbeats st + 1\<rparr>"

definition crossing :: "Body \<Rightarrow> books \<Rightarrow> bool" where
  "crossing body F = (case body_symbol body of None \<Rightarrow> False
     | Some s \<Rightarrow> (case F s of None \<Rightarrow> False | Some L \<Rightarrow> ab_crossed L))"

lemma ab_on_some: "ab_on s aop F = (ok, F') \<Longrightarrow> \<exists>L. F' s = Some L"
  by (auto simp: ab_on_def Let_def split: prod.splits)

lemma builder_rep_stats [simp]: "builder_rep (bb\<lparr>bb_stats := st\<rparr>) F = builder_rep bb F"
  by (simp add: builder_rep_def)

lemma on_body_simulates:
  assumes "builder_rep bb F" and "ab_body body F = (ok, F')"
  shows "\<exists>bb'. on_body (bb_handler ndebug) hdr body bb =
       (if bb_verify bb \<and> \<not> ndebug \<and> crossing body F' then Inl AssertFailed else Inr bb') \<and>
     builder_rep bb' F' \<and> bb_verify bb' = bb_verify bb \<and>
     bb_stats bb' = reject ok (count_body body (bb_stats bb))"
proof -
  let ?bb = "bb\<lparr>bb_stats := count_body body (bb_stats bb)\<rparr>"
  have rep: "builder_rep ?bb F" using assms(1) by simp
  have main: ?thesis
    if "simulates op aop" and "ab_body body F = ab_on s aop F" and "body_symbol body = Some s"
      and "on_body (bb_handler ndebug) hdr body bb = on_book ndebug s op ?bb" for op aop s
  proof -
    from that(2) assms(2) have on: "ab_on s aop F = (ok, F')" by simp
    from on_book_simulates [OF that(1) rep on, of ndebug] obtain bb' where
      "on_book ndebug s op ?bb =
         (if bb_verify ?bb \<and> \<not> ndebug \<and> ab_crossed (the (F' s)) then Inl AssertFailed else Inr bb')"
      "builder_rep bb' F'" "bb_verify bb' = bb_verify ?bb" "bb_stats bb' = reject ok (bb_stats ?bb)"
      by metis
    with that(3,4) ab_on_some [OF on] show ?thesis
      by (intro exI [of _ bb']) (auto simp: crossing_def)
  qed
  show ?thesis
  proof (cases body)
    case (BodyAdd m)
    show ?thesis
      by (rule main [OF add_simulates]) (simp_all add: BodyAdd bb_handler_def bb_add_order_def Let_def)
  next
    case (BodyCancel m)
    show ?thesis
      by (rule main [OF cancel_simulates])
        (simp_all add: BodyCancel bb_handler_def bb_cancel_order_def Let_def)
  next
    case (BodyModify m)
    show ?thesis
      by (rule main [OF modify_simulates])
        (simp_all add: BodyModify bb_handler_def bb_modify_order_def Let_def)
  next
    case (BodyTrade m)
    show ?thesis
      by (rule main [OF execute_simulates])
        (simp_all add: BodyTrade bb_handler_def bb_trade_def Let_def)
  next
    case (BodySnapshot m)
    with assms show ?thesis
      by (auto simp: bb_handler_def bb_snapshot_def Let_def crossing_def reject_def)
  next
    case BodyHeartbeat
    with assms show ?thesis
      by (auto simp: bb_handler_def bb_heartbeat_def Let_def crossing_def reject_def)
  qed
qed

lemma on_malformed_simulates:
  "on_malformed (bb_handler ndebug) off bb =
     Inr (bb\<lparr>bb_stats := (bb_stats bb)\<lparr>bst_malformed := bst_malformed (bb_stats bb) + 1\<rparr>\<rparr>)"
  by (simp add: bb_handler_def bb_malformed_def Let_def)

text \<open>
  The builder is a handler: in a release build with the invariant that its books are
  representable, in a debug build when verification is switched off.
\<close>

interpretation builder: offset_blind "bb_handler ndebug" "\<lambda>bb. builder_ok bb \<and> (ndebug \<or> \<not> bb_verify bb)"
  for ndebug
proof unfold_locales
  fix bb hdr body
  assume bb: "builder_ok bb \<and> (ndebug \<or> \<not> bb_verify bb)"
  then obtain F where F: "builder_rep bb F" by (auto simp: builder_ok_def)
  obtain ok F' where "ab_body body F = (ok, F')" by fastforce
  from on_body_simulates [OF F this, of ndebug hdr] bb
  show "\<exists>bb'. on_body (bb_handler ndebug) hdr body bb = Inr bb' \<and>
      builder_ok bb' \<and> (ndebug \<or> \<not> bb_verify bb')"
    by (auto simp: builder_ok_def)
next
  fix bb off
  assume bb: "builder_ok bb \<and> (ndebug \<or> \<not> bb_verify bb)"
  then show "\<exists>bb'. on_malformed (bb_handler ndebug) off bb = Inr bb' \<and>
      builder_ok bb' \<and> (ndebug \<or> \<not> bb_verify bb')"
    by (auto simp: builder_ok_def on_malformed_simulates)
qed (simp add: on_malformed_simulates)

section \<open>Runs\<close>

text \<open>
  A run over the items a parser produces: the number of inapplicable events, and the books;
  and whether no touched book was ever crossed.
\<close>

fun ab_run :: "Item list \<Rightarrow> books \<Rightarrow> nat \<times> books" where
  "ab_run [] F = (0, F)"
| "ab_run (Reject off # is) F = ab_run is F"
| "ab_run (Deliver hdr body # is) F =
     (let (ok, F1) = ab_body body F; (n, F2) = ab_run is F1 in (if ok then n else n + 1, F2))"

fun ab_clean :: "Item list \<Rightarrow> books \<Rightarrow> bool" where
  "ab_clean [] F = True"
| "ab_clean (Reject off # is) F = ab_clean is F"
| "ab_clean (Deliver hdr body # is) F =
     (let (ok, F1) = ab_body body F in \<not> crossing body F1 \<and> ab_clean is F1)"

definition events_counted :: "BookStats \<Rightarrow> u64" where
  "events_counted st = bst_adds st + bst_cancels st + bst_modifies st + bst_trades st +
     bst_snapshots st + bst_heartbeats st + bst_malformed st"

lemma events_counted_body: "events_counted (reject ok (count_body body st)) = events_counted st + 1"
  by (cases body) (simp_all add: events_counted_def reject_def)

lemma rejected_body:
  "bst_rejected (reject ok (count_body body st)) = bst_rejected st + (if ok then 0 else 1)"
  by (cases body) (simp_all add: reject_def)

lemma run_items_simulates:
  assumes "builder_rep bb F"
  shows "\<exists>bb'. run_items (bb_handler ndebug) is bb =
       (if bb_verify bb \<and> \<not> ndebug \<and> \<not> ab_clean is F then Inl AssertFailed else Inr bb') \<and>
     builder_rep bb' (snd (ab_run is F)) \<and> bb_verify bb' = bb_verify bb \<and>
     events_counted (bb_stats bb') = events_counted (bb_stats bb) + of_nat (length is) \<and>
     bst_rejected (bb_stats bb') = bst_rejected (bb_stats bb) + of_nat (fst (ab_run is F))"
  using assms
proof (induction "is" F arbitrary: bb rule: ab_run.induct)
  case (1 F)
  then show ?case by auto
next
  case (2 off "is" F)
  let ?bb = "bb\<lparr>bb_stats := (bb_stats bb)\<lparr>bst_malformed := bst_malformed (bb_stats bb) + 1\<rparr>\<rparr>"
  from "2.IH" [of ?bb] "2.prems" show ?case
    by (simp add: on_malformed_simulates) (auto simp: events_counted_def algebra_simps)
next
  case (3 hdr body "is" F)
  obtain ok F1 where F1: "ab_body body F = (ok, F1)" by fastforce
  from on_body_simulates [OF "3.prems" F1, of ndebug hdr] obtain bb1 where bb1:
    "on_body (bb_handler ndebug) hdr body bb =
       (if bb_verify bb \<and> \<not> ndebug \<and> crossing body F1 then Inl AssertFailed else Inr bb1)"
    "builder_rep bb1 F1" "bb_verify bb1 = bb_verify bb"
    "bb_stats bb1 = reject ok (count_body body (bb_stats bb))"
    by blast
  from "3.IH" [OF F1 [symmetric] refl bb1(2)] obtain bb' where
    "run_items (bb_handler ndebug) is bb1 =
       (if bb_verify bb1 \<and> \<not> ndebug \<and> \<not> ab_clean is F1 then Inl AssertFailed else Inr bb')"
    "builder_rep bb' (snd (ab_run is F1))" "bb_verify bb' = bb_verify bb1"
    "events_counted (bb_stats bb') = events_counted (bb_stats bb1) + of_nat (length is)"
    "bst_rejected (bb_stats bb') = bst_rejected (bb_stats bb1) + of_nat (fst (ab_run is F1))"
    by blast
  with bb1 F1 show ?case
    by (intro exI [of _ bb'])
      (auto simp: Let_def split_beta events_counted_body rejected_body)
qed

section \<open>Properties\<close>

lemma represents_crossed:
  "represents bk L \<Longrightarrow> check_invariants bk = Inr (\<not> ab_crossed L)"
  by (auto simp: represents_def check_invariants_rep)

text \<open>C23. In a release build, any sequence of callbacks, from any state that represents some books,
  runs without a fault and leaves exactly the books of the abstract run; every callback is
  counted once by kind, and the refused events are counted.\<close>

theorem builder_run_refines:
  assumes "builder_rep bb F"
  shows "\<exists>bb'. run_items (bb_handler True) is bb = Inr bb' \<and>
    builder_rep bb' (snd (ab_run is F)) \<and>
    events_counted (bb_stats bb') = events_counted (bb_stats bb) + of_nat (length is) \<and>
    bst_rejected (bb_stats bb') = bst_rejected (bb_stats bb) + of_nat (fst (ab_run is F))"
  using run_items_simulates [OF assms, of True "is"] by auto

definition sample_items :: "Item list" where
  "sample_items =
     [Deliver (header_of 1 0 (BodyAdd sample_add)) (BodyAdd sample_add), Reject 41,
      Deliver (header_of 2 0 (BodyCancel sample_cancel)) (BodyCancel sample_cancel),
      Deliver (header_of 3 0 (BodyCancel sample_cancel)) (BodyCancel sample_cancel)]"

theorem builder_run_refines_witness:
  "\<exists>bb'. run_items (bb_handler True) sample_items (BookBuilder_init True) = Inr bb' \<and>
    builder_rep bb' [7 \<mapsto> []] \<and> events_counted (bb_stats bb') = 4 \<and> bst_rejected (bb_stats bb') = 1"
  using builder_run_refines [OF builder_rep_init [of True], of sample_items]
  by (simp add: sample_items_def sample_add_def sample_cancel_def ab_on_def ab_add_def ab_cancel_def
      ab_lookup_def ab_remove_def BookBuilder_init_def BookStats_init_def events_counted_def)

text \<open>C24. In a debug build the assertion after each order event stops the process exactly when the
  feed has crossed the book it touched: a feed that never crosses runs to the end with the
  abstract books, any other aborts.\<close>

theorem builder_debug_aborts_iff_crossed:
  "(if ab_clean is Map.empty
    then \<exists>bb'. run_items (bb_handler False) is (BookBuilder_init False) = Inr bb' \<and>
           builder_rep bb' (snd (ab_run is Map.empty))
    else run_items (bb_handler False) is (BookBuilder_init False) = Inl AssertFailed)"
  using run_items_simulates [OF builder_rep_init [of False], of False "is"]
  by (auto simp: BookBuilder_init_def)

text \<open>The manager's check over all books never faults on books the builder made, and reports
  whether none of them is crossed.\<close>

lemma books_uncrossed:
  assumes "builder_rep bb F"
  shows "check_all_invariants (bb_manager bb) = Inr (\<forall>L \<in> ran F. \<not> ab_crossed L)"
proof -
  have check: "check_all_invariants m = Inr (\<forall>(s, bk) \<in> set m. \<not> ab_crossed (the (F s)))"
    if "\<forall>(s, bk) \<in> set m. represents bk (the (F s))" for m
    using that by (induction m) (auto simp: represents_crossed)
  have entry: "\<exists>L. F s = Some L \<and> represents bk L" if "(s, bk) \<in> set (bb_manager bb)" for s bk
  proof -
    from that assms have "map_of (bb_manager bb) s = Some bk" by (auto simp: builder_rep_def)
    with builder_rep_at [OF assms, of s] show ?thesis by (cases "F s") auto
  qed
  have "(\<forall>(s, bk) \<in> set (bb_manager bb). \<not> ab_crossed (the (F s))) \<longleftrightarrow> (\<forall>L \<in> ran F. \<not> ab_crossed L)"
  proof
    assume all: "\<forall>(s, bk) \<in> set (bb_manager bb). \<not> ab_crossed (the (F s))"
    show "\<forall>L \<in> ran F. \<not> ab_crossed L"
    proof
      fix L assume "L \<in> ran F"
      then obtain s where "F s = Some L" by (auto simp: ran_def)
      with builder_rep_at(2) [OF assms] obtain bk where "(s, bk) \<in> set (bb_manager bb)"
        by (blast dest: map_of_SomeD)
      with all \<open>F s = Some L\<close> show "\<not> ab_crossed L" by fastforce
    qed
  qed (use entry in \<open>fastforce simp: ran_def\<close>)
  moreover have "\<forall>(s, bk) \<in> set (bb_manager bb). represents bk (the (F s))"
    using entry by fastforce
  ultimately show ?thesis using check by simp
qed

lemma books_uncrossed_sample: "check_all_invariants [(7, sample_book)] = Inr True"
proof -
  let ?bb = "\<lparr>bb_manager = [(7, sample_book)], bb_stats = BookStats_init, bb_verify = False\<rparr>"
  have "builder_rep ?bb [7 \<mapsto> sample_orders]"
    by (simp add: builder_rep_def represents_sample symbol_sample)
  from books_uncrossed [OF this] show ?thesis
    by (simp add: ab_crossed_def sample_orders_def is_bid_def)
qed

end
