(* ===== verification/Feed_To_Books.thy ===== *)
theory Feed_To_Books
  imports Book_Builder
begin

text \<open>
  The composition of the stages: bytes through the parser, the sequence tracker and the feed
  handler into the book builder. The lemmas identify, message by message, what the feed
  handler admits (\<open>admit_messages\<close>), show that the admitted messages of a fresh feed depend on
  the arrivals through the running maximum only, and give the state in which a stream of
  whole messages leaves the feed handler (\<open>consume_all_wire\<close>).
\<close>

section \<open>Admission, message by message\<close>

definition accepted :: "message list \<Rightarrow> SequenceTracker \<Rightarrow> message list" where
  "accepted msgs t = delivered msgs (fst (observe_all (map fst msgs) t))"

lemma accepted_simps [simp]:
  "accepted [] t = []"
  "accepted (m # msgs) t =
     (if forwards (fst (observe (fst m) t)) then [m] else []) @ accepted msgs (snd (observe (fst m) t))"
  by (simp_all add: accepted_def Let_def split_beta)

lemma admit_messages:
  "admit (map message_item msgs) t =
     (map message_item (accepted msgs t), snd (observe_all (map fst msgs) t))"
proof (induction msgs arbitrary: t)
  case (Cons m msgs)
  obtain seq ts body where m: "m = (seq, ts, body)" by (cases m)
  with Cons show ?case by (simp add: Let_def split_beta header_of_def)
qed simp

lemma accepted_subset: "set (accepted msgs t) \<subseteq> set msgs"
  by (induction msgs arbitrary: t) auto

text \<open>Whether a number is forwarded depends on the mark only, and so does the next mark.\<close>

definition same_mark :: "SequenceTracker \<Rightarrow> SequenceTracker \<Rightarrow> bool" where
  "same_mark t t' \<longleftrightarrow> initialized t = initialized t' \<and> next_expected t = next_expected t'"

lemma observe_same_mark:
  "same_mark t t' \<Longrightarrow> forwards (fst (observe s t)) = forwards (fst (observe s t')) \<and>
     same_mark (snd (observe s t)) (snd (observe s t'))"
  by (auto simp: same_mark_def observe_def Let_def)

lemma accepted_same_mark: "same_mark t t' \<Longrightarrow> accepted msgs t = accepted msgs t'"
proof (induction msgs arbitrary: t t')
  case (Cons m msgs)
  from observe_same_mark [OF Cons.prems, of "fst m"] Cons.IH show ?case by simp
qed simp

text \<open>A second copy of a number is not forwarded and leaves the mark where it is.\<close>

lemma observe_again:
  assumes "s \<noteq> - 1"
  shows "\<not> forwards (fst (observe s (snd (observe s t)))) \<and>
    same_mark (snd (observe s (snd (observe s t)))) (snd (observe s t))"
proof -
  let ?t = "snd (observe s t)"
  have "s < s + 1" using unat_Suc_32 [OF assms] by (simp add: word_less_nat_alt)
  then have t: "initialized ?t" "s < next_expected ?t"
    unfolding observe_def Let_def by (auto simp only: snd_conv split: if_splits) auto
  then have "\<not> forwards (fst (observe s ?t))" "next_expected (snd (observe s ?t)) = next_expected ?t"
    using observe_stale [of ?t "[s]"] by (simp_all add: Let_def split_beta)
  moreover have "initialized (snd (observe s ?t))"
    by (simp add: observe_def Let_def)
  ultimately show ?thesis using t(1) by (simp add: same_mark_def)
qed

lemma accepted_contiguous:
  "map fst msgs = map (\<lambda>i. s + of_nat i) [0..<length msgs] \<Longrightarrow>
     accepted msgs SequenceTracker_init = msgs"
proof -
  assume "map fst msgs = map (\<lambda>i. s + of_nat i) [0..<length msgs]"
  then have "fst (observe_all (map fst msgs) SequenceTracker_init) = replicate (length msgs) InOrder"
    by (simp add: observe_contiguous)
  moreover have "delivered xs (replicate (length xs) InOrder) = xs" for xs :: "message list"
    by (induction xs) simp_all
  ultimately show ?thesis by (simp add: accepted_def)
qed

text \<open>The messages above everything seen before them: \<open>k\<close> is the lowest number still fresh.\<close>

fun fresh :: "nat \<Rightarrow> message list \<Rightarrow> message list" where
  "fresh k [] = []"
| "fresh k (m # msgs) =
     (if k \<le> unat (fst m) then m # fresh (unat (fst m) + 1) msgs else fresh k msgs)"

lemma accepted_fresh:
  "- 1 \<notin> fst ` set msgs \<Longrightarrow>
     (if initialized t then k = unat (next_expected t) else k = 0) \<Longrightarrow> accepted msgs t = fresh k msgs"
proof (induction msgs arbitrary: t k)
  case (Cons m msgs)
  from Cons.prems(1) have "fst m \<noteq> - 1" and rest: "- 1 \<notin> fst ` set msgs" by auto
  let ?t = "snd (observe (fst m) t)"
  have "forwards (fst (observe (fst m) t)) \<longleftrightarrow> k \<le> unat (fst m)"
    "initialized ?t"
    "unat (next_expected ?t) = (if k \<le> unat (fst m) then unat (fst m) + 1 else k)"
    using Cons.prems(2) unat_Suc_32 [OF \<open>fst m \<noteq> - 1\<close>]
    by (auto simp: observe_def Let_def word_le_nat_alt word_less_nat_alt word_unat_eq_iff
        split: if_splits)
  with Cons.IH [OF rest, of ?t] show ?case by simp
qed simp

lemma accepted_doubled:
  "- 1 \<notin> fst ` set msgs \<Longrightarrow>
     accepted (concat (map (\<lambda>m. [m, m]) msgs)) t = accepted msgs t"
proof (induction msgs arbitrary: t)
  case (Cons m msgs)
  from Cons.prems have "fst m \<noteq> - 1" and rest: "- 1 \<notin> fst ` set msgs" by auto
  from observe_again [OF this(1), of t] Cons.IH [OF rest] accepted_same_mark show ?case
    by simp
qed simp

section \<open>A stream of whole messages\<close>

lemma scan_wire_end:
  "list_all message_ok msgs \<Longrightarrow>
     scan 0 (wire msgs) = (map message_item msgs, length (wire msgs), AtEnd)"
  using scan_wire [of msgs 0 "[]" "[]" "length (wire msgs)" AtEnd]
  by (simp add: scan_Short classify_def kHeaderWireSize_def)

lemma FeedHandler_init_fields [simp]:
  "residual (FeedHandler_init d) = []" "down (FeedHandler_init d) = d"
  "seq_tracker (FeedHandler_init d) = SequenceTracker_init"
  "forwarded (FeedHandler_init d) = 0" "dropped (FeedHandler_init d) = 0"
  "fh_malformed (FeedHandler_init d) = 0"
  by (simp_all add: FeedHandler_init_def)

lemma builder_init_ok: "builder_ok (BookBuilder_init True)"
  unfolding builder_ok_def using builder_rep_init by blast

text \<open>The books after a run of messages through a fresh feed handler.\<close>

lemma run_feed_state:
  "\<exists>g. run_items (fh_handler (bb_handler True)) (map message_item msgs)
      (FeedHandler_init (BookBuilder_init True)) = Inr g \<and>
    residual g = [] \<and> fh_malformed g = 0 \<and>
    forwarded g = of_nat (length (accepted msgs SequenceTracker_init)) \<and>
    builder_rep (down g)
      (snd (ab_run (map message_item (accepted msgs SequenceTracker_init)) Map.empty)) \<and>
    bst_rejected (bb_stats (down g)) =
      of_nat (fst (ab_run (map message_item (accepted msgs SequenceTracker_init)) Map.empty)) \<and>
    seq_tracker g = snd (observe_all (map fst msgs) SequenceTracker_init) \<and>
    dropped g = of_nat (length msgs) - of_nat (length (accepted msgs SequenceTracker_init)) \<and>
    run_items (bb_handler True) (map message_item (accepted msgs SequenceTracker_init))
      (BookBuilder_init True) = Inr (down g)"
proof -
  let ?f = "FeedHandler_init (BookBuilder_init True)"
  let ?js = "map message_item (accepted msgs SequenceTracker_init)"
  from run_items_simulates [OF builder_rep_init [of True], of True ?js] obtain bb where
    bb: "run_items (bb_handler True) ?js (BookBuilder_init True) = Inr bb"
    "builder_rep bb (snd (ab_run ?js Map.empty))"
    "bst_rejected (bb_stats bb) = of_nat (fst (ab_run ?js Map.empty))"
    by (auto simp: BookBuilder_init_def BookStats_init_def)
  let ?g = "?f\<lparr>down := bb, seq_tracker := snd (observe_all (map fst msgs) SequenceTracker_init),
    forwarded := of_nat (length (accepted msgs SequenceTracker_init)),
    dropped := of_nat (length msgs) - of_nat (length (accepted msgs SequenceTracker_init))\<rparr>"
  have "run_items (fh_handler (bb_handler True)) (map message_item msgs) ?f = Inr ?g"
    by (simp add: run_feed_eq admit_messages bb(1))
  then show ?thesis using bb by simp
qed

lemma run_feed_messages:
  "\<exists>g. run_items (fh_handler (bb_handler True)) (map message_item msgs)
      (FeedHandler_init (BookBuilder_init True)) = Inr g \<and>
    residual g = [] \<and> fh_malformed g = 0 \<and>
    forwarded g = of_nat (length (accepted msgs SequenceTracker_init)) \<and>
    builder_rep (down g)
      (snd (ab_run (map message_item (accepted msgs SequenceTracker_init)) Map.empty)) \<and>
    bst_rejected (bb_stats (down g)) =
      of_nat (fst (ab_run (map message_item (accepted msgs SequenceTracker_init)) Map.empty))"
  using run_feed_state [of msgs] by blast

text \<open>A gap-free stream: everything is forwarded and counted in order.\<close>

lemma run_feed_contiguous:
  assumes "map fst msgs = map (\<lambda>i. s + of_nat i) [0..<length msgs]"
  shows "\<exists>g. run_items (fh_handler (bb_handler True)) (map message_item msgs)
      (FeedHandler_init (BookBuilder_init True)) = Inr g \<and>
    residual g = [] \<and> fh_malformed g = 0 \<and> forwarded g = of_nat (length msgs) \<and> dropped g = 0 \<and>
    stats (seq_tracker g) = SeqStats_init\<lparr>st_total := of_nat (length msgs), st_in_order := of_nat (length msgs)\<rparr> \<and>
    builder_rep (down g) (snd (ab_run (map message_item msgs) Map.empty)) \<and>
    run_items (bb_handler True) (map message_item msgs) (BookBuilder_init True) = Inr (down g)"
proof -
  note all = accepted_contiguous [OF assms]
  have "fst (observe_all (map fst msgs) SequenceTracker_init) = replicate (length (map fst msgs)) InOrder"
    using observe_contiguous [of SequenceTracker_init s "length msgs"] by (simp add: assms)
  from observe_in_order_stats [OF this] have
    "stats (snd (observe_all (map fst msgs) SequenceTracker_init)) =
      SeqStats_init\<lparr>st_total := of_nat (length msgs), st_in_order := of_nat (length msgs)\<rparr>"
    by (simp add: SequenceTracker_init_def SeqStats_init_def)
  with run_feed_state [of msgs] show ?thesis by (auto simp: all)
qed

text \<open>A stream of whole messages, cut into segments anyhow, and perhaps ended inside a message.\<close>

lemma consume_all_cut:
  assumes "scan 0 (concat segs) = (map message_item msgs, c, st)" and "st \<noteq> AtBadHeader"
  shows "\<exists>f. consume_all (bb_handler True) segs (FeedHandler_init (BookBuilder_init True)) = Inr f \<and>
    residual f = drop c (concat segs) \<and> fh_malformed f = 0 \<and>
    forwarded f = of_nat (length (accepted msgs SequenceTracker_init)) \<and>
    builder_rep (down f)
      (snd (ab_run (map message_item (accepted msgs SequenceTracker_init)) Map.empty)) \<and>
    bst_rejected (bb_stats (down f)) =
      of_nat (fst (ab_run (map message_item (accepted msgs SequenceTracker_init)) Map.empty))"
proof -
  let ?f = "FeedHandler_init (BookBuilder_init True)"
  from assms have "consume_all (bb_handler True) segs ?f =
      ebind (run_items (fh_handler (bb_handler True)) (map message_item msgs) ?f) (\<lambda>f'.
        Inr (with_buffer (drop c (concat segs)) 0 f'))"
    using builder.consume_all_eq [of ?f segs "map message_item msgs" c st True] by simp
  with run_feed_messages [of msgs] show ?thesis by auto
qed

lemma consume_all_wire:
  assumes "list_all message_ok msgs" and "concat segs = wire msgs"
  shows "\<exists>f. consume_all (bb_handler True) segs (FeedHandler_init (BookBuilder_init True)) = Inr f \<and>
    residual f = [] \<and> fh_malformed f = 0 \<and>
    forwarded f = of_nat (length (accepted msgs SequenceTracker_init)) \<and>
    builder_rep (down f)
      (snd (ab_run (map message_item (accepted msgs SequenceTracker_init)) Map.empty)) \<and>
    bst_rejected (bb_stats (down f)) =
      of_nat (fst (ab_run (map message_item (accepted msgs SequenceTracker_init)) Map.empty))"
  using consume_all_cut [of segs msgs "length (wire msgs)" AtEnd] scan_wire_end [OF assms(1)] assms(2)
  by simp

end
