(* ===== verification/Doubles.thy ===== *)
theory Doubles
  imports Protocol Complex_Main "HOL-Library.Log_Nat"
begin

text \<open>
  The double arithmetic the program uses, and the price conversions of \<^verbatim>\<open>include/mdfh/types.hpp\<close>. A
  \<^verbatim>\<open>double\<close> is an IEEE 754 binary64 number, and every operation gives the exact result rounded to
  the nearest double, ties to even, as on every target the program is built for. Zeros carry no
  sign, which nothing in the program reads. A conversion to an integer drops the fraction and is
  undefined (\<open>BadConversion\<close>) outside the range of the type.
\<close>

section \<open>Doubles\<close>

datatype f64 = Number rat | Infinity bool | NaN

text \<open>The nearest integer, ties to even.\<close>

definition nearest_even :: "rat \<Rightarrow> int" where
  "nearest_even y =
     (let q = \<lfloor>y\<rfloor>; r = y - of_int q
      in if r < 1 / 2 then q else if 1 / 2 < r then q + 1 else if even q then q else q + 1)"

text \<open>The exponent of the unit in the last place: 53 bits of precision, none below \<open>2 ^ -1074\<close>.\<close>

definition ulp_exp :: "rat \<Rightarrow> int" where
  "ulp_exp x =
     (let (n, d) = quotient_of \<bar>x\<bar>; e = int (floorlog 2 (nat n)) - int (floorlog 2 (nat d))
      in max (- 1074) (if \<bar>x\<bar> < 2 powi e then e - 53 else e - 52))"

definition rounded :: "rat \<Rightarrow> rat" where
  "rounded x = of_int (nearest_even (x / 2 powi ulp_exp x)) * 2 powi ulp_exp x"

text \<open>\<open>Infinity True\<close> is the negative one.\<close>

definition round_f64 :: "rat \<Rightarrow> f64" where
  "round_f64 x = (if 2 ^ 1024 \<le> \<bar>rounded x\<bar> then Infinity (x < 0) else Number (rounded x))"

definition f64_of_int :: "int \<Rightarrow> f64" where
  "f64_of_int i = round_f64 (of_int i)"

section \<open>Operations\<close>

fun f64_mult :: "f64 \<Rightarrow> f64 \<Rightarrow> f64" where
  "f64_mult (Number x) (Number y) = round_f64 (x * y)"
| "f64_mult (Number x) (Infinity s) = (if x = 0 then NaN else Infinity (s \<noteq> (x < 0)))"
| "f64_mult (Infinity s) (Number y) = (if y = 0 then NaN else Infinity (s \<noteq> (y < 0)))"
| "f64_mult (Infinity s) (Infinity t) = Infinity (s \<noteq> t)"
| "f64_mult _ _ = NaN"

fun f64_div :: "f64 \<Rightarrow> f64 \<Rightarrow> f64" where
  "f64_div (Number x) (Number y) =
     (if y = 0 then (if x = 0 then NaN else Infinity (x < 0)) else round_f64 (x / y))"
| "f64_div (Number x) (Infinity s) = Number 0"
| "f64_div (Infinity s) (Number y) = Infinity (s \<noteq> (y < 0))"
| "f64_div _ _ = NaN"

fun f64_add :: "f64 \<Rightarrow> f64 \<Rightarrow> f64" where
  "f64_add (Number x) (Number y) = round_f64 (x + y)"
| "f64_add (Number x) (Infinity s) = Infinity s"
| "f64_add (Infinity s) (Number y) = Infinity s"
| "f64_add (Infinity s) (Infinity t) = (if s = t then Infinity s else NaN)"
| "f64_add _ _ = NaN"

fun f64_positive :: "f64 \<Rightarrow> bool" where
  "f64_positive (Number x) = (0 < x)"
| "f64_positive (Infinity s) = (\<not> s)"
| "f64_positive NaN = False"

fun f64_nonnegative :: "f64 \<Rightarrow> bool" where
  "f64_nonnegative (Number x) = (0 \<le> x)"
| "f64_nonnegative (Infinity s) = (\<not> s)"
| "f64_nonnegative NaN = False"

definition toward_zero :: "rat \<Rightarrow> int" where
  "toward_zero x = (if 0 \<le> x then \<lfloor>x\<rfloor> else \<lceil>x\<rceil>)"

fun f64_to_i64 :: "f64 \<Rightarrow> u64 exec" where
  "f64_to_i64 (Number x) =
     (if - (2 ^ 63) \<le> toward_zero x \<and> toward_zero x < 2 ^ 63 then Inr (word_of_int (toward_zero x))
      else Inl BadConversion)"
| "f64_to_i64 _ = Inl BadConversion"

definition price_to_double :: "Price \<Rightarrow> f64" where
  "price_to_double p = f64_div (f64_of_int (sint p)) (f64_of_int kPriceScale)"

definition double_to_price :: "f64 \<Rightarrow> Price exec" where
  "double_to_price d =
     f64_to_i64 (f64_add (f64_mult d (f64_of_int kPriceScale))
       (Number (if f64_nonnegative d then 1 / 2 else - 1 / 2)))"

section \<open>The rounding error\<close>

lemma nearest_even_error: "\<bar>of_int (nearest_even y) - y\<bar> \<le> 1 / 2"
proof -
  have "of_int \<lfloor>y\<rfloor> \<le> y" "y < of_int \<lfloor>y\<rfloor> + 1" by linarith+
  then show ?thesis by (auto simp: nearest_even_def Let_def abs_le_iff field_simps)
qed

lemma nearest_even_int [simp]: "nearest_even (of_int n) = n"
  by (simp add: nearest_even_def)

lemma bit_length_bounds:
  assumes "0 < n"
  shows "2 powi (int (floorlog 2 (nat n)) - 1) \<le> (of_int n :: rat)"
    and "(of_int n :: rat) < 2 powi int (floorlog 2 (nat n))"
proof -
  let ?e = "floorlog 2 (nat n)"
  from floorlog_bounds [of "nat n" 2] assms have b: "2 ^ (?e - 1) \<le> nat n" "nat n < 2 ^ ?e" by simp_all
  have "0 < ?e" using assms by (simp add: floorlog_def)
  have cast: "of_int n = (of_nat (nat n) :: rat)" using assms by simp
  from b(1) have "of_nat (2 ^ (?e - 1)) \<le> (of_nat (nat n) :: rat)" by (rule of_nat_mono)
  moreover have "int ?e - 1 = int (?e - 1)" using \<open>0 < ?e\<close> by simp
  ultimately show "2 powi (int ?e - 1) \<le> (of_int n :: rat)"
    unfolding cast by (simp only: power_int_of_nat) simp
  from b(2) have "of_nat (nat n) < (of_nat (2 ^ ?e) :: rat)" by (simp only: of_nat_less_iff)
  then show "(of_int n :: rat) < 2 powi int ?e"
    unfolding cast by (simp only: power_int_of_nat) simp
qed

lemma powi_Suc: "(2 :: rat) powi (k + 1) = 2 * 2 powi k"
  by (simp add: power_int_add)

lemma powi_add: "(2 :: rat) powi k * 2 powi l = 2 powi (k + l)"
  by (simp add: power_int_add)

lemma powi_mono: "k \<le> l \<Longrightarrow> (2 :: rat) powi k \<le> 2 powi l"
  by (rule power_int_increasing) simp_all

lemma powi_positive [simp]: "0 < (2 :: rat) powi k"
  by simp

text \<open>A number lies between the power of two at its exponent and the next one.\<close>

lemma ulp_exp_bounds:
  assumes "x \<noteq> 0"
  obtains e where "2 powi e \<le> \<bar>x\<bar>" and "\<bar>x\<bar> < 2 powi (e + 1)" and "ulp_exp x = max (- 1074) (e - 52)"
proof -
  obtain n d where nd: "quotient_of \<bar>x\<bar> = (n, d)" by fastforce
  have x: "\<bar>x\<bar> = of_int n / of_int d" using quotient_of_div [OF nd] .
  have d: "0 < d" using quotient_of_denom_pos [OF nd] .
  have n: "0 < n" using assms x d by (metis zero_less_abs_iff of_int_0_less_iff zero_less_divide_iff not_less_iff_gr_or_eq)
  let ?a = "int (floorlog 2 (nat n))" and ?b = "int (floorlog 2 (nat d))"
  note bn = bit_length_bounds [OF n] and bd = bit_length_bounds [OF d]
  have low: "2 powi (?a - ?b - 1) < \<bar>x\<bar>"
  proof -
    have "2 powi (?a - ?b - 1) * of_int d < 2 powi (?a - ?b - 1) * (2 powi ?b :: rat)"
      using bd(2) by (rule mult_strict_left_mono) simp
    also have "\<dots> = 2 powi (?a - 1)" unfolding powi_add by simp
    also have "\<dots> \<le> of_int n" by (rule bn(1))
    finally show ?thesis using d by (simp add: x field_simps)
  qed
  have high: "\<bar>x\<bar> < 2 powi (?a - ?b + 1)"
  proof -
    have "(of_int n :: rat) < 2 powi ?a" by (rule bn(2))
    also have "\<dots> = 2 powi (?a - ?b + 1) * 2 powi (?b - 1)" unfolding powi_add by simp
    also have "\<dots> \<le> 2 powi (?a - ?b + 1) * of_int d"
      using bd(1) by (rule mult_left_mono) simp
    finally show ?thesis using d by (simp add: x field_simps)
  qed
  show thesis
  proof (cases "\<bar>x\<bar> < 2 powi (?a - ?b)")
    case True
    with low show ?thesis by (intro that [of "?a - ?b - 1"]) (simp_all add: ulp_exp_def nd)
  next
    case False
    with high show ?thesis by (intro that [of "?a - ?b"]) (simp_all add: ulp_exp_def nd)
  qed
qed

text \<open>A number below \<open>2 ^ 53\<close> units is rounded to at most half a unit.\<close>

lemma ulp_exp_le:
  assumes "\<bar>x\<bar> < 2 powi (k + 53)" and "- 1074 \<le> k" and "x \<noteq> 0"
  shows "ulp_exp x \<le> k"
proof -
  from ulp_exp_bounds [OF assms(3)] obtain e where e: "2 powi e \<le> \<bar>x\<bar>" "ulp_exp x = max (- 1074) (e - 52)" .
  from order_le_less_trans [OF e(1) assms(1)] have "e < k + 53"
    using powi_mono [of "k + 53" e] by (meson linorder_not_less)
  with e(2) assms(2) show ?thesis by simp
qed

lemma rounded_0 [simp]: "rounded 0 = 0"
  by (simp add: rounded_def nearest_even_def)

lemma rounded_unit_error: "\<bar>rounded x - x\<bar> \<le> 2 powi ulp_exp x / 2"
proof -
  let ?u = "2 powi ulp_exp x :: rat"
  have "rounded x - x = (of_int (nearest_even (x / ?u)) - x / ?u) * ?u"
    by (simp add: rounded_def field_simps)
  also have "\<bar>\<dots>\<bar> = \<bar>of_int (nearest_even (x / ?u)) - x / ?u\<bar> * ?u" by (simp add: abs_mult)
  also have "\<dots> \<le> 1 / 2 * ?u" using nearest_even_error by (rule mult_right_mono) simp
  finally show ?thesis by simp
qed

lemma rounded_error_below:
  assumes "\<bar>x\<bar> < 2 powi (k + 53)" and "- 1074 \<le> k"
  shows "\<bar>rounded x - x\<bar> \<le> 2 powi k / 2"
proof (cases "x = 0")
  case False
  from rounded_unit_error [of x] powi_mono [OF ulp_exp_le [OF assms False]] show ?thesis by linarith
qed simp

text \<open>The relative error of a number that is not subnormal.\<close>

lemma rounded_error:
  assumes "x = 0 \<or> 2 powi (- 1022) \<le> \<bar>x\<bar>"
  shows "\<bar>rounded x - x\<bar> \<le> \<bar>x\<bar> / 2 ^ 53"
proof (cases "x = 0")
  case True
  then show ?thesis by simp
next
  case False
  from ulp_exp_bounds [OF this] obtain e where e: "2 powi e \<le> \<bar>x\<bar>" "\<bar>x\<bar> < 2 powi (e + 1)"
    "ulp_exp x = max (- 1074) (e - 52)" .
  have "(2 :: rat) powi (- 1022) < 2 powi (e + 1)" using assms False e(2) by (meson order_le_less_trans)
  then have "- 1022 < e + 1" using powi_mono [of "e + 1" "- 1022"] by (meson linorder_not_less)
  with e(3) have u: "ulp_exp x = e - 52" by simp
  have "2 powi (e - 52) / 2 = (2 powi e :: rat) / 2 ^ 53"
    by (simp add: power_int_diff)
  also have "\<dots> \<le> \<bar>x\<bar> / 2 ^ 53" using e(1) by (simp add: divide_right_mono)
  finally show ?thesis using rounded_unit_error [of x] u by simp
qed

text \<open>Integers of 53 bits are exact.\<close>

lemma rounded_exact:
  assumes "\<bar>n\<bar> < 2 ^ 53" and "- 1074 \<le> k"
  shows "rounded (of_int n * 2 powi k) = of_int n * 2 powi k"
proof (cases "n = 0")
  case False
  let ?x = "of_int n * 2 powi k :: rat"
  obtain u where u: "ulp_exp ?x = u" by simp
  have "\<bar>of_int n :: rat\<bar> < 2 ^ 53"
    using assms(1) by (metis of_int_abs of_int_less_iff of_int_numeral of_int_power)
  then have "\<bar>?x\<bar> < 2 ^ 53 * 2 powi k" by (simp add: abs_mult)
  also have "\<dots> = 2 powi (k + 53)" by (simp add: power_int_add)
  finally have "u \<le> k" using ulp_exp_le [of ?x k] assms(2) False u by simp
  then have "(2 :: rat) powi k = of_int (2 ^ nat (k - u)) * 2 powi u"
    using power_int_add [of "2 :: rat" "k - u" u] by (simp add: power_int_nonneg_exp)
  then have x: "?x = of_int (n * 2 ^ nat (k - u)) * 2 powi u" by simp
  have "of_int (n * 2 ^ nat (k - u)) * 2 powi u / (2 :: rat) powi u = of_int (n * 2 ^ nat (k - u))" by simp
  then have "?x / 2 powi u = of_int (n * 2 ^ nat (k - u))" unfolding x .
  then show ?thesis unfolding rounded_def u by (simp only: nearest_even_int x)
qed simp

lemma rounded_int [simp]: "\<bar>n\<bar> < 2 ^ 53 \<Longrightarrow> rounded (of_int n) = of_int n"
  using rounded_exact [of n 0] by simp

text \<open>Rounding commutes with powers of two, away from the subnormal numbers.\<close>

lemma ulp_exp_at:
  assumes "2 powi e \<le> \<bar>x\<bar>" and "\<bar>x\<bar> < 2 powi (e + 1)"
  shows "ulp_exp x = max (- 1074) (e - 52)"
proof -
  have "x \<noteq> 0"
  proof
    assume "x = 0"
    with assms(1) powi_positive [of e] show False by (metis abs_zero linorder_not_less)
  qed
  from ulp_exp_bounds [OF this] obtain e' where
    e': "2 powi e' \<le> \<bar>x\<bar>" "\<bar>x\<bar> < 2 powi (e' + 1)" "ulp_exp x = max (- 1074) (e' - 52)" .
  have "(2 :: rat) powi e < 2 powi (e' + 1)" "(2 :: rat) powi e' < 2 powi (e + 1)"
    using assms e'(1,2) by (meson order_le_less_trans)+
  then have "e < e' + 1" "e' < e + 1"
    using powi_mono [of "e' + 1" e] powi_mono [of "e + 1" e'] by (meson linorder_not_less)+
  with e'(3) show ?thesis by simp
qed

lemma rounded_scale:
  assumes "2 powi (- 1022) \<le> \<bar>x\<bar>" and "2 powi (- 1022) \<le> \<bar>x * 2 powi k\<bar>"
  shows "rounded (x * 2 powi k) = rounded x * 2 powi k"
proof -
  have "x \<noteq> 0"
  proof
    assume "x = 0"
    with assms(1) powi_positive [of "- 1022"] show False by (metis abs_zero linorder_not_less)
  qed
  from ulp_exp_bounds [OF this] obtain e where e: "2 powi e \<le> \<bar>x\<bar>" "\<bar>x\<bar> < 2 powi (e + 1)" .
  have scaled: "\<bar>x * 2 powi k\<bar> = \<bar>x\<bar> * 2 powi k" by (simp add: abs_mult)
  from e(1) have low: "2 powi (e + k) \<le> \<bar>x * 2 powi k\<bar>"
    unfolding scaled powi_add [symmetric] by (rule mult_right_mono) simp
  from e(2) have "\<bar>x\<bar> * 2 powi k < 2 powi (e + 1) * 2 powi k" by (rule mult_strict_right_mono) simp
  then have high: "\<bar>x * 2 powi k\<bar> < 2 powi (e + k + 1)"
    unfolding scaled powi_add by (simp add: add.assoc add.commute [of 1])
  have "(2 :: rat) powi (- 1022) < 2 powi (e + 1)" "(2 :: rat) powi (- 1022) < 2 powi (e + k + 1)"
    using assms e(2) high by (meson order_le_less_trans)+
  then have range: "- 1022 < e + 1" "- 1022 < e + k + 1"
    using powi_mono [of "e + 1" "- 1022"] powi_mono [of "e + k + 1" "- 1022"] by (meson linorder_not_less)+
  have u: "ulp_exp x = e - 52" "ulp_exp (x * 2 powi k) = e - 52 + k"
    using ulp_exp_at [OF e] ulp_exp_at [OF low high] range by simp_all
  have "x * 2 powi k / 2 powi (e - 52 + k) = x / 2 powi (e - 52)"
    unfolding powi_add [symmetric] by simp
  then show ?thesis unfolding rounded_def u by (simp add: powi_add [symmetric] mult.assoc)
qed

lemma round_f64_moderate:
  assumes "\<bar>x\<bar> < 2 ^ 100"
  shows "round_f64 x = Number (rounded x)"
proof -
  have "\<bar>x\<bar> < 2 powi (47 + 53)" using assms by (simp add: power_int_def)
  from rounded_error_below [OF this] have "\<bar>rounded x - x\<bar> \<le> 2 powi 47 / 2" by simp
  also have "\<dots> \<le> 2 ^ 100" by (simp add: power_int_def)
  finally have "\<bar>rounded x\<bar> < 2 ^ 101" using assms by simp
  also have "(2 :: rat) ^ 101 \<le> 2 ^ 1024" by (rule power_increasing) simp_all
  finally show ?thesis by (simp add: round_f64_def)
qed

lemma f64_of_int_exact:
  assumes "\<bar>n\<bar> < 2 ^ 53"
  shows "f64_of_int n = Number (of_int n)"
proof -
  have "\<bar>of_int n :: rat\<bar> < of_int (2 ^ 53)" using assms by (metis of_int_abs of_int_less_iff)
  then have "\<bar>of_int n :: rat\<bar> < 2 ^ 100" by simp
  with assms show ?thesis by (simp add: f64_of_int_def round_f64_moderate)
qed

lemma drops_fraction:
  "of_int n \<le> x \<Longrightarrow> x < of_int n + 1 \<Longrightarrow> 0 \<le> n \<Longrightarrow> toward_zero x = n"
  "x \<le> of_int n \<Longrightarrow> of_int n - 1 < x \<Longrightarrow> n \<le> 0 \<Longrightarrow> toward_zero x = n"
proof -
  show "toward_zero x = n" if "of_int n \<le> x" "x < of_int n + 1" "0 \<le> n"
  proof -
    from that(3) have "(0 :: rat) \<le> of_int n" by simp
    with that(1) have "0 \<le> x" by linarith
    moreover have "\<lfloor>x\<rfloor> = n" using that(1,2) by (rule floor_unique)
    ultimately show ?thesis by (simp add: toward_zero_def)
  qed
  show "toward_zero x = n" if "x \<le> of_int n" "of_int n - 1 < x" "n \<le> 0"
  proof (cases "x = 0")
    case True
    with that(1,3) have "n = 0" by simp
    with True show ?thesis by (simp add: toward_zero_def)
  next
    case False
    from that(3) have "of_int n \<le> (0 :: rat)" by simp
    with that(1) have "x \<le> 0" by linarith
    moreover have "\<lceil>x\<rceil> = n" using that(2,1) by (rule ceiling_unique)
    ultimately show ?thesis using False by (simp add: toward_zero_def)
  qed
qed

section \<open>Prices\<close>

text \<open>The double of a price is within one part in \<open>2 ^ 53\<close> of the exact quotient.\<close>

lemma price_to_double_error:
  assumes "sint p = n" and "\<bar>n\<bar> < 2 ^ 53"
  obtains q where "price_to_double p = Number q"
    and "\<bar>q - of_int n / 10000\<bar> \<le> \<bar>of_int n / 10000\<bar> / 2 ^ 53"
proof -
  let ?x = "of_int n / 10000 :: rat"
  have "\<bar>of_int n :: rat\<bar> < of_int (2 ^ 53)" using assms(2) by (metis of_int_abs of_int_less_iff)
  then have "\<bar>?x\<bar> < 2 ^ 100" by (simp add: abs_less_iff)
  then have val: "price_to_double p = Number (rounded ?x)"
    using assms by (simp add: price_to_double_def f64_of_int_exact kPriceScale_def round_f64_moderate)
  have "?x = 0 \<or> 2 powi (- 1022) \<le> \<bar>?x\<bar>"
  proof (cases "n = 0")
    case False
    then have "1 \<le> \<bar>n\<bar>" by simp
    then have "(of_int 1 :: rat) \<le> of_int \<bar>n\<bar>" by (simp only: of_int_le_iff)
    then have "1 / 10000 \<le> \<bar>?x\<bar>" by (simp add: abs_if split: if_splits)
    moreover have "(2 :: rat) powi (- 1022) \<le> 2 powi (- 14)" by (rule powi_mono) simp
    moreover have "(2 :: rat) powi (- 14) \<le> 1 / 10000" by (simp add: power_int_def field_simps)
    ultimately show ?thesis by linarith
  qed simp
  from rounded_error [OF this] val show thesis by (rule that [rotated])
qed

lemma double_to_price_near:
  assumes "\<bar>n\<bar> \<le> 2 ^ 50" and "\<bar>q * 10000 - of_int n\<bar> \<le> 1 / 8" and "0 \<le> q \<longleftrightarrow> 0 \<le> n"
  shows "double_to_price (Number q) = Inr (word_of_int n)"
proof -
  let ?h = "if 0 \<le> q then 1 / 2 else - 1 / 2 :: rat"
  have nb: "\<bar>of_int n :: rat\<bar> \<le> 2 ^ 50" using assms(1) by (metis of_int_abs of_int_le_iff of_int_numeral of_int_power)
  have quarter: "\<bar>rounded y - y\<bar> \<le> 1 / 8" and moderate: "round_f64 y = Number (rounded y)"
    if "\<bar>y\<bar> \<le> 2 ^ 50 + 1" for y
  proof -
    have "\<bar>y\<bar> < 2 powi (- 2 + 53)" using that by (simp add: power_int_def)
    from rounded_error_below [OF this] have "\<bar>rounded y - y\<bar> \<le> 2 powi (- 2) / 2" by simp
    also have "\<dots> = 1 / 8" by (simp add: power_int_def power2_eq_square)
    finally show "\<bar>rounded y - y\<bar> \<le> 1 / 8" .
    show "round_f64 y = Number (rounded y)" using that by (intro round_f64_moderate) simp
  qed
  let ?m = "q * 10000"
  have m: "\<bar>?m\<bar> \<le> 2 ^ 50 + 1" using nb assms(2) by linarith
  note r1 = quarter [OF m] moderate [OF m]
  have s: "\<bar>rounded ?m + ?h\<bar> \<le> 2 ^ 50 + 1" 
  proof -
    have "\<bar>?h\<bar> \<le> 1 / 2" by simp
    with nb assms(2) r1(1) show ?thesis by linarith
  qed
  note r2 = quarter [OF s] moderate [OF s]
  let ?t = "rounded (rounded ?m + ?h)"
  have near: "\<bar>?t - ?h - of_int n\<bar> \<le> 3 / 8" using r1(1) r2(1) assms(2) by linarith
  have "toward_zero ?t = n"
  proof (cases "0 \<le> n")
    case True
    with assms(3) near have "\<bar>?t - 1 / 2 - of_int n\<bar> \<le> 3 / 8" by simp
    with True show ?thesis by (intro drops_fraction(1)) linarith+
  next
    case False
    with assms(3) near have "\<bar>?t + 1 / 2 - of_int n\<bar> \<le> 3 / 8" by simp
    with False show ?thesis by (intro drops_fraction(2)) linarith+
  qed
  moreover have "- (2 ^ 63) \<le> n" "n < 2 ^ 63" using assms(1) by (auto simp: abs_le_iff)
  moreover have "f64_of_int kPriceScale = Number 10000"
    by (simp add: kPriceScale_def f64_of_int_exact)
  ultimately show ?thesis using r1(2) r2(2) by (simp add: double_to_price_def)
qed

text \<open>C30. A price survives the way to a double and back, through three rounded operations, when its
  absolute value is at most \<open>2 ^ 50\<close> ticks, which is more than 112 billion whole units.\<close>

theorem price_double_roundtrip:
  assumes "\<bar>sint p\<bar> \<le> 2 ^ 50"
  shows "double_to_price (price_to_double p) = Inr p"
proof -
  obtain n where n: "sint p = n" by simp
  with assms have "\<bar>n\<bar> < 2 ^ 53" "\<bar>n\<bar> \<le> 2 ^ 50" by simp_all
  from price_to_double_error [OF n this(1)] obtain q where q: "price_to_double p = Number q"
    "\<bar>q - of_int n / 10000\<bar> \<le> \<bar>of_int n / 10000\<bar> / 2 ^ 53" .
  have "\<bar>of_int n :: rat\<bar> \<le> 2 ^ 50"
    using \<open>\<bar>n\<bar> \<le> 2 ^ 50\<close> by (metis of_int_abs of_int_le_iff of_int_numeral of_int_power)
  with q(2) have "\<bar>q * 10000 - of_int n\<bar> \<le> 1 / 8" by (simp add: abs_le_iff abs_if split: if_splits)
  moreover have "0 \<le> q \<longleftrightarrow> 0 \<le> n"
  proof (cases "0 \<le> n")
    case True
    then have "(0 :: rat) \<le> of_int n" by simp
    with q(2) have "0 \<le> q" by (simp add: abs_if split: if_splits)
    with True show ?thesis by simp
  next
    case False
    then have "(of_int n :: rat) < 0" by simp
    with q(2) have "q < 0" by (simp add: abs_if split: if_splits)
    with False show ?thesis by simp
  qed
  ultimately have "double_to_price (Number q) = Inr (word_of_int n)"
    using \<open>\<bar>n\<bar> \<le> 2 ^ 50\<close> by (intro double_to_price_near)
  then show ?thesis by (simp add: q(1) flip: n)
qed

theorem price_double_roundtrip_witness:
  "double_to_price (price_to_double (- 1234567)) = Inr (- 1234567)"
  by (rule price_double_roundtrip) simp

end
