(* ===== verification/Pacing.thy ===== *)
theory Pacing
  imports Doubles
begin

text \<open>
  The clock of the timed replay (\<^verbatim>\<open>src/replay.cpp\<close>, lines 37 to 44): the time until which the loop
  sleeps before a frame is computed from an unsigned difference of timestamps, a division in
  \<^verbatim>\<open>double\<close>, a conversion to \<^verbatim>\<open>std::int64_t\<close> and a signed addition, the last two of which can be
  undefined. The sleep itself changes no state.
\<close>

section \<open>Configuration and target\<close>

datatype ReplayMode = MaxSpeed | Realtime | Accelerated

record ReplayConfig =
  rc_mode :: ReplayMode
  rc_speed :: f64

definition ReplayConfig_default :: ReplayConfig where
  "ReplayConfig_default = \<lparr>rc_mode = MaxSpeed, rc_speed = Number 1\<rparr>"

definition pace_scale :: "ReplayConfig \<Rightarrow> f64" where
  "pace_scale cfg = (if rc_mode cfg = Accelerated \<and> f64_positive (rc_speed cfg) then rc_speed cfg else Number 1)"

text \<open>The wall clock at the start and the target are nanoseconds of \<^verbatim>\<open>std::chrono\<close>, 64-bit signed.\<close>

definition sleep_target :: "u64 \<Rightarrow> ReplayConfig \<Rightarrow> TimestampNs \<Rightarrow> TimestampNs \<Rightarrow> u64 exec" where
  "sleep_target start_wall cfg first_ts ts =
     ebind (f64_to_i64 (f64_div (f64_of_int (uint (ts - first_ts))) (pace_scale cfg))) (\<lambda>offset.
     i64_exec (sint start_wall + sint offset))"

definition paced :: "u64 \<Rightarrow> ReplayConfig \<Rightarrow> TimestampNs \<Rightarrow> TimestampNs \<Rightarrow> bool" where
  "paced start_wall cfg first_ts ts \<longleftrightarrow> \<not> isl (sleep_target start_wall cfg first_ts ts)"

section \<open>When the target is defined\<close>

lemma rounded_nonneg: "0 \<le> x \<Longrightarrow> 0 \<le> rounded x"
proof -
  assume "0 \<le> x"
  then have "0 \<le> \<lfloor>x / 2 powi ulp_exp x\<rfloor>" by simp
  then have "0 \<le> nearest_even (x / 2 powi ulp_exp x)" by (auto simp: nearest_even_def Let_def)
  then have "(0 :: rat) \<le> of_int (nearest_even (x / 2 powi ulp_exp x))" by simp
  then show ?thesis by (simp add: rounded_def)
qed

text \<open>Below \<open>2 ^ 65\<close> the error is at most \<open>2 ^ 11\<close>.\<close>

lemma rounded_clock:
  assumes "\<bar>x\<bar> < 2 ^ 65"
  shows "\<bar>rounded x - x\<bar> \<le> 2 ^ 11" and "round_f64 x = Number (rounded x)"
proof -
  have "\<bar>x\<bar> < 2 powi (12 + 53)" using assms by (simp add: power_int_def)
  from rounded_error_below [OF this] show "\<bar>rounded x - x\<bar> \<le> 2 ^ 11" by (simp add: power_int_def)
  have "(2 :: rat) ^ 65 \<le> 2 ^ 100" by simp
  with assms show "round_f64 x = Number (rounded x)" by (intro round_f64_moderate) linarith
qed

lemma scaled_offset:
  fixes ts first_ts :: TimestampNs
  assumes "pace_scale cfg = Number r" and "1 \<le> r" and "d = uint (ts - first_ts)"
  obtains y where "f64_div (f64_of_int (uint (ts - first_ts))) (pace_scale cfg) = Number y"
    and "0 \<le> y" and "\<bar>y - of_int d / r\<bar> \<le> 2 ^ 12"
proof -
  have "0 \<le> d" "d < 2 ^ 64" unfolding assms(3)
    by (simp, rule order_less_le_trans [OF uint_lt2p], simp)
  then have d: "(0 :: rat) \<le> of_int d" "of_int d < (2 ^ 64 :: rat)"
    by simp (metis \<open>d < 2 ^ 64\<close> of_int_less_iff of_int_numeral of_int_power)
  then have "\<bar>of_int d :: rat\<bar> < 2 ^ 65" by simp
  note c = rounded_clock [OF this] and nn = rounded_nonneg [OF d(1)]
  let ?q = "rounded (of_int d) / r"
  have q: "0 \<le> ?q" "?q \<le> rounded (of_int d)"
    using nn assms(2) by (simp_all add: divide_le_eq mult_le_cancel_left1)
  have "(2 :: rat) ^ 11 + 2 ^ 64 < 2 ^ 65" by simp
  with c(1) d have "rounded (of_int d) < 2 ^ 65" by linarith
  with q have "\<bar>?q\<bar> < 2 ^ 65" by linarith
  note c' = rounded_clock [OF this]
  have "\<bar>?q - of_int d / r\<bar> = \<bar>rounded (of_int d) - of_int d\<bar> / r"
    using assms(2) by (simp add: abs_divide flip: diff_divide_distrib)
  also have "\<dots> \<le> \<bar>rounded (of_int d) - of_int d\<bar>"
    using assms(2) by (simp add: divide_le_eq mult_le_cancel_left1)
  finally have "\<bar>rounded ?q - of_int d / r\<bar> \<le> 2 ^ 11 + 2 ^ 11" using c(1) c'(1) by linarith
  then have "\<bar>rounded ?q - of_int d / r\<bar> \<le> 2 ^ 12" by simp
  moreover have "f64_div (f64_of_int (uint (ts - first_ts))) (pace_scale cfg) = Number (rounded ?q)"
    using assms c(2) c'(2) by (simp add: f64_of_int_def)
  ultimately show thesis using rounded_nonneg [OF q(1)] by (intro that)
qed

lemma of_int_bound: "(of_int a :: rat) \<le> of_int b \<longleftrightarrow> a \<le> b"
  by simp

text \<open>A difference of at most \<open>2 ^ 62\<close> nanoseconds, 146 years, is paced, at any speed from 1 on.\<close>

lemma paced_near:
  assumes "pace_scale cfg = Number r" and "1 \<le> r" and "uint (ts - first_ts) \<le> 2 ^ 62"
    and "0 \<le> sint start_wall" and "sint start_wall \<le> 2 ^ 61"
  shows "paced start_wall cfg first_ts ts"
proof -
  obtain d where d: "d = uint (ts - first_ts)" by simp
  from scaled_offset [OF assms(1,2) d] obtain y where
    y: "f64_div (f64_of_int (uint (ts - first_ts))) (pace_scale cfg) = Number y"
    "0 \<le> y" "\<bar>y - of_int d / r\<bar> \<le> 2 ^ 12" .
  have "0 \<le> d" "d \<le> 2 ^ 62" using assms(3) unfolding d by simp_all
  then have "of_int d \<le> (of_int (2 ^ 62) :: rat)" "(0 :: rat) \<le> of_int d"
    by (simp_all only: of_int_bound of_int_0_le_iff)
  moreover from this(2) have "of_int d / r \<le> of_int d"
    using assms(2) by (simp add: divide_le_eq mult_le_cancel_left1)
  ultimately have "y \<le> of_int (2 ^ 62 + 2 ^ 12)" using y(3) by simp
  then have t: "0 \<le> toward_zero y" "toward_zero y \<le> 2 ^ 62 + 2 ^ 12"
    using y(2) unfolding toward_zero_def by (simp_all add: floor_le_iff)
  then have "sint (word_of_int (toward_zero y) :: u64) = toward_zero y"
    by (simp add: signed_of_int signed_take_bit_int_eq_self)
  with t y(1) assms(4,5) show ?thesis by (simp add: paced_def sleep_target_def i64_exec_def)
qed

text \<open>A time up to 146 years before the first one is not, at the recorded speed.\<close>

lemma backward_not_paced:
  assumes "pace_scale cfg = Number 1" and "2 ^ 64 - 2 ^ 62 \<le> uint (ts - first_ts)"
  shows "sleep_target start_wall cfg first_ts ts = Inl BadConversion"
proof -
  obtain d where d: "d = uint (ts - first_ts)" by simp
  from scaled_offset [OF assms(1) order_refl d] obtain y where
    y: "f64_div (f64_of_int (uint (ts - first_ts))) (pace_scale cfg) = Number y"
    "0 \<le> y" "\<bar>y - of_int d / 1\<bar> \<le> 2 ^ 12" .
  have "of_int (2 ^ 64 - 2 ^ 62) \<le> (of_int d :: rat)"
    unfolding of_int_bound using assms(2) d by simp
  with y(3) have "of_int (2 ^ 63) \<le> y" by (simp add: abs_le_iff)
  then have "2 ^ 63 \<le> toward_zero y" using y(2) unfolding toward_zero_def le_floor_iff [symmetric] by simp
  with y(1) show ?thesis by (simp add: sleep_target_def)
qed

end
