(* ===== verification/Replay.thy ===== *)
theory Replay
  imports Feed_To_Books Pacing
begin

text \<open>
  Model of \<^verbatim>\<open>include/mdfh/replay.hpp\<close> and \<^verbatim>\<open>src/replay.cpp\<close>: the two replay paths and the
  fingerprint of the books. The timed path computes its wake-up times (theory \<open>Pacing\<close>), the clock at
  its start is an argument; \<^verbatim>\<open>wall_seconds\<close>, which is only reported, is left out. The
  lemmas give each path in terms of the scan of the capture, which shows where they agree and
  where they do not, and express the fingerprint by the abstract books.
\<close>

section \<open>The driver\<close>

record ReplayResult =
  rp_messages_parsed :: u64
  rp_malformed :: u64
  rp_forwarded :: u64
  rp_dropped :: u64
  rp_seq :: SeqStats

definition ReplayResult_init :: ReplayResult where
  "ReplayResult_init = \<lparr>rp_messages_parsed = 0, rp_malformed = 0, rp_forwarded = 0, rp_dropped = 0,
     rp_seq = SeqStats_init\<rparr>"

text \<open>The loop of the timed path; \<open>first\<close> is the time of the first frame, once there is one.\<close>

function replay_timed ::
  "'d Handler \<Rightarrow> ReplayConfig \<Rightarrow> u64 \<Rightarrow> byte list \<Rightarrow> nat \<Rightarrow> TimestampNs option \<Rightarrow> 'd FeedHandler \<Rightarrow>
     ReplayResult \<Rightarrow> ('d FeedHandler \<times> ReplayResult) exec" where
  "replay_timed H cfg start_wall msgs off first f res =
     (if off + kHeaderWireSize \<le> length msgs then
        ebind (subspan msgs off kHeaderWireSize) (\<lambda>header_span.
        ebind (decode_header header_span) (\<lambda>decoded. case decoded of
          None \<Rightarrow> Inr (f, res)
        | Some hdr \<Rightarrow>
            (let frame = kHeaderWireSize + unat (hdr_body_size hdr)
             in if off + frame > length msgs then Inr (f, res)
                else
                  let first_ts = (case first of None \<Rightarrow> hdr_timestamp hdr | Some t \<Rightarrow> t)
                  in ebind (sleep_target start_wall cfg first_ts (hdr_timestamp hdr)) (\<lambda>target.
                     ebind (subspan msgs off frame) (\<lambda>bytes.
                     ebind (consume H bytes f) (\<lambda>(f, r).
                     replay_timed H cfg start_wall msgs (off + frame) (Some first_ts) f
                       (res\<lparr>rp_messages_parsed := rp_messages_parsed res + of_nat (messages r),
                            rp_malformed := rp_malformed res + of_nat (malformed r)\<rparr>)))))))
      else Inr (f, res))"
  by pat_completeness auto
termination
  by (relation "measure (\<lambda>(H, cfg, start_wall, msgs, off, first, f, res). length msgs - off)")
    (auto simp: kHeaderWireSize_def)

declare replay_timed.simps [simp del]

definition replay ::
  "'d Handler \<Rightarrow> ReplayConfig \<Rightarrow> u64 \<Rightarrow> byte list \<Rightarrow> 'd FeedHandler \<Rightarrow>
     ('d FeedHandler \<times> ReplayResult) exec" where
  "replay H cfg start_wall msgs f =
     ebind (if rc_mode cfg = MaxSpeed then
              ebind (consume H msgs f) (\<lambda>(f, r).
              Inr (f, ReplayResult_init\<lparr>rp_messages_parsed := of_nat (messages r),
                                       rp_malformed := of_nat (malformed r)\<rparr>))
            else replay_timed H cfg start_wall msgs 0 None f ReplayResult_init) (\<lambda>(f, res).
     Inr (f, res\<lparr>rp_forwarded := forwarded f, rp_dropped := dropped f,
                rp_seq := stats (seq_tracker f)\<rparr>))"

section \<open>The fingerprint\<close>

definition mix :: "u64 \<Rightarrow> u64 \<Rightarrow> u64" where
  "mix v h = (h XOR v) * 1099511628211"

definition mix_view :: "LevelView option \<Rightarrow> u64 \<Rightarrow> u64" where
  "mix_view view h = (case view of
       None \<Rightarrow> h
     | Some v \<Rightarrow> mix (ucast (lv_order_count v)) (mix (ucast (lv_quantity v)) (mix (lv_price v) h)))"

definition book_hash :: "SymbolId \<Rightarrow> OrderBook \<Rightarrow> u64" where
  "book_hash symbol bk =
     (let h = 1469598103934665603;
          h = mix (ucast symbol) h;
          h = mix (of_nat (bid_levels bk)) h;
          h = mix (of_nat (ask_levels bk)) h;
          h = mix (of_nat (order_count bk)) h;
          h = mix_view (best_bid bk) h
      in mix_view (best_ask bk) h)"

definition book_fingerprint :: "BookManager \<Rightarrow> u64" where
  "book_fingerprint m = for_each (\<lambda>symbol bk acc. acc + book_hash symbol bk) m 0"

section \<open>The timed path by the scan of the capture\<close>

lemma front_header_take:
  "kHeaderWireSize \<le> n \<Longrightarrow> n \<le> length buf \<Longrightarrow> front_header (take n buf) = front_header buf"
  using front_header_append [of "take n buf" "drop n buf"] by simp

lemma classify_take:
  assumes "n \<le> length buf"
  shows "classify buf = Mismatch n \<Longrightarrow> classify (take n buf) = Mismatch n"
    and "classify buf = Framed hdr body n \<Longrightarrow> classify (take n buf) = Framed hdr body n"
proof -
  have take_body: "take k (drop kHeaderWireSize (take n buf)) = take k (drop kHeaderWireSize buf)"
    if "kHeaderWireSize + k \<le> n" for k
    using that by (simp add: drop_take min_def)
  show "classify (take n buf) = Mismatch n" if c: "classify buf = Mismatch n"
  proof -
    from c have "kHeaderWireSize \<le> n" using classify_frame_bounds(1) by blast
    with c assms front_header_take [of n buf] take_body show ?thesis
      by (auto simp: classify_def Let_def split: if_splits option.splits sum.splits)
  qed
  show "classify (take n buf) = Framed hdr body n" if c: "classify buf = Framed hdr body n"
  proof -
    from c have "kHeaderWireSize \<le> n" using classify_frame_bounds(2) by blast
    with c assms front_header_take [of n buf] take_body show ?thesis
      by (auto simp: classify_def Let_def split: if_splits option.splits sum.splits)
  qed
qed

text \<open>One frame, fed on its own.\<close>

lemma scan_single:
  assumes "n \<le> length buf"
  shows "classify buf = Mismatch n \<Longrightarrow> scan 0 (take n buf) = ([Reject 0], n, AtEnd)"
    and "classify buf = Framed hdr body n \<Longrightarrow> scan 0 (take n buf) = ([Deliver hdr body], n, AtEnd)"
proof -
  have e: "scan n [] = ([], n, AtEnd)" by (simp add: scan_Short classify_def kHeaderWireSize_def)
  show "classify buf = Mismatch n \<Longrightarrow> scan 0 (take n buf) = ([Reject 0], n, AtEnd)"
    using scan_Mismatch [of "take n buf" n 0 "[]" n AtEnd] classify_take(1) [OF assms] assms e by simp
  show "classify buf = Framed hdr body n \<Longrightarrow> scan 0 (take n buf) = ([Deliver hdr body], n, AtEnd)"
    using scan_Framed [of "take n buf" hdr body n 0 "[]" n AtEnd] classify_take(2) [OF assms] assms e
    by simp
qed

text \<open>What the timed path hands on: offsets are those within a frame, and a bad header ends it
  without a report.\<close>

fun local_item :: "Item \<Rightarrow> Item" where
  "local_item (Deliver hdr body) = Deliver hdr body"
| "local_item (Reject off) = Reject 0"

definition timed_items :: "Item list \<Rightarrow> Stop \<Rightarrow> Item list" where
  "timed_items items s = map local_item (if s = AtBadHeader then butlast items else items)"

text \<open>The times of the whole frames of a capture, in order.\<close>

definition frame_time :: "byte list \<Rightarrow> TimestampNs" where
  "frame_time buf = (case front_header buf of None \<Rightarrow> 0 | Some hdr \<Rightarrow> hdr_timestamp hdr)"

function frame_times :: "byte list \<Rightarrow> TimestampNs list" where
  "frame_times buf = (case classify buf of
       Mismatch n \<Rightarrow> frame_time buf # frame_times (drop n buf)
     | Framed hdr body n \<Rightarrow> frame_time buf # frame_times (drop n buf)
     | _ \<Rightarrow> [])"
  by pat_completeness auto
termination
  by (relation "measure length") (auto dest!: classify_frame_bounds simp: kHeaderWireSize_def)

declare frame_times.simps [simp del]

definition base_time :: "TimestampNs option \<Rightarrow> TimestampNs list \<Rightarrow> TimestampNs" where
  "base_time first ts = (case first of None \<Rightarrow> hd ts | Some t \<Rightarrow> t)"

text \<open>Every wake-up time of a timed replay of the capture is defined.\<close>

definition pacing_ok :: "u64 \<Rightarrow> ReplayConfig \<Rightarrow> byte list \<Rightarrow> bool" where
  "pacing_ok start_wall cfg msgs \<longleftrightarrow>
     list_all (paced start_wall cfg (hd (frame_times msgs))) (frame_times msgs)"

lemma replay_timed_step:
  assumes "off \<le> length msgs"
  shows "replay_timed H cfg start_wall msgs off first f res =
    (let first_ts = base_time first [frame_time (drop off msgs)];
         next = (\<lambda>n. ebind (sleep_target start_wall cfg first_ts (frame_time (drop off msgs))) (\<lambda>target.
                  ebind (consume H (take n (drop off msgs)) f) (\<lambda>(f, r).
                  replay_timed H cfg start_wall msgs (off + n) (Some first_ts) f
                    (res\<lparr>rp_messages_parsed := rp_messages_parsed res + of_nat (messages r),
                         rp_malformed := rp_malformed res + of_nat (malformed r)\<rparr>))))
     in case classify (drop off msgs) of
       Mismatch n \<Rightarrow> next n
     | Framed hdr body n \<Rightarrow> next n
     | _ \<Rightarrow> Inr (f, res))"
proof (cases "off + kHeaderWireSize \<le> length msgs")
  case False
  with assms have "length msgs - off < kHeaderWireSize" by linarith
  then have "classify (drop off msgs) = Short" by (simp add: classify_def)
  with False show ?thesis by (subst replay_timed.simps) simp
next
  case True
  let ?buf = "drop off msgs"
  have len: "kHeaderWireSize \<le> length ?buf" using True by simp
  from front_header_Some [OF this]
  have dec: "decode_header (take kHeaderWireSize ?buf) = Inr (front_header ?buf)" .
  show ?thesis
  proof (cases "front_header ?buf")
    case None
    with True dec len show ?thesis
      by (subst replay_timed.simps) (simp add: classify_def)
  next
    case (Some hdr)
    with True dec len assms show ?thesis
      by (subst replay_timed.simps)
        (auto simp: classify_def Let_def frame_time_def base_time_def split: sum.splits option.splits)
  qed
qed

lemma timed_items_Cons:
  "items \<noteq> [] \<or> s \<noteq> AtBadHeader \<Longrightarrow> timed_items (i # items) s = local_item i # timed_items items s"
  by (auto simp: timed_items_def)

lemma scan_bad_nonempty: "scan off buf = (items, c, AtBadHeader) \<Longrightarrow> items \<noteq> []"
  by (erule scan_cases) auto

lemma base_time_simps [simp]:
  "base_time (Some t) ts = t" "base_time None (t # ts) = t"
  by (simp_all add: base_time_def)

lemma frame_times_cases:
  "classify buf = Mismatch n \<Longrightarrow> frame_times buf = frame_time buf # frame_times (drop n buf)"
  "classify buf = Framed hdr body n \<Longrightarrow> frame_times buf = frame_time buf # frame_times (drop n buf)"
  "classify buf = Short \<or> classify buf = Partial \<or> classify buf = BadHeader \<Longrightarrow> frame_times buf = []"
  by (auto simp: frame_times.simps [of buf])

lemma pacedE:
  assumes "paced start_wall cfg first_ts ts"
  obtains t where "sleep_target start_wall cfg first_ts ts = Inr t"
  using assms by (cases "sleep_target start_wall cfg first_ts ts") (auto simp: paced_def)

lemma replay_timed_eq:
  assumes "scan off (drop off msgs) = (items, c, s)" and "off \<le> length msgs" and "residual f = []"
    and "list_all (paced start_wall cfg (base_time first (frame_times (drop off msgs)))) (frame_times (drop off msgs))"
  shows "replay_timed H cfg start_wall msgs off first f res =
    ebind (run_items (fh_handler H) (timed_items items s) f) (\<lambda>f'.
      Inr (with_buffer [] (fh_malformed f + of_nat (rejections (timed_items items s))) f',
           res\<lparr>rp_messages_parsed := rp_messages_parsed res + of_nat (deliveries (timed_items items s)),
               rp_malformed := rp_malformed res + of_nat (rejections (timed_items items s))\<rparr>))"
  using assms
proof (induction "length msgs - off" arbitrary: off first items f res rule: less_induct)
  case less
  let ?buf = "drop off msgs"
  let ?t = "frame_time ?buf" let ?first = "base_time first [?t]"
  have stop: "run_items (fh_handler H) [] = Inr" by (rule ext) simp
  have frame: ?case
    if single: "scan 0 (take n ?buf) = ([local_item i], n, AtEnd)"
      and step: "replay_timed H cfg start_wall msgs off first f res =
        ebind (sleep_target start_wall cfg ?first ?t) (\<lambda>target. ebind (consume H (take n ?buf) f) (\<lambda>(f, r).
        replay_timed H cfg start_wall msgs (off + n) (Some ?first) f
          (res\<lparr>rp_messages_parsed := rp_messages_parsed res + of_nat (messages r),
               rp_malformed := rp_malformed res + of_nat (malformed r)\<rparr>)))"
      and rest: "scan (off + n) (drop n ?buf) = (items', c, s)" and items: "items = i # items'"
      and n: "0 < n" "n \<le> length ?buf" and times: "frame_times ?buf = ?t # frame_times (drop n ?buf)"
    for i n items'
  proof -
    have sc: "scan 0 (residual f @ take n ?buf) = ([local_item i], n, AtEnd)"
      using single less.prems(3) by simp
    have ti: "timed_items items s = local_item i # timed_items items' s"
      unfolding items by (rule timed_items_Cons) (use rest scan_bad_nonempty in blast)
    have rest': "scan (off + n) (drop (off + n) msgs) = (items', c, s)"
      using rest by (simp add: add.commute)
    have bound: "off + n \<le> length msgs" using n less.prems(2) by simp
    have "base_time first (?t # frame_times (drop n ?buf)) = ?first" by (cases first) simp_all
    with less.prems(4) times have now: "paced start_wall cfg ?first ?t"
      and later: "list_all (paced start_wall cfg (base_time (Some ?first) (frame_times (drop (off + n) msgs))))
        (frame_times (drop (off + n) msgs))" by (simp_all add: add.commute)
    have cons: "consume H (take n ?buf) f = ebind (on_item (fh_handler H) (local_item i) f) (\<lambda>f'.
        Inr (with_buffer [] (fh_malformed f + of_nat (rejections [local_item i])) f',
             \<lparr>bytes_consumed = n, messages = deliveries [local_item i],
              malformed = rejections [local_item i], needs_more = False\<rparr>))"
      using consume_eq [OF sc, of H] n less.prems(3) by (simp add: min_def stop)
    obtain target where target: "sleep_target start_wall cfg ?first ?t = Inr target" using now by (rule pacedE)
    show ?thesis
    proof (cases "on_item (fh_handler H) (local_item i) f")
      case (Inl e)
      then show ?thesis by (simp add: step target cons ti)
    next
      case (Inr f1)
      let ?f1 = "with_buffer [] (fh_malformed f + of_nat (rejections [local_item i])) f1"
      have dec: "length msgs - (off + n) < length msgs - off" using n less.prems(2) by simp
      have "residual ?f1 = []" by simp
      note IH = less.hyps [OF dec rest' bound this later]
      have counts: "deliveries (local_item i # is) = deliveries [local_item i] + deliveries is"
        "rejections (local_item i # is) = rejections [local_item i] + rejections is" for "is"
        by (simp_all add: deliveries_def rejections_def)
      from Inr show ?thesis
        by (simp add: step target cons ti IH run_items_with_buffer ebind_assoc add.assoc
            counts [of "timed_items items' s"])
    qed
  qed
  have none: ?case if "timed_items items s = []" "replay_timed H cfg start_wall msgs off first f res = Inr (f, res)"
  proof -
    have "with_buffer [] (fh_malformed f) f = f"
      using with_buffer_same [of f] less.prems(3) by simp
    with that show ?thesis by simp
  qed
  note step = replay_timed_step [OF less.prems(2), of H cfg start_wall first f res, unfolded Let_def]
  from less.prems(1) show ?case
  proof (cases rule: scan_cases)
    case (Mismatch n is')
    with step scan_single(1) [of n ?buf] classify_frame_bounds(1) [of ?buf n] frame_times_cases(1) show ?thesis
      by (intro frame [of n "Reject off" is']) (auto simp: kHeaderWireSize_def)
  next
    case (Framed hdr body n is')
    with step scan_single(2) [of n ?buf hdr body] classify_frame_bounds(2) [of ?buf hdr body n]
      frame_times_cases(2) show ?thesis
      by (intro frame [of n "Deliver hdr body" is']) (auto simp: kHeaderWireSize_def)
  qed (use none step in \<open>simp_all add: timed_items_def\<close>)
qed

text \<open>Without a defined wake-up time the loop does not get past the frame.\<close>

lemma replay_timed_unpaced:
  assumes "off \<le> length msgs"
    and "\<not> list_all (paced start_wall cfg (base_time first (frame_times (drop off msgs)))) (frame_times (drop off msgs))"
  shows "isl (replay_timed H cfg start_wall msgs off first f res)"
  using assms
proof (induction "length msgs - off" arbitrary: off first f res rule: less_induct)
  case less
  let ?buf = "drop off msgs"
  let ?t = "frame_time ?buf" let ?first = "base_time first [?t]"
  have frame: ?case
    if step: "replay_timed H cfg start_wall msgs off first f res =
        ebind (sleep_target start_wall cfg ?first ?t) (\<lambda>target. ebind (consume H (take n ?buf) f) (\<lambda>(f, r).
        replay_timed H cfg start_wall msgs (off + n) (Some ?first) f
          (res\<lparr>rp_messages_parsed := rp_messages_parsed res + of_nat (messages r),
               rp_malformed := rp_malformed res + of_nat (malformed r)\<rparr>)))"
      and n: "0 < n" "n \<le> length ?buf" and times: "frame_times ?buf = ?t # frame_times (drop n ?buf)" for n
  proof (cases "sleep_target start_wall cfg ?first ?t")
    case (Inl e)
    then show ?thesis by (simp add: step)
  next
    case (Inr target)
    have dec: "length msgs - (off + n) < length msgs - off" "off + n \<le> length msgs" using n less.prems(1) by simp_all
    have "base_time first (?t # frame_times (drop n ?buf)) = ?first" by (cases first) simp_all
    with less.prems(2) times Inr have "\<not> list_all (paced start_wall cfg
        (base_time (Some ?first) (frame_times (drop (off + n) msgs)))) (frame_times (drop (off + n) msgs))"
      by (simp add: add.commute paced_def)
    note IH = less.hyps [OF dec this]
    show ?thesis by (cases "consume H (take n ?buf) f") (simp_all add: step Inr IH split_beta)
  qed
  note step = replay_timed_step [OF less.prems(1), of H cfg start_wall first f res, unfolded Let_def]
  show ?case
  proof (cases "classify ?buf")
    case (Mismatch n)
    with step classify_frame_bounds(1) [of ?buf n] frame_times_cases(1) show ?thesis
      by (intro frame [of n]) (auto simp: kHeaderWireSize_def)
  next
    case (Framed hdr body n)
    with step classify_frame_bounds(2) [of ?buf hdr body n] frame_times_cases(2) show ?thesis
      by (intro frame [of n]) (auto simp: kHeaderWireSize_def)
  qed (use less.prems(2) frame_times_cases(3) [of ?buf] in simp_all)
qed

text \<open>A capture of messages has their times.\<close>

lemma frame_times_prefix:
  "scan off buf = (map message_item ms @ items, c, s) \<Longrightarrow>
     \<exists>off' buf'. frame_times buf = map (fst \<circ> snd) ms @ frame_times buf' \<and> scan off' buf' = (items, c, s)"
proof (induction ms arbitrary: off buf)
  case Nil
  then show ?case by auto
next
  case (Cons m ms)
  obtain seq ts body where m: "m = (seq, ts, body)" by (metis prod_cases3)
  have "scan off buf = (Deliver (header_of seq ts body) body # map message_item ms @ items, c, s)"
    using Cons.prems m by simp
  then obtain n where n: "classify buf = Framed (header_of seq ts body) body n"
    "scan (off + n) (drop n buf) = (map message_item ms @ items, c, s)"
    by (cases rule: scan_cases) auto
  have "frame_time buf = ts" using n(1)
    by (auto simp: classify_def frame_time_def Let_def header_of_def split: if_splits option.splits sum.splits)
  with Cons.IH [OF n(2)] frame_times_cases(2) [OF n(1)] m show ?case by simp
qed

lemma frame_times_empty:
  assumes "scan off buf = ([], c, s)"
  shows "frame_times buf = []"
  using assms by (cases rule: scan_cases) (simp_all add: frame_times_cases(3))

lemma frame_times_items:
  assumes "scan off buf = (map message_item ms, c, s)"
  shows "frame_times buf = map (fst \<circ> snd) ms"
proof -
  from assms have "scan off buf = (map message_item ms @ [], c, s)" by simp
  from frame_times_prefix [OF this] obtain off' buf' where
    "frame_times buf = map (fst \<circ> snd) ms @ frame_times buf'" "scan off' buf' = ([], c, s)" by blast
  with frame_times_empty show ?thesis by simp
qed

lemma frame_times_bad:
  assumes "scan off buf = (map message_item ms @ [Reject o'], c, AtBadHeader)"
  shows "frame_times buf = map (fst \<circ> snd) ms"
proof -
  from frame_times_prefix [OF assms] obtain off' buf' where
    times: "frame_times buf = map (fst \<circ> snd) ms @ frame_times buf'" and
    "scan off' buf' = ([Reject o'], c, AtBadHeader)" by blast
  from this(2) have "frame_times buf' = []"
    by (cases rule: scan_cases) (auto simp: frame_times_cases(3) dest: scan_bad_nonempty)
  with times show ?thesis by simp
qed

section \<open>The fingerprint by the abstract books\<close>

definition ab_hash :: "SymbolId \<Rightarrow> book \<Rightarrow> u64" where
  "ab_hash symbol L =
     (let best = (\<lambda>bid. case ab_ladder bid L of [] \<Rightarrow> None | v # _ \<Rightarrow> Some v)
      in mix_view (best False) (mix_view (best True)
           (mix (of_nat (length L)) (mix (of_nat (length (ab_ladder False L)))
             (mix (of_nat (length (ab_ladder True L))) (mix (ucast symbol) 1469598103934665603))))))"

lemma rep_best:
  assumes "rep b G"
  shows "best_bid b = (case ab_ladder True (map snd G) of [] \<Rightarrow> None | v # _ \<Rightarrow> Some v)"
    and "best_ask b = (case ab_ladder False (map snd G) of [] \<Rightarrow> None | v # _ \<Rightarrow> Some v)"
    and "bid_levels b = length (ab_ladder True (map snd G))"
    and "ask_levels b = length (ab_ladder False (map snd G))"
  using rep_sides(3,4) [OF assms, symmetric]
  by (simp_all add: best_bid_def best_ask_def bid_levels_def ask_levels_def del: map_map
      split: list.split prod.split)

lemma book_hash_rep: "represents bk L \<Longrightarrow> book_hash s bk = ab_hash s L"
  by (auto simp: represents_def book_hash_def ab_hash_def Let_def rep_best order_count_def
      rep_order_count)

lemma fingerprint_sum:
  "for_each (\<lambda>symbol bk acc. acc + book_hash symbol bk) m acc = acc + sum_list (map (\<lambda>(s, bk). book_hash s bk) m)"
  by (induction "\<lambda>symbol bk acc. acc + book_hash symbol bk" m acc rule: for_each.induct) (simp_all add: add.assoc)

lemma fingerprint_rep:
  assumes "builder_rep bb F"
  shows "book_fingerprint (bb_manager bb) = (\<Sum>s\<in>dom F. ab_hash s (the (F s)))"
proof -
  let ?m = "bb_manager bb"
  have d: "distinct (map fst ?m)" using assms by (simp add: builder_rep_def)
  have hash: "book_hash s bk = ab_hash s (the (F s))" if "(s, bk) \<in> set ?m" for s bk
  proof -
    have "map_of ?m s = Some bk" using that d by simp
    with builder_rep_at [OF assms, of s] show ?thesis by (cases "F s") (auto simp: book_hash_rep)
  qed
  have dom: "set (map fst ?m) = dom F"
  proof -
    have "s \<in> fst ` set ?m \<longleftrightarrow> F s \<noteq> None" for s
      using builder_rep_at [OF assms, of s] map_of_eq_None_iff [of ?m s] by (cases "F s") auto
    then show ?thesis by auto
  qed
  have "book_fingerprint ?m = sum_list (map (\<lambda>(s, bk). book_hash s bk) ?m)"
    by (simp add: book_fingerprint_def fingerprint_sum)
  also have "map (\<lambda>(s, bk). book_hash s bk) ?m = map (\<lambda>s. ab_hash s (the (F s))) (map fst ?m)"
    using hash by auto
  also have "sum_list (map (\<lambda>s. ab_hash s (the (F s))) (map fst ?m)) =
      (\<Sum>s\<in>set (map fst ?m). ab_hash s (the (F s)))"
    using d by (rule sum_list_distinct_conv_sum_set)
  finally show ?thesis by (simp only: dom)
qed

section \<open>Both paths on the builder\<close>

lemma same_local: "list_all2 same_item items (map local_item items)"
proof (induction items)
  case (Cons i items)
  then show ?case by (cases i) (auto simp: same_item_def)
qed simp

lemma local_counts [simp]:
  "deliveries (map local_item items) = deliveries items"
  "rejections (map local_item items) = rejections items"
proof -
  have "deliveries (map local_item items) = deliveries items \<and>
      rejections (map local_item items) = rejections items"
  proof (induction items)
    case (Cons i items)
    then show ?case by (cases i) simp_all
  qed simp
  then show "deliveries (map local_item items) = deliveries items"
    "rejections (map local_item items) = rejections items" by simp_all
qed

lemma scan_bad_last:
  "scan off buf = (items, c, AtBadHeader) \<Longrightarrow> \<exists>is o'. items = is @ [Reject o']"
proof (induction "length buf" arbitrary: off buf items rule: less_induct)
  case less
  from less.prems show ?case
  proof (cases rule: scan_cases)
    case BadHeader
    then show ?thesis by (intro exI [of _ "[]"]) simp
  next
    case (Mismatch n is')
    with less.hyps [of "drop n buf" "off + n" is'] show ?thesis
      by (metis append_Cons)
  next
    case (Framed hdr body n is')
    with less.hyps [of "drop n buf" "off + n" is'] show ?thesis
      by (metis append_Cons)
  qed simp_all
qed

lemma run_local:
  "run_items (fh_handler (bb_handler ndebug)) (map local_item items) f =
     run_items (fh_handler (bb_handler ndebug)) items f"
  by (rule offset_blind.same_item_run [OF builder.feed_offset_blind same_local, symmetric])

section \<open>Properties\<close>

lemma feed_run:
  assumes "list_all item_ok is"
  obtains g where "run_items (fh_handler (bb_handler True)) is (FeedHandler_init (BookBuilder_init True)) = Inr g"
    and "builder_ok (down g)"
  using handler.run_safe [OF builder.feed_handler [of True], of "FeedHandler_init (BookBuilder_init True)" "is"]
    assms builder_init_ok by auto

text \<open>A mode paces a capture when it does not pace at all or every wake-up time is defined.\<close>

definition mode_ok :: "u64 \<Rightarrow> ReplayConfig \<Rightarrow> byte list \<Rightarrow> bool" where
  "mode_ok start_wall cfg msgs \<longleftrightarrow> rc_mode cfg = MaxSpeed \<or> pacing_ok start_wall cfg msgs"

lemma mode_ok_timed: "mode_ok start_wall cfg msgs \<Longrightarrow> rc_mode cfg \<noteq> MaxSpeed \<Longrightarrow>
    list_all (paced start_wall cfg (base_time None (frame_times (drop 0 msgs)))) (frame_times (drop 0 msgs))"
  by (simp add: mode_ok_def pacing_ok_def base_time_def)

text \<open>Every mode, on a capture without a bad header.\<close>

lemma replay_scan:
  assumes "scan 0 msgs = (items, c, s)" and "s \<noteq> AtBadHeader"
  shows "\<exists>g. run_items (fh_handler (bb_handler True)) items (FeedHandler_init (BookBuilder_init True)) = Inr g \<and>
    (\<forall>cfg start_wall. mode_ok start_wall cfg msgs \<longrightarrow>
      replay (bb_handler True) cfg start_wall msgs (FeedHandler_init (BookBuilder_init True)) =
      Inr (with_buffer (if rc_mode cfg = MaxSpeed then drop c msgs else []) (of_nat (rejections items)) g,
        \<lparr>rp_messages_parsed = of_nat (deliveries items), rp_malformed = of_nat (rejections items),
         rp_forwarded = forwarded g, rp_dropped = dropped g, rp_seq = stats (seq_tracker g)\<rparr>))"
proof -
  let ?f = "FeedHandler_init (BookBuilder_init True)" and ?H = "bb_handler True"
  from feed_run [OF scan_item_ok [OF assms(1)]] obtain g where g: "run_items (fh_handler ?H) items ?f = Inr g" .
  have fast: "consume ?H msgs ?f = Inr (with_buffer (drop c msgs) (of_nat (rejections items)) g,
      \<lparr>bytes_consumed = c, messages = deliveries items, malformed = rejections items,
       needs_more = (s = AtPartial)\<rparr>)"
    using consume_eq [of ?f msgs items c s ?H] assms(1) g by simp
  have timed: "replay_timed ?H cfg start_wall msgs 0 None ?f ReplayResult_init =
      Inr (with_buffer [] (of_nat (rejections items)) g,
        ReplayResult_init\<lparr>rp_messages_parsed := of_nat (deliveries items),
          rp_malformed := of_nat (rejections items)\<rparr>)"
    if "mode_ok start_wall cfg msgs" "rc_mode cfg \<noteq> MaxSpeed" for cfg start_wall
    using replay_timed_eq [of 0 msgs items c s ?f start_wall cfg None ?H ReplayResult_init, OF _ _ _ mode_ok_timed [OF that]]
      assms g by (simp add: timed_items_def run_local ReplayResult_init_def)
  show ?thesis using g fast timed by (auto simp: replay_def ReplayResult_init_def)
qed

text \<open>A capture of whole messages, against the stream path.\<close>

lemma replay_wire:
  assumes "list_all message_ok msgs" and "mode_ok start_wall cfg (wire msgs)"
    and "consume_all (bb_handler True) [wire msgs] (FeedHandler_init (BookBuilder_init True)) = Inr f"
  shows "replay (bb_handler True) cfg start_wall (wire msgs) (FeedHandler_init (BookBuilder_init True)) =
    Inr (f, \<lparr>rp_messages_parsed = of_nat (length msgs), rp_malformed = 0, rp_forwarded = forwarded f,
            rp_dropped = dropped f, rp_seq = stats (seq_tracker f)\<rparr>)"
proof -
  note scan = scan_wire_end [OF assms(1)]
  from replay_scan [OF scan] assms(2) obtain g where
    g: "run_items (fh_handler (bb_handler True)) (map message_item msgs)
        (FeedHandler_init (BookBuilder_init True)) = Inr g"
    "replay (bb_handler True) cfg start_wall (wire msgs) (FeedHandler_init (BookBuilder_init True)) =
      Inr (with_buffer (if rc_mode cfg = MaxSpeed then drop (length (wire msgs)) (wire msgs) else [])
          (of_nat (rejections (map message_item msgs))) g,
        \<lparr>rp_messages_parsed = of_nat (deliveries (map message_item msgs)),
         rp_malformed = of_nat (rejections (map message_item msgs)),
         rp_forwarded = forwarded g, rp_dropped = dropped g, rp_seq = stats (seq_tracker g)\<rparr>)" by blast
  have counts: "rejections (map message_item msgs) = 0" "deliveries (map message_item msgs) = length msgs"
    by simp_all
  have "consume_all (bb_handler True) [wire msgs] (FeedHandler_init (BookBuilder_init True)) =
      Inr (with_buffer [] 0 g)"
    using builder.consume_all_eq [of "FeedHandler_init (BookBuilder_init True)" "[wire msgs]"
        "map message_item msgs" "length (wire msgs)" AtEnd True] scan g(1) counts
    by simp
  with assms(3) have "f = with_buffer [] 0 g" by simp
  then show ?thesis by (simp add: g(2) counts)
qed

text \<open>Messages whose times do not lie before the first one, nor 146 years after it.\<close>

lemma paced_capture:
  assumes "scan off buf = (map message_item ms, c, s)"
    and "\<And>m. m \<in> set ms \<Longrightarrow> uint (fst (snd m) - fst (snd (hd ms))) \<le> 2 ^ 62"
    and "pace_scale cfg = Number r" and "1 \<le> r" and "0 \<le> sint start_wall" and "sint start_wall \<le> 2 ^ 61"
  shows "mode_ok start_wall cfg buf"
proof (cases "ms = []")
  case True
  with frame_times_items [OF assms(1)] show ?thesis by (simp add: mode_ok_def pacing_ok_def)
next
  case False
  then have "hd (map (fst \<circ> snd) ms) = fst (snd (hd ms))" by (simp add: hd_map)
  with frame_times_items [OF assms(1)] paced_near [OF assms(3,4) assms(2) assms(5,6)] show ?thesis
    by (simp add: mode_ok_def pacing_ok_def list_all_iff)
qed

text \<open>C26. Replay is deterministic in its mode: in a release build, on a capture without a bad header, every
  mode whose wake-up times are defined ends in the same feed handler (books, tracker, counters) with
  the same result record as the fast path; only the bytes of a cut last message are kept by the fast
  path and not by the paced one.\<close>

theorem replay_modes_agree:
  assumes "scan 0 msgs = (items, c, s)" and "s \<noteq> AtBadHeader" and "mode_ok start_wall cfg msgs"
  shows "\<exists>f res. replay (bb_handler True) ReplayConfig_default now msgs (FeedHandler_init (BookBuilder_init True)) =
      Inr (f, res) \<and>
    replay (bb_handler True) cfg start_wall msgs (FeedHandler_init (BookBuilder_init True)) =
      Inr (if rc_mode cfg = MaxSpeed then f else f\<lparr>residual := []\<rparr>, res)"
proof -
  have fast: "rc_mode ReplayConfig_default = MaxSpeed" "mode_ok now ReplayConfig_default msgs"
    by (simp_all add: ReplayConfig_default_def mode_ok_def)
  from replay_scan [OF assms(1,2)] fast assms(3) show ?thesis by (auto simp: with_buffer_residual)
qed

definition realtime :: ReplayConfig where
  "realtime = ReplayConfig_default\<lparr>rc_mode := Realtime\<rparr>"

lemma realtime_simps [simp]: "rc_mode realtime = Realtime" "pace_scale realtime = Number 1"
  by (simp_all add: realtime_def ReplayConfig_default_def pace_scale_def)

theorem replay_modes_agree_witness:
  "\<exists>f res. replay (bb_handler True) ReplayConfig_default 0 (wire sample_messages)
      (FeedHandler_init (BookBuilder_init True)) = Inr (f, res) \<and>
    replay (bb_handler True) realtime 1000 (wire sample_messages)
      (FeedHandler_init (BookBuilder_init True)) = Inr (f\<lparr>residual := []\<rparr>, res)"
proof -
  have "list_all message_ok sample_messages" by (simp add: sample_messages_def)
  note scan = scan_wire_end [OF this]
  have "mode_ok 1000 realtime (wire sample_messages)"
    by (rule paced_capture [OF scan]) (auto simp: sample_messages_def)
  from replay_modes_agree [OF scan _ this] show ?thesis by simp
qed

text \<open>C34. The timed replay (any mode but \<open>MaxSpeed\<close>, in a release build) of any bytes is undefined exactly
  when a wake-up time is: when the distance of a frame's timestamp from the first one, an unsigned
  difference, divided by the speed and added to the clock, does not fit into 64 signed bits.\<close>

theorem replay_undefined_iff:
  assumes "rc_mode cfg \<noteq> MaxSpeed"
  shows "isl (replay (bb_handler True) cfg start_wall msgs (FeedHandler_init (BookBuilder_init True))) \<longleftrightarrow>
    \<not> list_all (paced start_wall cfg (hd (frame_times msgs))) (frame_times msgs)"
proof (cases "pacing_ok start_wall cfg msgs")
  case True
  let ?f = "FeedHandler_init (BookBuilder_init True)" and ?H = "bb_handler True"
  obtain items c s where scan: "scan 0 msgs = (items, c, s)" by (metis prod_cases3)
  have ok: "mode_ok start_wall cfg msgs" using True by (simp add: mode_ok_def)
  from scan_item_ok [OF scan] have "list_all item_ok (if s = AtBadHeader then butlast items else items)"
    by (auto simp: list_all_iff dest: in_set_butlastD)
  from feed_run [OF this] obtain g where "run_items (fh_handler ?H) (timed_items items s) ?f = Inr g"
    by (auto simp: timed_items_def run_local)
  with replay_timed_eq [of 0 msgs items c s ?f start_wall cfg None ?H ReplayResult_init, OF _ _ _ mode_ok_timed [OF ok assms]]
    scan assms True show ?thesis by (simp add: replay_def pacing_ok_def)
next
  case False
  with replay_timed_unpaced [of 0 msgs start_wall cfg None "bb_handler True"
      "FeedHandler_init (BookBuilder_init True)" ReplayResult_init] assms show ?thesis
    by (cases "replay_timed (bb_handler True) cfg start_wall msgs 0 None (FeedHandler_init (BookBuilder_init True)) ReplayResult_init")
      (simp_all add: replay_def pacing_ok_def base_time_def)
qed

text \<open>Two heartbeats, the second one stamped a nanosecond before the first.\<close>

definition backward_messages :: "message list" where
  "backward_messages = [(1, 1000, BodyHeartbeat), (2, 999, BodyHeartbeat)]"

theorem replay_undefined_iff_witness:
  "isl (replay (bb_handler True) realtime 0 (wire backward_messages) (FeedHandler_init (BookBuilder_init True))) \<and>
   \<not> isl (replay (bb_handler True) realtime 0 (wire sample_messages) (FeedHandler_init (BookBuilder_init True)))"
proof -
  have "list_all message_ok backward_messages" "list_all message_ok sample_messages"
    by (simp_all add: backward_messages_def sample_messages_def)
  note times = this [THEN scan_wire_end, THEN frame_times_items]
  have "sleep_target 0 realtime 1000 999 = Inl BadConversion" 
    by (rule backward_not_paced) (simp_all add: unsigned_minus_1_eq_mask mask_eq_exp_minus_1)
  then have "\<not> list_all (paced 0 realtime (hd (frame_times (wire backward_messages)))) (frame_times (wire backward_messages))"
    unfolding times(1) by (simp add: backward_messages_def paced_def)
  moreover have "list_all (paced 0 realtime (hd (frame_times (wire sample_messages)))) (frame_times (wire sample_messages))"
    unfolding times(2) by (simp add: sample_messages_def paced_near [of realtime 1])
  ultimately show ?thesis by (simp add: replay_undefined_iff)
qed

text \<open>C35. On a capture with a bad header a paced mode whose wake-up times are all defined (\<open>pacing_ok\<close>; with
  any other the replay is undefined) still agrees with the fast path on the books and on the number of
  messages, but not on the report: the fast path counts the bad header as malformed, the paced paths
  stop without counting it.\<close>

theorem replay_bad_header_uncounted:
  assumes "scan 0 msgs = (items, c, AtBadHeader)" and "rc_mode cfg \<noteq> MaxSpeed" and "pacing_ok start_wall cfg msgs"
  shows "\<exists>f res f' res'.
    replay (bb_handler True) ReplayConfig_default now msgs (FeedHandler_init (BookBuilder_init True)) = Inr (f, res) \<and>
    replay (bb_handler True) cfg start_wall msgs (FeedHandler_init (BookBuilder_init True)) = Inr (f', res') \<and>
    bb_manager (down f') = bb_manager (down f) \<and>
    rp_messages_parsed res' = rp_messages_parsed res \<and> rp_malformed res = rp_malformed res' + 1"
proof -
  let ?f = "FeedHandler_init (BookBuilder_init True)" and ?H = "bb_handler True"
  from scan_bad_last [OF assms(1)] obtain "is" o' where items: "items = is @ [Reject o']" by blast
  from scan_item_ok [OF assms(1)] items have "list_all item_ok is" by simp
  from feed_run [OF this] obtain g where g: "run_items (fh_handler ?H) is ?f = Inr g" .
  let ?st = "bb_stats (down g)"
  let ?g = "g\<lparr>down := (down g)\<lparr>bb_stats := ?st\<lparr>bst_malformed := bst_malformed ?st + 1\<rparr>\<rparr>\<rparr>"
  have fast: "run_items (fh_handler ?H) items ?f = Inr ?g"
    using g by (simp add: items run_items_append on_malformed_fh on_malformed_simulates)
  have "consume ?H msgs ?f = Inr (with_buffer (drop c msgs) (of_nat (rejections items)) ?g,
      \<lparr>bytes_consumed = c, messages = deliveries items, malformed = rejections items,
       needs_more = False\<rparr>)"
    using consume_eq [of ?f msgs items c AtBadHeader ?H] assms(1) fast by simp
  moreover have "mode_ok start_wall cfg msgs" using assms(3) by (simp add: mode_ok_def)
  note pace = mode_ok_timed [OF this assms(2)]
  have "replay_timed ?H cfg start_wall msgs 0 None ?f ReplayResult_init =
      Inr (with_buffer [] (of_nat (rejections is)) g,
        ReplayResult_init\<lparr>rp_messages_parsed := of_nat (deliveries is),
          rp_malformed := of_nat (rejections is)\<rparr>)"
    using replay_timed_eq [of 0 msgs items c AtBadHeader ?f start_wall cfg None ?H ReplayResult_init, OF _ _ _ pace]
      assms g by (simp add: timed_items_def run_local ReplayResult_init_def items)
  ultimately show ?thesis
    using assms(2) by (simp add: replay_def ReplayConfig_default_def items rejections_append deliveries_append)
qed

theorem replay_bad_header_uncounted_witness:
  "\<exists>f res f' res'.
    replay (bb_handler True) ReplayConfig_default 0 (wire sample_messages @ replicate 16 99)
      (FeedHandler_init (BookBuilder_init True)) = Inr (f, res) \<and>
    replay (bb_handler True) realtime 0 (wire sample_messages @ replicate 16 99)
      (FeedHandler_init (BookBuilder_init True)) = Inr (f', res') \<and>
    rp_malformed res = rp_malformed res' + 1"
proof -
  have "classify (replicate 16 99) = BadHeader"
    using classify_bad_type [of "replicate 16 99" "[]"]
    by (simp add: kHeaderWireSize_def is_valid_msg_type_def)
  then have "scan (0 + length (wire sample_messages)) (replicate 16 99) =
      ([Reject (length (wire sample_messages))], length (wire sample_messages) + kHeaderWireSize, AtBadHeader)"
    by (simp add: scan_BadHeader)
  moreover have "list_all message_ok sample_messages" by (simp add: sample_messages_def)
  ultimately have sc: "scan 0 (wire sample_messages @ replicate 16 99) =
      (map message_item sample_messages @ [Reject (length (wire sample_messages))],
       length (wire sample_messages) + kHeaderWireSize, AtBadHeader)"
    by (intro scan_wire) simp_all
  have "pacing_ok 0 realtime (wire sample_messages @ replicate 16 99)"
    unfolding pacing_ok_def frame_times_bad [OF sc]
    by (simp add: sample_messages_def paced_near [of realtime 1])
  from replay_bad_header_uncounted [OF sc _ this, of 0] show ?thesis by auto
qed

text \<open>The fingerprint is a function of the books alone: two builders that represent the same books
  have the same fingerprint, whatever the iteration order of their hash tables, the history
  that led there, or the addresses of their nodes.\<close>

theorem fingerprint_of_books:
  assumes "builder_rep bb F" and "builder_rep bb' F"
  shows "book_fingerprint (bb_manager bb) = book_fingerprint (bb_manager bb')"
  by (simp add: fingerprint_rep [OF assms(1)] fingerprint_rep [OF assms(2)])

theorem fingerprint_of_books_witness:
  "book_fingerprint [(7, sample_book), (9, OrderBook_init 9)] =
    book_fingerprint [(9, OrderBook_init 9), (7, sample_book)]"
proof -
  let ?bb = "\<lambda>m. \<lparr>bb_manager = m, bb_stats = BookStats_init, bb_verify = False\<rparr>"
  have "builder_rep (?bb [(7, sample_book), (9, OrderBook_init 9)]) [7 \<mapsto> sample_orders, 9 \<mapsto> []]"
    "builder_rep (?bb [(9, OrderBook_init 9), (7, sample_book)]) [7 \<mapsto> sample_orders, 9 \<mapsto> []]"
    by (auto simp: builder_rep_def represents_sample symbol_sample)
  from fingerprint_of_books [OF this] show ?thesis by simp
qed

end
