(* ===== verification/Spsc_Queue.thy ===== *)
theory Spsc_Queue
  imports Prelude
begin

text \<open>
  Model of \<^verbatim>\<open>include/mdfh/spsc_queue.hpp\<close>. The indices are \<^verbatim>\<open>std::size_t\<close> words and wrap with
  the mask. An atomic index is its modification order, the list of all values stored to it:
  the owner of an index reads the last one, the other thread may read any value not older
  than the one it read before, which is what an acquire load may return. Each operation is
  given in its stages (load of the other index, access to the slot, release store), composed
  into \<open>try_push\<close> and \<open>try_pop\<close> for a thread running alone and interleaved in \<open>spsc_step\<close>
  for the two threads.
\<close>

section \<open>The ring\<close>

record 'a ring =
  rg_mask :: u64
  rg_buffer :: "'a list"
  heads :: "u64 list"
  tails :: "u64 list"

text \<open>\<^verbatim>\<open>round_up_pow2\<close>: the shift wraps to zero past \<open>2 ^ 63\<close>, so the loop need not end.\<close>

partial_function (option) round_up_loop :: "u64 \<Rightarrow> u64 \<Rightarrow> u64 option" where
  "round_up_loop v p = (if p < v then round_up_loop v (push_bit 1 p) else Some p)"

definition round_up_pow2 :: "u64 \<Rightarrow> u64 option" where
  "round_up_pow2 v = round_up_loop v 1"

text \<open>The constructor; \<open>None\<close> when the rounding does not end. \<open>x\<close> is the value-initialised item.\<close>

definition SPSCQueue_init :: "'a \<Rightarrow> u64 \<Rightarrow> 'a ring option" where
  "SPSCQueue_init x capacity =
     (case round_up_pow2 (if capacity < 2 then 2 else capacity) of
        None \<Rightarrow> None
      | Some c \<Rightarrow> Some \<lparr>rg_mask = c - 1, rg_buffer = replicate (unat c) x, heads = [0], tails = [0]\<rparr>)"

text \<open>The stages of \<^verbatim>\<open>try_push\<close>. \<open>k\<close> is the position in the modification order the load returns.\<close>

definition push_next :: "'a ring \<Rightarrow> u64" where
  "push_next q = (last (heads q) + 1) AND rg_mask q"

definition push_full :: "nat \<Rightarrow> 'a ring \<Rightarrow> bool" where
  "push_full k q \<longleftrightarrow> push_next q = tails q ! k"

definition push_write :: "'a \<Rightarrow> 'a ring \<Rightarrow> 'a ring exec" where
  "push_write item q =
     ebind (wr (rg_buffer q) (unat (last (heads q))) item) (\<lambda>buf. Inr (q\<lparr>rg_buffer := buf\<rparr>))"

definition push_publish :: "'a ring \<Rightarrow> 'a ring" where
  "push_publish q = q\<lparr>heads := heads q @ [push_next q]\<rparr>"

definition try_push :: "'a \<Rightarrow> 'a ring \<Rightarrow> (bool \<times> 'a ring) exec" where
  "try_push item q =
     (if push_full (length (tails q) - 1) q then Inr (False, q)
      else ebind (push_write item q) (\<lambda>q. Inr (True, push_publish q)))"

text \<open>The stages of \<^verbatim>\<open>try_pop\<close>.\<close>

definition pop_empty :: "nat \<Rightarrow> 'a ring \<Rightarrow> bool" where
  "pop_empty k q \<longleftrightarrow> last (tails q) = heads q ! k"

definition pop_read :: "'a ring \<Rightarrow> 'a exec" where
  "pop_read q = rd (rg_buffer q) (unat (last (tails q)))"

definition pop_release :: "'a ring \<Rightarrow> 'a ring" where
  "pop_release q = q\<lparr>tails := tails q @ [(last (tails q) + 1) AND rg_mask q]\<rparr>"

definition try_pop :: "'a ring \<Rightarrow> ('a option \<times> 'a ring) exec" where
  "try_pop q =
     (if pop_empty (length (heads q) - 1) q then Inr (None, q)
      else ebind (pop_read q) (\<lambda>out. Inr (Some out, pop_release q)))"

definition ring_empty :: "'a ring \<Rightarrow> bool" where
  "ring_empty q \<longleftrightarrow> last (heads q) = last (tails q)"

definition ring_capacity :: "'a ring \<Rightarrow> u64" where
  "ring_capacity q = rg_mask q"

section \<open>The two threads\<close>

text \<open>
  Where each thread is: outside the operation, before its load of the other index, before its
  access to the slot, before its release store. \<open>p_view\<close> and \<open>c_view\<close> are the positions of the
  last values read from the other thread's index. \<open>pushed\<close> and \<open>popped\<close> record the items of
  the completed operations.
\<close>

datatype 'a producer = PIdle | PLoad 'a | PWrite 'a | PStore 'a
datatype 'a consumer = CIdle | CLoad | CRead | CStore 'a

record 'a spsc =
  ring :: "'a ring"
  producer :: "'a producer"
  consumer :: "'a consumer"
  p_view :: nat
  c_view :: nat
  pushed :: "'a list"
  popped :: "'a list"

inductive spsc_step :: "'a spsc \<Rightarrow> 'a spsc exec \<Rightarrow> bool" where
  push_call: "producer s = PIdle \<Longrightarrow> spsc_step s (Inr (s\<lparr>producer := PLoad item\<rparr>))"
| push_refused: "producer s = PLoad item \<Longrightarrow> p_view s \<le> k \<Longrightarrow> k < length (tails (ring s)) \<Longrightarrow>
    push_full k (ring s) \<Longrightarrow> spsc_step s (Inr (s\<lparr>producer := PIdle, p_view := k\<rparr>))"
| push_room: "producer s = PLoad item \<Longrightarrow> p_view s \<le> k \<Longrightarrow> k < length (tails (ring s)) \<Longrightarrow>
    \<not> push_full k (ring s) \<Longrightarrow> spsc_step s (Inr (s\<lparr>producer := PWrite item, p_view := k\<rparr>))"
| push_slot: "producer s = PWrite item \<Longrightarrow>
    spsc_step s (ebind (push_write item (ring s)) (\<lambda>q. Inr (s\<lparr>producer := PStore item, ring := q\<rparr>)))"
| push_done: "producer s = PStore item \<Longrightarrow>
    spsc_step s (Inr (s\<lparr>producer := PIdle, ring := push_publish (ring s), pushed := pushed s @ [item]\<rparr>))"
| pop_call: "consumer s = CIdle \<Longrightarrow> spsc_step s (Inr (s\<lparr>consumer := CLoad\<rparr>))"
| pop_refused: "consumer s = CLoad \<Longrightarrow> c_view s \<le> k \<Longrightarrow> k < length (heads (ring s)) \<Longrightarrow>
    pop_empty k (ring s) \<Longrightarrow> spsc_step s (Inr (s\<lparr>consumer := CIdle, c_view := k\<rparr>))"
| pop_some: "consumer s = CLoad \<Longrightarrow> c_view s \<le> k \<Longrightarrow> k < length (heads (ring s)) \<Longrightarrow>
    \<not> pop_empty k (ring s) \<Longrightarrow> spsc_step s (Inr (s\<lparr>consumer := CRead, c_view := k\<rparr>))"
| pop_slot: "consumer s = CRead \<Longrightarrow>
    spsc_step s (ebind (pop_read (ring s)) (\<lambda>out. Inr (s\<lparr>consumer := CStore out\<rparr>)))"
| pop_done: "consumer s = CStore out \<Longrightarrow>
    spsc_step s (Inr (s\<lparr>consumer := CIdle, ring := pop_release (ring s), popped := popped s @ [out]\<rparr>))"

definition spsc_init :: "'a ring \<Rightarrow> 'a spsc" where
  "spsc_init q = \<lparr>ring = q, producer = PIdle, consumer = CIdle, p_view = 0, c_view = 0,
     pushed = [], popped = []\<rparr>"

text \<open>What the two threads can reach from a fresh queue, faults included.\<close>

inductive spsc_reach :: "'a ring \<Rightarrow> 'a spsc exec \<Rightarrow> bool" for q where
  start: "spsc_reach q (Inr (spsc_init q))"
| step: "spsc_reach q (Inr s) \<Longrightarrow> spsc_step s r \<Longrightarrow> spsc_reach q r"

section \<open>Index arithmetic\<close>

text \<open>The value of an index after \<open>i\<close> operations on a ring of \<open>2 ^ e\<close> slots.\<close>

definition idx :: "nat \<Rightarrow> nat \<Rightarrow> u64" where
  "idx e i = take_bit e (of_nat i)"

lemma unat_take_bit_64:
  assumes "e \<le> 64" and "unat (w :: u64) = take_bit 64 n"
  shows "unat (take_bit e w) = n mod 2 ^ e"
proof -
  have "unat (take_bit e w) = take_bit e (take_bit 64 n)"
    by (simp only: unsigned_take_bit_eq assms(2))
  also have "\<dots> = take_bit e n"
    using assms(1) by (simp only: take_bit_take_bit min_absorb1)
  finally show ?thesis by (simp only: take_bit_eq_mod)
qed

lemma unat_idx: "e \<le> 64 \<Longrightarrow> unat (idx e i) = i mod 2 ^ e"
  unfolding idx_def by (rule unat_take_bit_64) (simp_all add: unsigned_of_nat)

lemma idx_Suc:
  assumes "e \<le> 64"
  shows "(idx e i + 1) AND mask e = idx e (Suc i)"
proof -
  have "unat (idx e i + 1) = take_bit 64 (i mod 2 ^ e + 1)"
    by (simp add: unat_word_ariths unat_idx [OF assms] take_bit_eq_mod)
  from unat_take_bit_64 [OF assms this] have "unat (take_bit e (idx e i + 1)) = Suc i mod 2 ^ e"
    by (simp add: mod_Suc_eq)
  then show ?thesis
    by (simp add: word_unat_eq_iff unat_idx [OF assms] take_bit_eq_mask)
qed

lemma idx_eq_iff: "e \<le> 64 \<Longrightarrow> idx e i = idx e j \<longleftrightarrow> i mod 2 ^ e = j mod 2 ^ e"
  by (metis unat_idx word_unat_eq_iff)

lemma slots_differ: "i < j \<Longrightarrow> j < i + n \<Longrightarrow> i mod n \<noteq> j mod (n :: nat)"
proof
  assume "i < j" "j < i + n" "i mod n = j mod n"
  then have "n dvd j - i" by (metis less_imp_le mod_eq_dvd_iff_nat)
  moreover have "0 < j - i" "j - i < n" using \<open>i < j\<close> \<open>j < i + n\<close> by auto
  ultimately show False by (simp add: nat_dvd_not_less)
qed

section \<open>The invariant\<close>

definition ring_counts :: "nat \<Rightarrow> nat \<Rightarrow> nat \<Rightarrow> 'a ring \<Rightarrow> bool" where
  "ring_counts e np nc q \<longleftrightarrow> rg_mask q = mask e \<and> length (rg_buffer q) = 2 ^ e \<and>
     heads q = map (idx e) [0..<Suc np] \<and> tails q = map (idx e) [0..<Suc nc]"

definition ring_holds :: "nat \<Rightarrow> nat \<Rightarrow> 'a list \<Rightarrow> 'a ring \<Rightarrow> bool" where
  "ring_holds e nc xs q \<longleftrightarrow> (\<forall>i. nc \<le> i \<longrightarrow> i < length xs \<longrightarrow> rg_buffer q ! (i mod 2 ^ e) = xs ! i)"

fun producer_ok :: "nat \<Rightarrow> nat \<Rightarrow> nat \<Rightarrow> 'a list \<Rightarrow> 'a producer \<Rightarrow> bool" where
  "producer_ok e np pv buf PIdle = True"
| "producer_ok e np pv buf (PLoad item) = True"
| "producer_ok e np pv buf (PWrite item) = (np + 1 < pv + 2 ^ e)"
| "producer_ok e np pv buf (PStore item) = (np + 1 < pv + 2 ^ e \<and> buf ! (np mod 2 ^ e) = item)"

fun consumer_ok :: "nat \<Rightarrow> nat \<Rightarrow> 'a list \<Rightarrow> 'a consumer \<Rightarrow> bool" where
  "consumer_ok nc cv xs CIdle = True"
| "consumer_ok nc cv xs CLoad = True"
| "consumer_ok nc cv xs CRead = (nc < cv)"
| "consumer_ok nc cv xs (CStore out) = (nc < cv \<and> out = xs ! nc)"

lemma consumer_ok_snoc:
  "consumer_ok nc cv xs pc \<Longrightarrow> cv \<le> length xs \<Longrightarrow> consumer_ok nc cv (xs @ [x]) pc"
  by (cases pc) (simp_all add: nth_append)

definition spsc_inv :: "nat \<Rightarrow> 'a spsc \<Rightarrow> bool" where
  "spsc_inv e s \<longleftrightarrow>
     (let np = length (pushed s); nc = length (popped s) in
      ring_counts e np nc (ring s) \<and> ring_holds e nc (pushed s) (ring s) \<and>
      take nc (pushed s) = popped s \<and>
      p_view s \<le> nc \<and> nc \<le> c_view s \<and> c_view s \<le> np \<and> np < p_view s + 2 ^ e \<and>
      producer_ok e np (p_view s) (rg_buffer (ring s)) (producer s) \<and>
      consumer_ok nc (c_view s) (pushed s) (consumer s))"

lemma ring_counts_simps:
  assumes "ring_counts e np nc q" and "e \<le> 64"
  shows "last (heads q) = idx e np" and "last (tails q) = idx e nc"
    and "length (heads q) = Suc np" and "length (tails q) = Suc nc"
    and "k \<le> nc \<Longrightarrow> tails q ! k = idx e k" and "k \<le> np \<Longrightarrow> heads q ! k = idx e k"
    and "push_next q = idx e (Suc np)"
    and "k \<le> nc \<Longrightarrow> push_full k q \<longleftrightarrow> Suc np mod 2 ^ e = k mod 2 ^ e"
    and "k \<le> np \<Longrightarrow> pop_empty k q \<longleftrightarrow> nc mod 2 ^ e = k mod 2 ^ e"
proof -
  from assms have q: "rg_mask q = mask e" "heads q = map (idx e) [0..<Suc np]"
    "tails q = map (idx e) [0..<Suc nc]" by (simp_all add: ring_counts_def)
  have snoc: "map (idx e) [0..<Suc n] = map (idx e) [0..<n] @ [idx e n]" for n by simp
  show h: "last (heads q) = idx e np" and t: "last (tails q) = idx e nc"
    unfolding q snoc by simp_all
  show "length (heads q) = Suc np" "length (tails q) = Suc nc" unfolding q by simp_all
  show tk: "k \<le> nc \<Longrightarrow> tails q ! k = idx e k" and hk: "k \<le> np \<Longrightarrow> heads q ! k = idx e k"
    unfolding q by (simp_all del: upt_Suc)
  show next_eq: "push_next q = idx e (Suc np)"
    by (simp only: push_next_def h q(1) idx_Suc [OF assms(2)])
  show "k \<le> nc \<Longrightarrow> push_full k q \<longleftrightarrow> Suc np mod 2 ^ e = k mod 2 ^ e"
    by (simp only: push_full_def next_eq tk idx_eq_iff [OF assms(2)])
  show "k \<le> np \<Longrightarrow> pop_empty k q \<longleftrightarrow> nc mod 2 ^ e = k mod 2 ^ e"
    by (simp only: pop_empty_def t hk idx_eq_iff [OF assms(2)])
qed

lemma ring_counts_publish:
  "ring_counts e np nc q \<Longrightarrow> e \<le> 64 \<Longrightarrow> ring_counts e (Suc np) nc (push_publish q)"
  using ring_counts_simps(7) [of e np nc q] by (simp add: ring_counts_def push_publish_def)

lemma ring_counts_release:
  assumes "ring_counts e np nc q" and "e \<le> 64"
  shows "ring_counts e np (Suc nc) (pop_release q)"
proof -
  have "(last (tails q) + 1) AND rg_mask q = idx e (Suc nc)"
    using assms ring_counts_simps(2) [OF assms] idx_Suc [OF assms(2)] by (simp add: ring_counts_def)
  with assms show ?thesis by (simp add: ring_counts_def pop_release_def)
qed

lemma push_write_ok:
  assumes "ring_counts e np nc q" and "e \<le> 64" and "length xs = np"
    and "ring_holds e nc xs q" and "np + 1 < nc + 2 ^ e"
  obtains q' where "push_write item q = Inr q'" and "ring_counts e np nc q'"
    and "ring_holds e nc xs q'" and "rg_buffer q' ! (np mod 2 ^ e) = item"
    and "heads q' = heads q" and "tails q' = tails q"
proof -
  let ?q = "q\<lparr>rg_buffer := (rg_buffer q)[np mod 2 ^ e := item]\<rparr>"
  have slot: "unat (last (heads q)) = np mod 2 ^ e" "np mod 2 ^ e < length (rg_buffer q)"
    using assms(1) ring_counts_simps(1) [OF assms(1,2)] unat_idx [OF assms(2)]
    by (simp_all add: ring_counts_def)
  have "push_write item q = Inr ?q" by (simp add: push_write_def slot)
  moreover have "ring_holds e nc xs ?q"
    unfolding ring_holds_def
  proof (intro allI impI)
    fix i assume i: "nc \<le> i" "i < length xs"
    with assms(3,5) slots_differ [of i np "2 ^ e"] have "i mod 2 ^ e \<noteq> np mod 2 ^ e" by auto
    with assms(4) i show "rg_buffer ?q ! (i mod 2 ^ e) = xs ! i" by (simp add: ring_holds_def)
  qed
  ultimately show thesis
    using that assms(1) slot by (simp add: ring_counts_def)
qed

lemma pop_read_ok:
  assumes "ring_counts e np nc q" and "e \<le> 64" and "ring_holds e nc xs q" and "nc < length xs"
  shows "pop_read q = Inr (xs ! nc)"
proof -
  have "unat (last (tails q)) = nc mod 2 ^ e" "nc mod 2 ^ e < length (rg_buffer q)"
    using assms(1) ring_counts_simps(2) [OF assms(1,2)] unat_idx [OF assms(2)]
    by (simp_all add: ring_counts_def)
  with assms(3,4) show ?thesis by (simp add: pop_read_def ring_holds_def)
qed

lemma ring_holds_mono: "ring_holds e nc xs q \<Longrightarrow> nc \<le> nc' \<Longrightarrow> ring_holds e nc' xs q"
  by (simp add: ring_holds_def)

lemma stage_buffer [simp]:
  "rg_buffer (push_publish q) = rg_buffer q" "rg_buffer (pop_release q) = rg_buffer q"
  by (simp_all add: push_publish_def pop_release_def)

lemma ring_holds_release [simp]: "ring_holds e nc xs (pop_release q) = ring_holds e nc xs q"
  by (simp add: ring_holds_def)

lemma spsc_step_inv:
  assumes "spsc_step s r" and "spsc_inv e s" and "e \<le> 64"
  shows "\<exists>s'. r = Inr s' \<and> spsc_inv e s'"
  using assms(1)
proof cases
  let ?np = "length (pushed s)" and ?nc = "length (popped s)"
  from assms(2) have inv: "ring_counts e ?np ?nc (ring s)" "ring_holds e ?nc (pushed s) (ring s)"
    "take ?nc (pushed s) = popped s" "p_view s \<le> ?nc" "?nc \<le> c_view s" "c_view s \<le> ?np"
    "?np < p_view s + 2 ^ e"
    by (simp_all add: spsc_inv_def Let_def)
  note counts = ring_counts_simps [OF inv(1) assms(3)]
  {
    case (push_call item)
    with assms(2) show ?thesis by (simp add: spsc_inv_def Let_def)
  next
    case (push_refused item k)
    with assms(2) counts(4) show ?thesis by (simp add: spsc_inv_def Let_def)
  next
    case (push_room item k)
    with counts(4) have k: "k \<le> ?nc" by simp
    with push_room counts(8) have "Suc ?np mod 2 ^ e \<noteq> k mod 2 ^ e" by blast
    then have "Suc ?np \<noteq> k + 2 ^ e" by auto
    with push_room k assms(2) show ?thesis by (simp add: spsc_inv_def Let_def)
  next
    case (push_slot item)
    from assms(2) push_slot(2) have "?np + 1 < p_view s + 2 ^ e" by (simp add: spsc_inv_def Let_def)
    then have room: "?np + 1 < ?nc + 2 ^ e" using inv(4) by simp
    from push_write_ok [OF inv(1) assms(3) refl inv(2) room, of item] obtain q' where
      "push_write item (ring s) = Inr q'" "ring_counts e ?np ?nc q'"
      "ring_holds e ?nc (pushed s) q'" "rg_buffer q' ! (?np mod 2 ^ e) = item"
      by metis
    with push_slot assms(2) show ?thesis by (simp add: spsc_inv_def Let_def)
  next
    case (push_done item)
    from assms(2) push_done(2) have room: "?np + 1 < p_view s + 2 ^ e"
      and slot: "rg_buffer (ring s) ! (?np mod 2 ^ e) = item"
      by (simp_all add: spsc_inv_def Let_def)
    have "ring_holds e ?nc (pushed s @ [item]) (push_publish (ring s))"
      using inv(2) slot by (auto simp: ring_holds_def nth_append less_Suc_eq)
    moreover have "take ?nc (pushed s @ [item]) = popped s"
      using inv(3,5,6) by simp
    moreover have "consumer_ok ?nc (c_view s) (pushed s @ [item]) (consumer s)"
      using assms(2) inv(6) by (auto simp: spsc_inv_def Let_def intro: consumer_ok_snoc)
    ultimately show ?thesis
      using push_done assms(2) room ring_counts_publish [OF inv(1) assms(3)]
      by (simp add: spsc_inv_def Let_def)
  next
    case pop_call
    with assms(2) show ?thesis by (simp add: spsc_inv_def Let_def)
  next
    case (pop_refused k)
    with assms(2) counts(3) show ?thesis by (simp add: spsc_inv_def Let_def)
  next
    case (pop_some k)
    with counts(3) have k: "k \<le> ?np" by simp
    with pop_some counts(9) have "k \<noteq> ?nc" by blast
    with pop_some inv(5) k assms(2) show ?thesis
      by (simp add: spsc_inv_def Let_def)
  next
    case pop_slot
    from assms(2) pop_slot(2) have "?nc < c_view s" by (simp add: spsc_inv_def Let_def)
    with pop_read_ok [OF inv(1) assms(3) inv(2)] inv(6) have "pop_read (ring s) = Inr (pushed s ! ?nc)"
      by simp
    with pop_slot \<open>?nc < c_view s\<close> assms(2) show ?thesis
      by (simp add: spsc_inv_def Let_def)
  next
    case (pop_done out)
    from assms(2) pop_done(2) have out: "?nc < c_view s" "out = pushed s ! ?nc"
      by (simp_all add: spsc_inv_def Let_def)
    have "take (Suc ?nc) (pushed s) = popped s @ [out]"
      using out inv(3,6) by (simp add: take_Suc_conv_app_nth)
    then show ?thesis
      using pop_done assms(2) out ring_counts_release [OF inv(1) assms(3)]
        ring_holds_mono [OF inv(2), of "Suc ?nc"]
      by (simp add: spsc_inv_def Let_def)
  }
qed

section \<open>Rounding up\<close>

lemma unat_power_64: "i < 64 \<Longrightarrow> unat ((2 :: u64) ^ i) = 2 ^ i"
proof -
  assume "i < 64"
  then have "(2 :: nat) ^ i < 2 ^ 64" by (intro power_strict_increasing) auto
  then have "unat (of_nat (2 ^ i) :: u64) = 2 ^ i"
    by (simp only: unsigned_of_nat take_bit_eq_mod mod_less len_bit0 len_num1 mult_1_right mult_1
      semiring_norm)
       (simp add: take_bit_eq_mod)
  then show ?thesis by simp
qed

lemma round_up_loop_upto:
  "i \<le> 63 \<Longrightarrow> unat v \<le> 2 ^ 63 \<Longrightarrow> 2 ^ i < 2 * max 1 (unat v) \<Longrightarrow>
     \<exists>e. e < 64 \<and> round_up_loop v (2 ^ i) = Some (2 ^ e) \<and> unat v \<le> 2 ^ e \<and>
       2 ^ e < 2 * max 1 (unat v)"
proof (induction "63 - i" arbitrary: i)
  case 0
  then have i: "i = 63" by simp
  have "\<not> (2 :: u64) ^ 63 < v" using 0 by (simp add: word_less_nat_alt unat_power_64)
  then show ?case
    using 0 i by (subst round_up_loop.simps) (auto intro!: exI [of _ 63])
next
  case (Suc n)
  show ?case
  proof (cases "(2 :: u64) ^ i < v")
    case True
    then have "2 ^ i < unat v" using Suc by (simp add: word_less_nat_alt unat_power_64)
    with Suc.hyps(1) [of "Suc i"] Suc.hyps(2) Suc.prems True show ?thesis
      by (subst round_up_loop.simps) (simp add: push_bit_eq_mult mult.commute)
  next
    case False
    with Suc show ?thesis
      by (subst round_up_loop.simps)
        (auto intro!: exI [of _ i] simp: word_less_nat_alt unat_power_64)
  qed
qed

lemma round_up_loop_result:
  "round_up_loop v p = Some r \<Longrightarrow> \<exists>k. r = push_bit k p \<and> v \<le> r"
proof (induction rule: round_up_loop.raw_induct [rotated, consumes 1])
  case (1 loop v p r)
  show ?case
  proof (cases "p < v")
    case True
    with 1 obtain k where "r = push_bit k (push_bit 1 p)" "v \<le> r" by fastforce
    then show ?thesis by (intro exI [of _ "k + 1"]) (simp add: push_bit_push_bit)
  next
    case False
    with 1 show ?thesis by (intro exI [of _ 0]) simp
  qed
qed

lemma push_bit_1_le: "unat (push_bit k (1 :: u64)) \<le> 2 ^ 63"
proof (cases "k < 64")
  case True
  then have "(2 :: nat) ^ k \<le> 2 ^ 63" by (intro power_increasing) auto
  with True show ?thesis by (simp add: push_bit_eq_mult unat_power_64)
next
  case False
  then have "push_bit k (1 :: u64) = 0" 
    by (intro bit_eqI) (auto simp: bit_push_bit_iff bit_1_iff simp del: push_bit_of_1)
  then show ?thesis by (simp only: unsigned_0)
qed

lemma round_up_pow2_cases:
  obtains e where "unat v \<le> 2 ^ 63" "e < 64" "round_up_pow2 v = Some (2 ^ e)" "unat v \<le> 2 ^ e"
    "2 ^ e < 2 * max 1 (unat v)"
  | "2 ^ 63 < unat v" "round_up_pow2 v = None"
proof (cases "unat v \<le> 2 ^ 63")
  case True
  have "(2 :: nat) ^ 0 < 2 * max 1 (unat v)" by (simp add: max_def)
  from round_up_loop_upto [OF _ True this] obtain e where "e < 64" "round_up_loop v 1 = Some (2 ^ e)"
    "unat v \<le> 2 ^ e" "2 ^ e < 2 * max 1 (unat v)" by auto
  with True show thesis by (intro that(1)) (simp_all add: round_up_pow2_def)
next
  case False
  have "round_up_loop v 1 = None"
  proof (rule ccontr)
    assume "round_up_loop v 1 \<noteq> None"
    then obtain r where "round_up_loop v 1 = Some r" by auto
    with round_up_loop_result obtain k where "v \<le> push_bit k 1" by metis
    with push_bit_1_le [of k] False show False by (simp add: word_le_nat_alt)
  qed
  with False that(2) show thesis by (simp add: round_up_pow2_def)
qed

lemma SPSCQueue_init_counts:
  assumes "SPSCQueue_init x cap = Some q"
  obtains e where "1 \<le> e" "e < 64" "ring_counts e 0 0 q" "ring_capacity q = mask e"
proof -
  let ?v = "if cap < 2 then 2 else cap"
  have two: "2 \<le> unat ?v" by (auto simp: word_less_nat_alt)
  show thesis
  proof (rule round_up_pow2_cases [of ?v])
    fix e assume e: "e < 64" "round_up_pow2 ?v = Some (2 ^ e)" "unat ?v \<le> 2 ^ e"
    then have q: "q = \<lparr>rg_mask = 2 ^ e - 1, rg_buffer = replicate (2 ^ e) x, heads = [0], tails = [0]\<rparr>"
      using assms by (simp add: SPSCQueue_init_def unat_power_64)
    have "e \<noteq> 0" using two e(3) by (intro notI) simp
    moreover have "idx e 0 = 0" by (simp add: idx_def)
    ultimately show thesis
      using that e by (simp add: q ring_counts_def ring_capacity_def mask_eq_exp_minus_1)
  next
    assume "round_up_pow2 ?v = None"
    with assms show thesis by (simp add: SPSCQueue_init_def)
  qed
qed

lemma spsc_reach_inv:
  "spsc_reach q r \<Longrightarrow> ring_counts e 0 0 q \<Longrightarrow> e < 64 \<Longrightarrow> \<exists>s. r = Inr s \<and> spsc_inv e s"
proof (induction rule: spsc_reach.induct)
  case start
  then show ?case by (simp add: spsc_init_def spsc_inv_def ring_holds_def)
next
  case (step s r)
  then show ?case using spsc_step_inv [of s r e] by simp
qed

section \<open>One thread at a time\<close>

text \<open>A client that pushes all it has, ignoring refusals, and one that pops up to \<open>n\<close> items.\<close>

fun enq_all :: "('a \<Rightarrow> 'q \<Rightarrow> (bool \<times> 'q) exec) \<Rightarrow> 'a list \<Rightarrow> 'q \<Rightarrow> 'q exec" where
  "enq_all enq [] q = Inr q"
| "enq_all enq (x # xs) q = ebind (enq x q) (\<lambda>(ok, q). enq_all enq xs q)"

fun drain :: "('q \<Rightarrow> ('a option \<times> 'q) exec) \<Rightarrow> nat \<Rightarrow> 'q \<Rightarrow> ('a list \<times> 'q) exec" where
  "drain deq 0 q = Inr ([], q)"
| "drain deq (Suc n) q = ebind (deq q) (\<lambda>(out, q). case out of
     None \<Rightarrow> Inr ([], q) | Some x \<Rightarrow> ebind (drain deq n q) (\<lambda>(xs, q). Inr (x # xs, q)))"

text \<open>The contract of a bounded queue, and what a client can do with it.\<close>

locale bounded_queue =
  fixes holds :: "'q \<Rightarrow> 'a list \<Rightarrow> bool" and cap :: nat
    and enq :: "'a \<Rightarrow> 'q \<Rightarrow> (bool \<times> 'q) exec" and deq :: "'q \<Rightarrow> ('a option \<times> 'q) exec"
  assumes enq_law: "holds q xs \<Longrightarrow> \<exists>q'. enq x q = Inr (length xs < cap, q') \<and>
      holds q' (if length xs < cap then xs @ [x] else xs)"
    and deq_law: "holds q xs \<Longrightarrow> \<exists>q'. deq q = Inr (case xs of [] \<Rightarrow> None | y # _ \<Rightarrow> Some y, q') \<and>
      holds q' (tl xs)"
begin

lemma enq_all_holds:
  "holds q xs \<Longrightarrow> \<exists>q'. enq_all enq ys q = Inr q' \<and> holds q' (xs @ take (cap - length xs) ys)"
proof (induction ys arbitrary: q xs)
  case (Cons y ys)
  from enq_law [OF Cons.prems, of y] obtain q1 where
    q1: "enq y q = Inr (length xs < cap, q1)" "holds q1 (if length xs < cap then xs @ [y] else xs)"
    by blast
  show ?case
  proof (cases "length xs < cap")
    case True
    then have "take (cap - length xs) (y # ys) = y # take (cap - length (xs @ [y])) ys"
      by (simp add: take_Cons' diff_Suc_1 flip: diff_Suc_eq_diff_pred)
    with Cons.IH [OF q1(2)] q1(1) True show ?thesis by simp
  next
    case False
    with Cons.IH [OF q1(2)] q1(1) show ?thesis by simp
  qed
qed auto

lemma drain_holds:
  "holds q xs \<Longrightarrow> \<exists>q'. drain deq n q = Inr (take n xs, q') \<and> holds q' (drop n xs)"
proof (induction n arbitrary: q xs)
  case (Suc n)
  from deq_law [OF Suc.prems] obtain q1 where
    q1: "deq q = Inr (case xs of [] \<Rightarrow> None | y # _ \<Rightarrow> Some y, q1)" "holds q1 (tl xs)" by blast
  from Suc.IH [OF q1(2)] q1 show ?case by (cases xs) auto
qed auto

lemma enq_drain:
  "holds q [] \<Longrightarrow> length ys \<le> cap \<Longrightarrow> \<exists>q'. ebind (enq_all enq ys q) (drain deq (length ys)) = Inr (ys, q') \<and> holds q' []"
  using enq_all_holds [of q "[]" ys] drain_holds [of _ ys "length ys"] by fastforce

end

definition ring_rep :: "nat \<Rightarrow> 'a ring \<Rightarrow> 'a list \<Rightarrow> bool" where
  "ring_rep e q xs \<longleftrightarrow> e < 64 \<and> (\<exists>all nc. ring_counts e (length all) nc q \<and> ring_holds e nc all q \<and>
     nc \<le> length all \<and> length all < nc + 2 ^ e \<and> xs = drop nc all)"

lemma try_push_rep:
  assumes "ring_rep e q xs"
  shows "\<exists>q'. try_push x q = Inr (length xs < 2 ^ e - 1, q') \<and>
    ring_rep e q' (if length xs < 2 ^ e - 1 then xs @ [x] else xs)"
proof -
  from assms obtain al nc where e: "e < 64" and q: "ring_counts e (length al) nc q"
    "ring_holds e nc al q" "nc \<le> length al" "length al < nc + 2 ^ e" "xs = drop nc al"
    by (auto simp: ring_rep_def)
  from e have e64: "e \<le> 64" by simp
  note counts = ring_counts_simps [OF q(1) e64]
  have full: "push_full (length (tails q) - 1) q \<longleftrightarrow> \<not> length xs < 2 ^ e - 1"
  proof -
    have "push_full (length (tails q) - 1) q \<longleftrightarrow> Suc (length al) mod 2 ^ e = nc mod 2 ^ e"
      by (simp add: counts)
    also have "\<dots> \<longleftrightarrow> Suc (length al) = nc + 2 ^ e"
      using q(3,4) slots_differ [of nc "Suc (length al)" "2 ^ e"] by (cases "Suc (length al) = nc + 2 ^ e") auto
    also have "\<dots> \<longleftrightarrow> \<not> length xs < 2 ^ e - 1" using q(3-5) by auto
    finally show ?thesis .
  qed
  show ?thesis
  proof (cases "length xs < 2 ^ e - 1")
    case False
    with full assms show ?thesis by (simp add: try_push_def)
  next
    case True
    then have room: "length al + 1 < nc + 2 ^ e" using q(3,5) by auto
    from push_write_ok [OF q(1) e64 refl q(2) room, of x] obtain q' where q':
      "push_write x q = Inr q'" "ring_counts e (length al) nc q'" "ring_holds e nc al q'"
      "rg_buffer q' ! (length al mod 2 ^ e) = x" by metis
    have "ring_holds e nc (al @ [x]) (push_publish q')"
      using q'(3,4) by (auto simp: ring_holds_def nth_append less_Suc_eq)
    with ring_counts_publish [OF q'(2) e64] room q(3,5) e
    have "ring_rep e (push_publish q') (xs @ [x])"
      unfolding ring_rep_def by (intro conjI exI [of _ "al @ [x]"] exI [of _ nc]) auto
    with True full q'(1) show ?thesis by (simp add: try_push_def)
  qed
qed

lemma try_pop_rep:
  assumes "ring_rep e q xs"
  shows "\<exists>q'. try_pop q = Inr (case xs of [] \<Rightarrow> None | y # _ \<Rightarrow> Some y, q') \<and> ring_rep e q' (tl xs)"
proof -
  from assms obtain al nc where e: "e < 64" and q: "ring_counts e (length al) nc q"
    "ring_holds e nc al q" "nc \<le> length al" "length al < nc + 2 ^ e" "xs = drop nc al"
    by (auto simp: ring_rep_def)
  from e have e64: "e \<le> 64" by simp
  note counts = ring_counts_simps [OF q(1) e64]
  have empty: "pop_empty (length (heads q) - 1) q \<longleftrightarrow> xs = []"
    using counts(3,9) q(3-5) slots_differ [of nc "length al" "2 ^ e"] by (cases "nc = length al") auto
  show ?thesis
  proof (cases "xs = []")
    case True
    with empty assms show ?thesis by (simp add: try_pop_def)
  next
    case False
    then have nc: "nc < length al" using q(5) by simp
    then have "xs = al ! nc # drop (Suc nc) al" using q(5) by (simp add: Cons_nth_drop_Suc)
    moreover have "ring_rep e (pop_release q) (drop (Suc nc) al)"
      unfolding ring_rep_def using e ring_counts_release [OF q(1) e64] ring_holds_mono [OF q(2)] nc q(4)
      by (intro conjI exI [of _ al] exI [of _ "Suc nc"]) auto
    ultimately show ?thesis
      using empty pop_read_ok [OF q(1) e64 q(2) nc] by (simp add: try_pop_def)
  qed
qed

interpretation spsc_queue: bounded_queue "ring_rep e" "2 ^ e - 1" try_push try_pop for e
  by unfold_locales (rule try_push_rep, assumption, rule try_pop_rep, assumption)

section \<open>Properties\<close>

lemma unat_mask_64:
  assumes "e < 64"
  shows "unat (mask e :: u64) = 2 ^ e - 1"
proof -
  have "(2 :: u64) ^ e \<noteq> 0"
    using unat_power_64 [OF assms] by (metis power_not_zero unsigned_0 zero_neq_numeral)
  then show ?thesis using unat_power_64 [OF assms] by (simp add: mask_eq_exp_minus_1 unat_minus_one)
qed

lemma SPSCQueue_reach_inv:
  assumes "SPSCQueue_init x cap = Some q" and "spsc_reach q r"
  obtains s e where "r = Inr s" "e < 64" "spsc_inv e s" "unat (ring_capacity q) = 2 ^ e - 1"
proof -
  from SPSCQueue_init_counts [OF assms(1)] obtain e where e: "e < 64" "ring_counts e 0 0 q"
    "ring_capacity q = mask e" by metis
  with unat_mask_64 have "unat (ring_capacity q) = 2 ^ e - 1" by simp
  with spsc_reach_inv [OF assms(2) e(2,1)] e(1) that show thesis by metis
qed

text \<open>C37. The rounding of the requested capacity: it ends exactly for requests up to \<open>2 ^ 63\<close>, and
  then yields the least power of two that is not below the request (1 for a request of 0).\<close>

theorem round_up_pow2_least:
  "case round_up_pow2 v of
     None \<Rightarrow> 2 ^ 63 < unat v
   | Some p \<Rightarrow> unat v \<le> unat p \<and> (\<exists>e < 64. p = 2 ^ e \<and> 2 ^ e < 2 * max 1 (unat v))"
  by (rule round_up_pow2_cases [of v]) (auto simp: unat_power_64)

text \<open>C14. For every requested capacity for which the constructor returns, whatever the two threads
  interleave and however stale the index values their loads return, no slot access is out of range,
  the consumer receives the items in the order they were pushed, each once and unchanged, and never
  more than the capacity is in flight.\<close>

theorem spsc_fifo:
  assumes "SPSCQueue_init x cap = Some q" and "spsc_reach q r"
  shows "\<exists>s rest. r = Inr s \<and> pushed s = popped s @ rest \<and> length rest \<le> unat (ring_capacity q)"
proof -
  from SPSCQueue_reach_inv [OF assms] obtain s e where s: "r = Inr s" "spsc_inv e s"
    "unat (ring_capacity q) = 2 ^ e - 1" by metis
  then have inv: "take (length (popped s)) (pushed s) = popped s"
    "length (pushed s) < length (popped s) + 2 ^ e" by (simp_all add: spsc_inv_def Let_def)
  then have "pushed s = popped s @ drop (length (popped s)) (pushed s)" by (metis append_take_drop_id)
  moreover have "length (drop (length (popped s)) (pushed s)) \<le> 2 ^ e - 1" using inv(2) by auto
  ultimately show ?thesis using s by metis
qed

text \<open>C27. The two threads never access the same slot at the same time: when the producer is about
  to write one and the consumer about to read one, or has just read one it has not yet released,
  the slots differ.\<close>

theorem spsc_no_slot_race:
  assumes "SPSCQueue_init x cap = Some q" and "spsc_reach q (Inr s)"
    and "producer s \<in> {PWrite item, PStore item}" and "consumer s = CRead \<or> consumer s = CStore out"
  shows "last (heads (ring s)) \<noteq> last (tails (ring s))"
proof -
  from SPSCQueue_reach_inv [OF assms(1,2)] obtain e where e: "e < 64" "spsc_inv e s" by auto
  let ?np = "length (pushed s)" and ?nc = "length (popped s)"
  from e(2) have counts: "ring_counts e ?np ?nc (ring s)" by (simp add: spsc_inv_def Let_def)
  from e assms(3,4) have "?nc < ?np" "?np < ?nc + 2 ^ e" by (auto simp: spsc_inv_def Let_def)
  with slots_differ [of ?nc ?np "2 ^ e"] e(1) show ?thesis
    by (simp add: ring_counts_simps [OF counts] idx_eq_iff)
qed

text \<open>A load that returns the other thread's latest store makes the tests exact: the consumer
  finds the queue empty when every pushed item was popped, the producer finds it full when the
  items in flight fill the capacity.\<close>

theorem spsc_latest_load_exact:
  assumes "SPSCQueue_init x cap = Some q" and "spsc_reach q (Inr s)"
  shows "(pop_empty (length (heads (ring s)) - 1) (ring s) \<longleftrightarrow> popped s = pushed s) \<and>
    (push_full (length (tails (ring s)) - 1) (ring s) \<longleftrightarrow>
      length (pushed s) = length (popped s) + unat (ring_capacity q))"
proof -
  from SPSCQueue_reach_inv [OF assms] obtain e where e: "e < 64" "spsc_inv e s"
    "unat (ring_capacity q) = 2 ^ e - 1" by auto
  let ?np = "length (pushed s)" and ?nc = "length (popped s)"
  from e(2) have inv: "ring_counts e ?np ?nc (ring s)" "take ?nc (pushed s) = popped s"
    "?nc \<le> ?np" "?np < ?nc + 2 ^ e" by (simp_all add: spsc_inv_def Let_def)
  from e(1) have "e \<le> 64" by simp
  note counts = ring_counts_simps [OF inv(1) this]
  have "?nc = ?np \<longleftrightarrow> popped s = pushed s" using inv(2) by (metis take_all order_refl)
  with slots_differ [of ?nc ?np "2 ^ e"] inv(3,4)
  have empty: "pop_empty (length (heads (ring s)) - 1) (ring s) \<longleftrightarrow> popped s = pushed s"
    by (cases "?nc = ?np") (simp_all add: counts)
  have "Suc ?np mod 2 ^ e = ?nc mod 2 ^ e \<longleftrightarrow> Suc ?np = ?nc + 2 ^ e"
    using slots_differ [of ?nc "Suc ?np" "2 ^ e"] inv(3,4) by (cases "Suc ?np = ?nc + 2 ^ e") auto
  then have "push_full (length (tails (ring s)) - 1) (ring s) \<longleftrightarrow>
      length (pushed s) = length (popped s) + unat (ring_capacity q)"
    by (auto simp: counts e(3))
  with empty show ?thesis by blast
qed

text \<open>On one thread a fresh queue takes as many items as its capacity and hands back exactly
  those, in order, whatever was offered.\<close>

theorem spsc_fill_and_drain:
  assumes "SPSCQueue_init x cap = Some q"
  shows "\<exists>q1 q2. enq_all try_push ys q = Inr q1 \<and>
    drain try_pop (length ys) q1 = Inr (take (unat (ring_capacity q)) ys, q2)"
proof -
  from SPSCQueue_init_counts [OF assms] obtain e where e: "e < 64" "ring_counts e 0 0 q"
    "ring_capacity q = mask e" by metis
  then have "ring_rep e q []"
    unfolding ring_rep_def ring_holds_def by (intro conjI exI [of _ "[]"] exI [of _ 0]) auto
  from spsc_queue.enq_all_holds [OF this, of ys] obtain q1 where
    q1: "enq_all try_push ys q = Inr q1" "ring_rep e q1 (take (2 ^ e - 1) ys)" by auto
  from spsc_queue.drain_holds [OF q1(2), of "length ys"] obtain q2 where
    "drain try_pop (length ys) q1 = Inr (take (length ys) (take (2 ^ e - 1) ys), q2)" by auto
  moreover have "take (length ys) (take (2 ^ e - 1) ys) = take (2 ^ e - 1) ys"
    by (metis length_take min.cobounded1 take_all)
  ultimately show ?thesis using q1(1) e unat_mask_64 [of e] by metis
qed

section \<open>The queue as a sequence\<close>

text \<open>The queue its clients see: what was pushed and not yet popped.\<close>

definition fifo_enq :: "nat \<Rightarrow> 'a \<Rightarrow> 'a list \<Rightarrow> 'a list option" where
  "fifo_enq cap x q = (if length q < cap then Some (q @ [x]) else None)"

definition fifo_deq :: "'a list \<Rightarrow> ('a \<times> 'a list) option" where
  "fifo_deq q = (case q of [] \<Rightarrow> None | x # xs \<Rightarrow> Some (x, xs))"

definition in_flight :: "'a spsc \<Rightarrow> 'a list" where
  "in_flight s = drop (length (popped s)) (pushed s)"

lemma in_flight_enq:
  assumes "spsc_inv e s" and "spsc_inv e s'" and "pushed s' = pushed s @ [item]" and "popped s' = popped s"
  shows "fifo_enq (2 ^ e - 1) item (in_flight s) = Some (in_flight s')"
  using assms by (auto simp: spsc_inv_def Let_def fifo_enq_def in_flight_def)

lemma in_flight_deq:
  assumes "spsc_inv e s'" and "pushed s' = pushed s" and "popped s' = popped s @ [item]"
  shows "fifo_deq (in_flight s) = Some (item, in_flight s')"
proof -
  from assms(1) have inv: "take (length (popped s')) (pushed s') = popped s'"
    "length (popped s') \<le> length (pushed s')" by (auto simp: spsc_inv_def Let_def)
  from inv(2) assms(2,3) have less: "length (popped s) < length (pushed s)" by simp
  with inv(1) assms(2,3) have "item = pushed s ! length (popped s)" by (simp add: take_Suc_conv_app_nth)
  with less assms(2,3) show ?thesis
    by (simp add: in_flight_def fifo_deq_def Cons_nth_drop_Suc [symmetric])
qed

text \<open>Refinement of the sequence: a step of either thread on a reachable queue leaves the items
  in flight alone, appends the producer's item while there is room, or removes the first one and
  hands it to the consumer.\<close>

theorem spsc_refines_fifo:
  assumes "SPSCQueue_init x cap = Some q" and "spsc_reach q (Inr s)" and "spsc_step s r"
  shows "\<exists>s'. r = Inr s' \<and>
    (in_flight s' = in_flight s \<and> pushed s' = pushed s \<and> popped s' = popped s \<or>
     (\<exists>item. pushed s' = pushed s @ [item] \<and> popped s' = popped s \<and>
        fifo_enq (unat (ring_capacity q)) item (in_flight s) = Some (in_flight s')) \<or>
     (\<exists>item. pushed s' = pushed s \<and> popped s' = popped s @ [item] \<and>
        fifo_deq (in_flight s) = Some (item, in_flight s')))"
proof -
  from SPSCQueue_reach_inv [OF assms(1,2)] obtain e where e: "e < 64" "spsc_inv e s"
    "unat (ring_capacity q) = 2 ^ e - 1" by auto
  then have "e \<le> 64" by simp
  from spsc_step_inv [OF assms(3) e(2) this] obtain s' where s': "r = Inr s'" "spsc_inv e s'" by auto
  from assms(3) s'(1) consider
      "pushed s' = pushed s" "popped s' = popped s"
    | item where "pushed s' = pushed s @ [item]" "popped s' = popped s"
    | item where "pushed s' = pushed s" "popped s' = popped s @ [item]"
    by (cases rule: spsc_step.cases) (auto simp: ebind_eq_Inr_iff)
  then show ?thesis
  proof cases
    case 1
    with s'(1) show ?thesis by (auto simp: in_flight_def)
  next
    case 2
    with in_flight_enq [OF e(2) s'(2) 2] s'(1) e(3) show ?thesis by auto
  next
    case 3
    with in_flight_deq [OF s'(2) 3] s'(1) show ?thesis by auto
  qed
qed

section \<open>A run of the two threads\<close>

text \<open>
  A queue of capacity 3. The producer has pushed 7 and is about to write 8, the consumer is about
  to read 7.
\<close>

definition demo_ring :: "nat ring" where
  "demo_ring = \<lparr>rg_mask = 3, rg_buffer = [0, 0, 0, 0], heads = [0], tails = [0]\<rparr>"

definition demo_state :: "nat spsc" where
  "demo_state = \<lparr>ring = \<lparr>rg_mask = 3, rg_buffer = [7, 0, 0, 0], heads = [0, 1], tails = [0]\<rparr>,
     producer = PWrite 8, consumer = CRead, p_view = 0, c_view = 1, pushed = [7], popped = []\<rparr>"

lemma demo_ring_init: "SPSCQueue_init 0 3 = Some demo_ring"
proof -
  have "round_up_pow2 3 = Some 4"
    unfolding round_up_pow2_def
    by (subst round_up_loop.simps, simp, subst round_up_loop.simps, simp, subst round_up_loop.simps, simp)
  moreover have "replicate 4 (0 :: nat) = [0, 0, 0, 0]" by (simp add: numeral_eq_Suc)
  ultimately show ?thesis by (simp add: SPSCQueue_init_def demo_ring_def)
qed

lemmas ring_eval = push_next_def push_full_def push_write_def push_publish_def pop_empty_def
  pop_read_def pop_release_def demo_ring_def demo_state_def spsc_init_def

lemma demo_reach: "spsc_reach demo_ring (Inr demo_state)"
proof -
  let ?s0 = "spsc_init demo_ring"
  let ?s1 = "?s0\<lparr>producer := PLoad 7\<rparr>"
  let ?s2 = "?s1\<lparr>producer := PWrite 7, p_view := 0\<rparr>"
  let ?s3 = "?s2\<lparr>producer := PStore 7, ring := (ring ?s2)\<lparr>rg_buffer := [7, 0, 0, 0]\<rparr>\<rparr>"
  let ?s4 = "?s3\<lparr>producer := PIdle, ring := push_publish (ring ?s3), pushed := [7]\<rparr>"
  let ?s5 = "?s4\<lparr>consumer := CLoad\<rparr>"
  let ?s6 = "?s5\<lparr>consumer := CRead, c_view := 1\<rparr>"
  let ?s7 = "?s6\<lparr>producer := PLoad 8\<rparr>"
  have s1: "spsc_step ?s0 (Inr ?s1)" by (rule push_call) (simp add: spsc_init_def)
  have s2: "spsc_step ?s1 (Inr ?s2)" by (rule push_room) (simp_all add: ring_eval)
  have s3: "spsc_step ?s2 (Inr ?s3)" using push_slot [of ?s2 7] by (simp add: ring_eval)
  have s4: "spsc_step ?s3 (Inr ?s4)" using push_done [of ?s3 7] by (simp add: ring_eval)
  have s5: "spsc_step ?s4 (Inr ?s5)" by (rule pop_call) (simp add: ring_eval)
  have s6: "spsc_step ?s5 (Inr ?s6)" by (rule pop_some) (simp_all add: ring_eval)
  have s7: "spsc_step ?s6 (Inr ?s7)" by (rule push_call) (simp add: ring_eval)
  have s8: "spsc_step ?s7 (Inr (?s7\<lparr>producer := PWrite 8, p_view := 0\<rparr>))"
    by (rule push_room) (simp_all add: ring_eval)
  have "demo_state = ?s7\<lparr>producer := PWrite 8, p_view := 0\<rparr>" by (simp add: ring_eval)
  with spsc_reach.step [OF _ s8] spsc_reach.step [OF _ s7] spsc_reach.step [OF _ s6]
    spsc_reach.step [OF _ s5] spsc_reach.step [OF _ s4] spsc_reach.step [OF _ s3]
    spsc_reach.step [OF _ s2] spsc_reach.step [OF _ s1] spsc_reach.start
  show ?thesis by metis
qed

theorem spsc_fifo_witness:
  "\<exists>s rest. Inr demo_state = (Inr s :: nat spsc exec) \<and> pushed s = popped s @ rest \<and>
     length rest \<le> unat (ring_capacity demo_ring)"
  by (rule spsc_fifo [OF demo_ring_init demo_reach])

theorem spsc_no_slot_race_witness: "last (heads (ring demo_state)) \<noteq> last (tails (ring demo_state))"
  by (rule spsc_no_slot_race [OF demo_ring_init demo_reach, of 8]) (simp_all add: demo_state_def)

theorem spsc_latest_load_exact_witness:
  "\<not> pop_empty 1 (ring demo_state) \<and> \<not> push_full 0 (ring demo_state)"
  using spsc_latest_load_exact [OF demo_ring_init demo_reach] by (simp add: ring_eval ring_capacity_def)

theorem spsc_fill_and_drain_witness:
  "\<exists>q1 q2. enq_all try_push [1, 2, 3, 4, 5] demo_ring = Inr q1 \<and>
     drain try_pop 5 q1 = Inr ([1, 2, 3], q2)"
proof -
  have "unat (ring_capacity demo_ring) = 3" "length [1, 2, 3, 4, 5 :: nat] = 5"
    "take 3 [1, 2, 3, 4, 5 :: nat] = [1, 2, 3]" by (simp_all add: ring_capacity_def demo_ring_def)
  with spsc_fill_and_drain [OF demo_ring_init, of "[1, 2, 3, 4, 5]"] show ?thesis by (simp only:)
qed

theorem spsc_refines_fifo_witness:
  "\<exists>s'. Inr (demo_state\<lparr>consumer := CStore 7\<rparr>) = (Inr s' :: nat spsc exec) \<and>
    (in_flight s' = in_flight demo_state \<and> pushed s' = pushed demo_state \<and> popped s' = popped demo_state \<or>
     (\<exists>item. pushed s' = pushed demo_state @ [item] \<and> popped s' = popped demo_state \<and>
        fifo_enq (unat (ring_capacity demo_ring)) item (in_flight demo_state) = Some (in_flight s')) \<or>
     (\<exists>item. pushed s' = pushed demo_state \<and> popped s' = popped demo_state @ [item] \<and>
        fifo_deq (in_flight demo_state) = Some (item, in_flight s')))"
proof -
  have "spsc_step demo_state (Inr (demo_state\<lparr>consumer := CStore 7\<rparr>))"
    using pop_slot [of demo_state] by (simp add: ring_eval)
  then show ?thesis by (rule spsc_refines_fifo [OF demo_ring_init demo_reach])
qed

end
