(* ===== verification/Market_Simulator.thy ===== *)
theory Market_Simulator
  imports Order_Book "HOL-Library.Stream"
begin

text \<open>
  Model of \<^verbatim>\<open>include/mdfh/simulator.hpp\<close> and \<^verbatim>\<open>src/simulator.cpp\<close>. The generator
  \<^verbatim>\<open>std::mt19937_64\<close> with the distributions drawn from it is a tape of natural numbers: a draw
  from a range takes the next number and reduces it into the range, so the tapes yield exactly
  the sequences of values that distributions may return, and a statement for every tape holds
  for every seed and every standard library. A distribution over an empty range is undefined
  behaviour, a fault. Prices are \<^verbatim>\<open>int64_t\<close> and the action weights \<^verbatim>\<open>int\<close>: their arithmetic
  faults when the result does not fit.
\<close>

section \<open>Draws and signed arithmetic\<close>

type_synonym tape = "nat stream"

definition draw :: "nat \<Rightarrow> nat \<Rightarrow> tape \<Rightarrow> (nat \<times> tape) exec" where
  "draw lo hi rng =
     (if lo \<le> hi then Inr (lo + shd rng mod (hi - lo + 1), stl rng) else Inl BadRange)"

definition price_add :: "Price \<Rightarrow> Price \<Rightarrow> Price exec" where
  "price_add p q = i64_exec (sint p + sint q)"

definition price_sub :: "Price \<Rightarrow> Price \<Rightarrow> Price exec" where
  "price_sub p q = i64_exec (sint p - sint q)"

definition price_mul :: "Price \<Rightarrow> Price \<Rightarrow> Price exec" where
  "price_mul p q = i64_exec (sint p * sint q)"

text \<open>\<^verbatim>\<open>std::min\<close> and \<^verbatim>\<open>std::max\<close> on prices.\<close>

definition price_min :: "Price \<Rightarrow> Price \<Rightarrow> Price" where
  "price_min p q = (if sint q < sint p then q else p)"

definition price_max :: "Price \<Rightarrow> Price \<Rightarrow> Price" where
  "price_max p q = (if sint p < sint q then q else p)"

definition int_add :: "int \<Rightarrow> int \<Rightarrow> int exec" where
  "int_add a b = (if - (2 ^ 31) \<le> a + b \<and> a + b < 2 ^ 31 then Inr (a + b) else Inl SignedOverflow)"

section \<open>State\<close>

text \<open>The seed is not a field: the tape takes its place.\<close>

record SimConfig =
  sc_num_symbols :: u32
  sc_num_messages :: u64
  sc_start_price :: Price
  sc_symbol_price_step :: Price
  sc_tick :: Price
  sc_band_levels :: u32
  sc_min_qty :: Quantity
  sc_max_qty :: Quantity
  sc_ts_start :: TimestampNs
  sc_ts_step_ns :: TimestampNs
  sc_w_add :: int
  sc_w_cancel :: int
  sc_w_modify :: int
  sc_w_trade :: int
  sc_snapshot_interval :: u64
  sc_heartbeat_interval :: u64

definition SimConfig_default :: SimConfig where
  "SimConfig_default =
     \<lparr>sc_num_symbols = 4, sc_num_messages = 1000000, sc_start_price = word_of_int (100 * kPriceScale),
      sc_symbol_price_step = word_of_int (5 * kPriceScale),
      sc_tick = word_of_int (kPriceScale div 100), sc_band_levels = 10, sc_min_qty = 1,
      sc_max_qty = 500, sc_ts_start = 1000000000, sc_ts_step_ns = 1000, sc_w_add = 50,
      sc_w_cancel = 22, sc_w_modify = 18, sc_w_trade = 10, sc_snapshot_interval = 0,
      sc_heartbeat_interval = 100000\<rparr>"

record GeneratedMessage =
  gm_type :: MsgType
  gm_seq :: Sequence
  gm_ts :: TimestampNs
  gm_add :: AddOrder
  gm_cancel :: CancelOrder
  gm_modify :: ModifyOrder
  gm_trade :: Trade
  gm_snap :: BookSnapshot

definition zero_levels :: "SnapshotLevel list" where
  "zero_levels = replicate kMaxSnapshotLevels \<lparr>sl_price = 0, sl_quantity = 0\<rparr>"

definition GeneratedMessage_init :: GeneratedMessage where
  "GeneratedMessage_init =
     \<lparr>gm_type = Heartbeat, gm_seq = 0, gm_ts = 0,
      gm_add = \<lparr>ao_symbol = 0, ao_order_id = 0, ao_side = Buy, ao_price = 0, ao_quantity = 0\<rparr>,
      gm_cancel = \<lparr>co_symbol = 0, co_order_id = 0\<rparr>,
      gm_modify = \<lparr>mo_symbol = 0, mo_order_id = 0, mo_new_price = 0, mo_new_quantity = 0\<rparr>,
      gm_trade = \<lparr>tr_symbol = 0, tr_resting_order_id = 0, tr_price = 0, tr_quantity = 0,
                  tr_aggressor_side = Buy\<rparr>,
      gm_snap = \<lparr>bs_symbol = 0, bs_num_bid_levels = 0, bs_num_ask_levels = 0,
                 bs_bids = zero_levels, bs_asks = zero_levels\<rparr>\<rparr>"

record LiveOrder =
  lo_side :: Side
  lo_price :: Price
  lo_qty :: Quantity

text \<open>Both depth maps are ordered by \<^verbatim>\<open>std::less\<close>, which is \<open>ask_before\<close>.\<close>

record SymbolState =
  sy_ref_mid :: Price
  sy_orders :: "(OrderId, LiveOrder) umap"
  sy_live_ids :: "OrderId list"
  sy_index :: "(OrderId, nat) umap"
  sy_bid_qty :: "(Price, Quantity) omap"
  sy_ask_qty :: "(Price, Quantity) omap"

definition SymbolState_init :: "Price \<Rightarrow> SymbolState" where
  "SymbolState_init mid = \<lparr>sy_ref_mid = mid, sy_orders = [], sy_live_ids = [], sy_index = [],
     sy_bid_qty = [], sy_ask_qty = []\<rparr>"

record MarketSimulator =
  sim_cfg :: SimConfig
  sim_rng :: tape
  sim_symbols :: "SymbolState list"
  sim_produced :: u64
  sim_next_seq :: Sequence
  sim_next_order_id :: OrderId
  sim_ts :: TimestampNs

text \<open>The constructor; \<open>init_symbols\<close> is its loop over the symbols below \<open>n\<close>.\<close>

fun init_symbols :: "SimConfig \<Rightarrow> nat \<Rightarrow> SymbolState list exec" where
  "init_symbols cfg 0 = Inr []"
| "init_symbols cfg (Suc i) =
     ebind (init_symbols cfg i) (\<lambda>symbols.
     ebind (price_mul (of_nat i) (sc_symbol_price_step cfg)) (\<lambda>d.
     ebind (price_add (sc_start_price cfg) d) (\<lambda>mid. Inr (symbols @ [SymbolState_init mid]))))"

definition MarketSimulator_init :: "SimConfig \<Rightarrow> tape \<Rightarrow> MarketSimulator exec" where
  "MarketSimulator_init cfg rng =
     ebind (init_symbols cfg (unat (sc_num_symbols cfg))) (\<lambda>symbols.
     Inr \<lparr>sim_cfg = cfg, sim_rng = rng, sim_symbols = symbols, sim_produced = 0, sim_next_seq = 1,
          sim_next_order_id = 1, sim_ts = sc_ts_start cfg\<rparr>)"

section \<open>The model of the resting orders\<close>

text \<open>\<^verbatim>\<open>m[k] = v\<close> on an \<^verbatim>\<open>unordered_map\<close>, and \<^verbatim>\<open>m[p] += q\<close> on a depth map.\<close>

definition um_put :: "'k \<Rightarrow> 'v \<Rightarrow> ('k, 'v) umap \<Rightarrow> ('k, 'v) umap" where
  "um_put k v m = (case map_of m k of None \<Rightarrow> (k, v) # m | Some _ \<Rightarrow> um_assign k v m)"

definition depth_plus :: "Price \<Rightarrow> Quantity \<Rightarrow> (Price, Quantity) omap \<Rightarrow> (Price, Quantity) omap" where
  "depth_plus p q m =
     (let m = fst (om_try_emplace ask_before p 0 m)
      in case om_find ask_before p m of None \<Rightarrow> m | Some v \<Rightarrow> om_assign p (v + q) m)"

definition depth_minus :: "Price \<Rightarrow> Quantity \<Rightarrow> (Price, Quantity) omap \<Rightarrow> (Price, Quantity) omap" where
  "depth_minus p q m =
     (case om_find ask_before p m of
        None \<Rightarrow> m
      | Some v \<Rightarrow> if v \<le> q then om_erase p m else om_assign p (v - q) m)"

definition add_depth :: "Side \<Rightarrow> Price \<Rightarrow> Quantity \<Rightarrow> SymbolState \<Rightarrow> SymbolState" where
  "add_depth side p q s =
     (if side = Buy then s\<lparr>sy_bid_qty := depth_plus p q (sy_bid_qty s)\<rparr>
      else s\<lparr>sy_ask_qty := depth_plus p q (sy_ask_qty s)\<rparr>)"

definition remove_depth :: "Side \<Rightarrow> Price \<Rightarrow> Quantity \<Rightarrow> SymbolState \<Rightarrow> SymbolState" where
  "remove_depth side p q s =
     (if side = Buy then s\<lparr>sy_bid_qty := depth_minus p q (sy_bid_qty s)\<rparr>
      else s\<lparr>sy_ask_qty := depth_minus p q (sy_ask_qty s)\<rparr>)"

definition register_order :: "OrderId \<Rightarrow> Side \<Rightarrow> Price \<Rightarrow> Quantity \<Rightarrow> SymbolState \<Rightarrow> SymbolState" where
  "register_order oid side p q s =
     (let s = s\<lparr>sy_orders := um_emplace oid \<lparr>lo_side = side, lo_price = p, lo_qty = q\<rparr> (sy_orders s)\<rparr>;
          s = s\<lparr>sy_index := um_emplace oid (length (sy_live_ids s)) (sy_index s)\<rparr>;
          s = s\<lparr>sy_live_ids := sy_live_ids s @ [oid]\<rparr>
      in add_depth side p q s)"

text \<open>\<^verbatim>\<open>index[id]\<close> inserts a zero for an absent id; \<^verbatim>\<open>back\<close> of an empty vector is undefined.\<close>

definition unregister_order :: "OrderId \<Rightarrow> SymbolState \<Rightarrow> SymbolState exec" where
  "unregister_order oid s =
     (case map_of (sy_orders s) oid of
        None \<Rightarrow> Inr s
      | Some ord \<Rightarrow>
          (let s = remove_depth (lo_side ord) (lo_price ord) (lo_qty ord) s;
               s = s\<lparr>sy_index := um_emplace oid 0 (sy_index s)\<rparr>;
               slot = the (map_of (sy_index s) oid)
           in if sy_live_ids s = [] then Inl OutOfBounds
              else
                let moved = last (sy_live_ids s)
                in ebind (wr (sy_live_ids s) slot moved) (\<lambda>ids.
                   Inr (s\<lparr>sy_live_ids := butlast ids,
                         sy_index := um_erase oid (um_put moved slot (sy_index s)),
                         sy_orders := um_erase oid (sy_orders s)\<rparr>))))"

definition random_live :: "SymbolState \<Rightarrow> tape \<Rightarrow> (OrderId \<times> tape) exec" where
  "random_live s rng =
     ebind (draw 0 (unat (of_nat (length (sy_live_ids s)) - 1 :: u64)) rng) (\<lambda>(i, rng).
     ebind (rd (sy_live_ids s) i) (\<lambda>oid. Inr (oid, rng)))"

definition random_qty :: "SimConfig \<Rightarrow> tape \<Rightarrow> (Quantity \<times> tape) exec" where
  "random_qty cfg rng =
     ebind (draw (unat (sc_min_qty cfg)) (unat (sc_max_qty cfg)) rng) (\<lambda>(q, rng). Inr (of_nat q, rng))"

text \<open>The offset of \<^verbatim>\<open>off_dist\<close>, scaled by the tick.\<close>

definition random_offset :: "SimConfig \<Rightarrow> tape \<Rightarrow> (Price \<times> tape) exec" where
  "random_offset cfg rng =
     ebind (draw 0 (unat (sc_band_levels cfg - 1)) rng) (\<lambda>(off, rng).
     ebind (price_mul (of_nat off) (sc_tick cfg)) (\<lambda>d. Inr (d, rng)))"

definition choose_bid :: "SimConfig \<Rightarrow> SymbolState \<Rightarrow> tape \<Rightarrow> (Price \<times> tape) exec" where
  "choose_bid cfg s rng =
     ebind (case sy_ask_qty s of [] \<Rightarrow> price_sub (sy_ref_mid s) (sc_tick cfg)
              | (ask, _) # _ \<Rightarrow> price_sub ask (sc_tick cfg)) (\<lambda>ceil.
     ebind (if sy_bid_qty s = [] then Inr ceil
            else ebind (price_add (fst (last (sy_bid_qty s))) (sc_tick cfg)) (\<lambda>p.
                   Inr (price_min p ceil))) (\<lambda>anchor.
     ebind (random_offset cfg rng) (\<lambda>(d, rng).
     ebind (price_sub anchor d) (\<lambda>price. Inr (price_max price (sc_tick cfg), rng)))))"

definition choose_ask :: "SimConfig \<Rightarrow> SymbolState \<Rightarrow> tape \<Rightarrow> (Price \<times> tape) exec" where
  "choose_ask cfg s rng =
     ebind (if sy_bid_qty s = [] then price_add (sy_ref_mid s) (sc_tick cfg)
            else price_add (fst (last (sy_bid_qty s))) (sc_tick cfg)) (\<lambda>floor.
     ebind (case sy_ask_qty s of [] \<Rightarrow> Inr floor
              | (ask, _) # _ \<Rightarrow> ebind (price_sub ask (sc_tick cfg)) (\<lambda>p. Inr (price_max p floor))) (\<lambda>anchor.
     ebind (random_offset cfg rng) (\<lambda>(d, rng).
     ebind (price_add anchor d) (\<lambda>price. Inr (price, rng)))))"

definition choose_price :: "SimConfig \<Rightarrow> Side \<Rightarrow> SymbolState \<Rightarrow> tape \<Rightarrow> (Price \<times> tape) exec" where
  "choose_price cfg side s rng = (if side = Buy then choose_bid cfg s rng else choose_ask cfg s rng)"

section \<open>Messages\<close>

text \<open>Each filler returns the message, the symbol and the tape; the three that need a live order
  return \<open>None\<close> when there is none.\<close>

definition fill_add ::
  "SimConfig \<Rightarrow> SymbolId \<Rightarrow> OrderId \<Rightarrow> GeneratedMessage \<Rightarrow> SymbolState \<Rightarrow> tape \<Rightarrow>
     (GeneratedMessage \<times> SymbolState \<times> OrderId \<times> tape) exec" where
  "fill_add cfg symbol next_id out s rng =
     ebind (draw 0 1 rng) (\<lambda>(r, rng).
     let side = (if r = 0 then Buy else Sell)
     in ebind (choose_price cfg side s rng) (\<lambda>(price, rng).
        ebind (random_qty cfg rng) (\<lambda>(qty, rng).
        let s = register_order next_id side price qty s
        in Inr (out\<lparr>gm_type := AddOrder,
                   gm_add := \<lparr>ao_symbol = symbol, ao_order_id = next_id, ao_side = side,
                              ao_price = price, ao_quantity = qty\<rparr>\<rparr>, s, next_id + 1, rng))))"

definition fill_cancel ::
  "SymbolId \<Rightarrow> GeneratedMessage \<Rightarrow> SymbolState \<Rightarrow> tape \<Rightarrow>
     (GeneratedMessage \<times> SymbolState \<times> tape) option exec" where
  "fill_cancel symbol out s rng =
     (if sy_live_ids s = [] then Inr None
      else ebind (random_live s rng) (\<lambda>(oid, rng).
           ebind (unregister_order oid s) (\<lambda>s.
           Inr (Some (out\<lparr>gm_type := CancelOrder, gm_cancel := \<lparr>co_symbol = symbol, co_order_id = oid\<rparr>\<rparr>,
                      s, rng)))))"

definition live_at :: "OrderId \<Rightarrow> SymbolState \<Rightarrow> LiveOrder exec" where
  "live_at oid s = (case map_of (sy_orders s) oid of None \<Rightarrow> Inl MissingKey | Some ord \<Rightarrow> Inr ord)"

definition fill_modify ::
  "SimConfig \<Rightarrow> SymbolId \<Rightarrow> GeneratedMessage \<Rightarrow> SymbolState \<Rightarrow> tape \<Rightarrow>
     (GeneratedMessage \<times> SymbolState \<times> tape) option exec" where
  "fill_modify cfg symbol out s rng =
     (if sy_live_ids s = [] then Inr None
      else ebind (random_live s rng) (\<lambda>(oid, rng).
           ebind (live_at oid s) (\<lambda>ord.
           let s = remove_depth (lo_side ord) (lo_price ord) (lo_qty ord) s
           in ebind (choose_price cfg (lo_side ord) s rng) (\<lambda>(new_price, rng).
              ebind (random_qty cfg rng) (\<lambda>(new_qty, rng).
              let s = s\<lparr>sy_orders := um_assign oid (ord\<lparr>lo_price := new_price, lo_qty := new_qty\<rparr>)
                                      (sy_orders s)\<rparr>;
                  s = add_depth (lo_side ord) new_price new_qty s
              in Inr (Some (out\<lparr>gm_type := ModifyOrder,
                              gm_modify := \<lparr>mo_symbol = symbol, mo_order_id = oid,
                                            mo_new_price = new_price, mo_new_quantity = new_qty\<rparr>\<rparr>,
                            s, rng)))))))"

definition fill_trade ::
  "SymbolId \<Rightarrow> GeneratedMessage \<Rightarrow> SymbolState \<Rightarrow> tape \<Rightarrow>
     (GeneratedMessage \<times> SymbolState \<times> tape) option exec" where
  "fill_trade symbol out s rng =
     (if sy_live_ids s = [] then Inr None
      else ebind (random_live s rng) (\<lambda>(oid, rng).
           ebind (live_at oid s) (\<lambda>ord.
           ebind (draw 1 (unat (lo_qty ord)) rng) (\<lambda>(n, rng).
           let fill = of_nat n;
               out = out\<lparr>gm_type := Trade,
                         gm_trade := \<lparr>tr_symbol = symbol, tr_resting_order_id = oid,
                                      tr_price = lo_price ord, tr_quantity = fill,
                                      tr_aggressor_side = opposite (lo_side ord)\<rparr>\<rparr>
           in ebind (if fill \<ge> lo_qty ord then unregister_order oid s
                     else Inr ((remove_depth (lo_side ord) (lo_price ord) fill s)
                            \<lparr>sy_orders := um_assign oid (ord\<lparr>lo_qty := lo_qty ord - fill\<rparr>)
                                            (sy_orders s)\<rparr>)) (\<lambda>s.
              Inr (Some (out, s, rng)))))))"

fun snap_levels ::
  "(Price, Quantity) omap \<Rightarrow> nat \<Rightarrow> SnapshotLevel list \<Rightarrow> (SnapshotLevel list \<times> nat) exec" where
  "snap_levels [] i arr = Inr (arr, i)"
| "snap_levels ((p, q) # m) i arr =
     (if i < kMaxSnapshotLevels
      then ebind (wr arr i \<lparr>sl_price = p, sl_quantity = q\<rparr>) (snap_levels m (i + 1))
      else Inr (arr, i))"

definition make_snapshot :: "SymbolId \<Rightarrow> SymbolState \<Rightarrow> BookSnapshot exec" where
  "make_snapshot symbol s =
     ebind (snap_levels (rev (sy_bid_qty s)) 0 zero_levels) (\<lambda>(bids, nb).
     ebind (snap_levels (sy_ask_qty s) 0 zero_levels) (\<lambda>(asks, na).
     Inr \<lparr>bs_symbol = symbol, bs_num_bid_levels = of_nat nb, bs_num_ask_levels = of_nat na,
          bs_bids = bids, bs_asks = asks\<rparr>))"

text \<open>
  The choice of the action by the drawn \<open>r\<close>. \<open>None\<close> stands for \<^verbatim>\<open>fill_add\<close>: the first branch,
  and the fallback when there is no live order to act on.
\<close>

definition act ::
  "SimConfig \<Rightarrow> int \<Rightarrow> SymbolId \<Rightarrow> GeneratedMessage \<Rightarrow> SymbolState \<Rightarrow> tape \<Rightarrow>
     (GeneratedMessage \<times> SymbolState \<times> tape) option exec" where
  "act cfg r symbol out s rng =
     (if r < sc_w_add cfg then Inr None
      else ebind (int_add (sc_w_add cfg) (sc_w_cancel cfg)) (\<lambda>w.
        if r < w then fill_cancel symbol out s rng
        else ebind (int_add w (sc_w_modify cfg)) (\<lambda>w.
          if r < w then fill_modify cfg symbol out s rng
          else fill_trade symbol out s rng)))"

definition fill_random ::
  "SimConfig \<Rightarrow> SymbolId \<Rightarrow> OrderId \<Rightarrow> GeneratedMessage \<Rightarrow> SymbolState \<Rightarrow> tape \<Rightarrow>
     (GeneratedMessage \<times> SymbolState \<times> OrderId \<times> tape) exec" where
  "fill_random cfg symbol next_id out s rng =
     ebind (draw 0 99 rng) (\<lambda>(r, rng).
     ebind (act cfg (int r) symbol out s rng) (\<lambda>result. case result of
         None \<Rightarrow> fill_add cfg symbol next_id out s rng
       | Some (out, s, rng) \<Rightarrow> Inr (out, s, next_id, rng)))"

text \<open>\<^verbatim>\<open>x && idx % x == 0\<close>.\<close>

definition due :: "u64 \<Rightarrow> u64 \<Rightarrow> bool" where
  "due interval i \<longleftrightarrow> interval \<noteq> 0 \<and> i mod interval = 0"

text \<open>The part of \<^verbatim>\<open>next\<close> that decides what the message is.\<close>

definition next_message ::
  "SimConfig \<Rightarrow> SymbolId \<Rightarrow> OrderId \<Rightarrow> u64 \<Rightarrow> GeneratedMessage \<Rightarrow> SymbolState \<Rightarrow> tape \<Rightarrow>
     (GeneratedMessage \<times> SymbolState \<times> OrderId \<times> tape) exec" where
  "next_message cfg symbol next_id idx out s rng =
     (if due (sc_heartbeat_interval cfg) idx
      then Inr (out\<lparr>gm_type := Heartbeat\<rparr>, s, next_id, rng)
      else if due (sc_snapshot_interval cfg) idx
      then ebind (make_snapshot symbol s) (\<lambda>snap.
           Inr (out\<lparr>gm_type := BookSnapshot, gm_snap := snap\<rparr>, s, next_id, rng))
      else fill_random cfg symbol next_id out s rng)"

definition sim_next :: "MarketSimulator \<Rightarrow> (GeneratedMessage option \<times> MarketSimulator) exec" where
  "sim_next m =
     (if sim_produced m \<ge> sc_num_messages (sim_cfg m) then Inr (None, m)
      else
        let out = GeneratedMessage_init\<lparr>gm_seq := sim_next_seq m, gm_ts := sim_ts m\<rparr>
        in ebind (draw 0 (unat (sc_num_symbols (sim_cfg m) - 1)) (sim_rng m)) (\<lambda>(i, rng).
           let symbol = of_nat i
           in ebind (rd (sim_symbols m) (unat symbol)) (\<lambda>s.
              ebind (next_message (sim_cfg m) symbol (sim_next_order_id m) (sim_produced m + 1) out s rng)
                (\<lambda>(out, s, next_id, rng).
              Inr (Some out,
                   m\<lparr>sim_next_seq := sim_next_seq m + 1, sim_ts := sim_ts m + sc_ts_step_ns (sim_cfg m),
                     sim_rng := rng, sim_symbols := (sim_symbols m)[unat symbol := s],
                     sim_produced := sim_produced m + 1, sim_next_order_id := next_id\<rparr>)))))"

text \<open>\<^verbatim>\<open>dispatch\<close>: the body its type selects.\<close>

definition gm_body :: "GeneratedMessage \<Rightarrow> Body" where
  "gm_body m = (case gm_type m of
       AddOrder \<Rightarrow> BodyAdd (gm_add m)
     | CancelOrder \<Rightarrow> BodyCancel (gm_cancel m)
     | ModifyOrder \<Rightarrow> BodyModify (gm_modify m)
     | Trade \<Rightarrow> BodyTrade (gm_trade m)
     | BookSnapshot \<Rightarrow> BodySnapshot (gm_snap m)
     | Heartbeat \<Rightarrow> BodyHeartbeat)"

definition sim_dispatch ::
  "(Sequence \<Rightarrow> TimestampNs \<Rightarrow> Body \<Rightarrow> 's \<Rightarrow> 's exec) \<Rightarrow> GeneratedMessage \<Rightarrow> 's \<Rightarrow> 's exec" where
  "sim_dispatch sink m = sink (gm_seq m) (gm_ts m) (gm_body m)"

lemma sim_next_progress:
  assumes "sim_next m = Inr (Some out, m')"
  shows "sim_cfg m' = sim_cfg m \<and> sim_produced m' = sim_produced m + 1 \<and>
    sim_produced m < sc_num_messages (sim_cfg m)"
  using assms
  by (auto simp: sim_next_def Let_def ebind_eq_Inr_iff split: if_splits prod.splits)

text \<open>\<^verbatim>\<open>run\<close>: the state of the sink and the number of messages.\<close>

function sim_run_loop ::
  "(Sequence \<Rightarrow> TimestampNs \<Rightarrow> Body \<Rightarrow> 's \<Rightarrow> 's exec) \<Rightarrow> MarketSimulator \<Rightarrow> u64 \<Rightarrow> 's \<Rightarrow>
     (MarketSimulator \<times> u64 \<times> 's) exec" where
  "sim_run_loop sink m n st =
     ebind (sim_next m) (\<lambda>(result, m'). case result of
         None \<Rightarrow> Inr (m', n, st)
       | Some out \<Rightarrow> ebind (sim_dispatch sink out st) (\<lambda>st. sim_run_loop sink m' (n + 1) st))"
  by pat_completeness auto
termination
proof (relation "measure (\<lambda>(sink, m, n, st). unat (sc_num_messages (sim_cfg m) - sim_produced m))")
  fix sink :: "Sequence \<Rightarrow> TimestampNs \<Rightarrow> Body \<Rightarrow> 's \<Rightarrow> 's exec" and m m' :: MarketSimulator
    and x result out n st st'
  assume "sim_next m = Inr x" "(result, m') = x" "result = Some out"
  then have next_m: "sim_next m = Inr (Some out, m')" by simp
  let ?left = "sc_num_messages (sim_cfg m) - sim_produced m"
  from sim_next_progress [OF next_m] have "0 < ?left"
    "sc_num_messages (sim_cfg m') - sim_produced m' = ?left - 1"
    by (auto simp: word_gt_0)
  then show "((sink, m', n + 1, st'), sink, m, n, st) \<in>
      measure (\<lambda>(sink, m, n, st). unat (sc_num_messages (sim_cfg m) - sim_produced m))"
    by (simp add: unat_minus_one word_gt_0 unat_gt_0)
qed simp

declare sim_run_loop.simps [simp del]

definition sim_run ::
  "(Sequence \<Rightarrow> TimestampNs \<Rightarrow> Body \<Rightarrow> 's \<Rightarrow> 's exec) \<Rightarrow> MarketSimulator \<Rightarrow> 's \<Rightarrow>
     (MarketSimulator \<times> u64 \<times> 's) exec" where
  "sim_run sink m st = sim_run_loop sink m 0 st"

end
