(* ===== verification/Simulator_Model.thy ===== *)
theory Simulator_Model
  imports Market_Simulator Order_Book_Refinement "HOL-Library.Multiset"
begin

text \<open>
  What the simulator's five containers per symbol mean. \<open>depth_of\<close> reads the aggregate depth off
  a list of live orders; \<open>depth_rep\<close> says that a depth map holds it, and \<open>symbol_rep\<close> that all the
  containers of a symbol describe one abstract book. The lemmas show that registering,
  unregistering and resizing an order keep this, which needs the totals not to wrap; and that the
  price chosen for an order never crosses.
\<close>

section \<open>Depth\<close>

definition depth_of :: "bool \<Rightarrow> book \<Rightarrow> Price \<Rightarrow> Quantity option" where
  "depth_of bid L p =
     (if ab_queue bid p L = [] then None else Some (sum_list (map bo_qty (ab_queue bid p L))))"

definition volume :: "book \<Rightarrow> nat" where
  "volume L = sum_list (map (\<lambda>ord. unat (bo_qty ord)) L)"

definition nonzero :: "book \<Rightarrow> bool" where
  "nonzero L \<longleftrightarrow> (\<forall>ord \<in> set L. bo_qty ord \<noteq> 0)"

definition depth_rep :: "bool \<Rightarrow> (Price, Quantity) omap \<Rightarrow> book \<Rightarrow> bool" where
  "depth_rep bid m L \<longleftrightarrow> ask_map.ordered m \<and> map_of m = depth_of bid L"

lemma depth_of_Nil [simp]: "depth_of bid [] = Map.empty"
  by (simp add: depth_of_def ab_queue_def fun_eq_iff)

lemma depth_of_Cons:
  "depth_of bid (ord # L) =
     (if is_bid ord = bid
      then (depth_of bid L)(bo_price ord \<mapsto> bo_qty ord +
             (case depth_of bid L (bo_price ord) of None \<Rightarrow> 0 | Some t \<Rightarrow> t))
      else depth_of bid L)"
  by (rule ext) (auto simp: depth_of_def ab_queue_def)

lemma depth_of_mset: "mset L = mset L' \<Longrightarrow> depth_of bid L = depth_of bid L'"
proof (rule ext)
  fix p assume "mset L = mset L'"
  then have eq: "mset (ab_queue bid p L) = mset (ab_queue bid p L')"
    by (simp only: ab_queue_def mset_filter)
  then have "ab_queue bid p L = [] \<longleftrightarrow> ab_queue bid p L' = []" by (metis mset_zero_iff)
  moreover have "sum_list (map bo_qty (ab_queue bid p L)) = sum_list (map bo_qty (ab_queue bid p L'))"
    using eq by (metis mset_map sum_mset_sum_list)
  ultimately show "depth_of bid L p = depth_of bid L' p" by (simp add: depth_of_def)
qed

lemma depth_rep_mset: "depth_rep bid m L \<Longrightarrow> mset L = mset L' \<Longrightarrow> depth_rep bid m L'"
  using depth_of_mset [of L L' bid] by (simp add: depth_rep_def)

lemma volume_simps [simp]: "volume [] = 0" "volume (ord # L) = unat (bo_qty ord) + volume L"
  by (simp_all add: volume_def)

lemma nonzero_simps [simp]: "nonzero []" "nonzero (ord # L) \<longleftrightarrow> bo_qty ord \<noteq> 0 \<and> nonzero L"
  by (auto simp: nonzero_def)

lemma depth_of_bounds:
  "nonzero L \<Longrightarrow> volume L < 2 ^ 32 \<Longrightarrow> depth_of bid L p = Some t \<Longrightarrow> t \<noteq> 0 \<and> unat t \<le> volume L"
proof (induction L arbitrary: p t)
  case (Cons ord L)
  have IH: "depth_of bid L p' = Some t' \<Longrightarrow> t' \<noteq> 0 \<and> unat t' \<le> volume L" for p' t'
    using Cons by simp
  show ?case
  proof (cases "is_bid ord = bid \<and> bo_price ord = p")
    case True
    let ?rest = "case depth_of bid L p of None \<Rightarrow> 0 | Some t \<Rightarrow> t"
    have "unat ?rest \<le> volume L" using IH [of p] by (auto split: option.split)
    with Cons.prems(2) have "unat (bo_qty ord + ?rest) = unat (bo_qty ord) + unat ?rest"
      by (subst unat_add_lem [symmetric]) (simp add: word_size)
    moreover have "t = bo_qty ord + ?rest" using True Cons.prems(3) by (simp add: depth_of_Cons)
    moreover have "0 < unat (bo_qty ord)" using Cons.prems(1) by (simp add: unat_gt_0)
    ultimately show ?thesis using \<open>unat ?rest \<le> volume L\<close> by (auto simp flip: unat_gt_0)
  next
    case False
    then have "depth_of bid (ord # L) p = depth_of bid L p" by (auto simp: depth_of_Cons)
    with Cons.prems(3) IH [of p t] show ?thesis by auto
  qed
qed simp

lemma depth_rep_plus:
  assumes "depth_rep bid m L" and "is_bid ord = bid"
  shows "depth_rep bid (depth_plus (bo_price ord) (bo_qty ord) m) (ord # L)"
proof -
  let ?p = "bo_price ord"
  let ?m = "fst (om_try_emplace ask_before ?p 0 m)"
  from assms(1) have m: "ask_map.ordered m" "map_of m = depth_of bid L" by (auto simp: depth_rep_def)
  from ask_map.try_emplace_ordered [OF m(1)] have o: "ask_map.ordered ?m" .
  from ask_map.try_emplace_eq [OF m(1), of ?p 0] have map_of:
    "map_of ?m = (case depth_of bid L ?p of None \<Rightarrow> (depth_of bid L)(?p \<mapsto> 0) | Some _ \<Rightarrow> depth_of bid L)"
    by (simp only: m(2))
  obtain v where v: "map_of ?m ?p = Some v" "v = (case depth_of bid L ?p of None \<Rightarrow> 0 | Some t \<Rightarrow> t)"
    using map_of by (cases "depth_of bid L ?p") auto
  have "om_find ask_before ?p ?m = Some v" using ask_map.find_eq [OF o] v(1) by simp
  then have "depth_plus ?p (bo_qty ord) m = om_assign ?p (v + bo_qty ord) ?m"
    by (simp add: depth_plus_def Let_def)
  moreover have "map_of (om_assign ?p (v + bo_qty ord) ?m) = depth_of bid (ord # L)"
    using assms(2) v map_of
    by (auto simp: map_of_om_assign [OF v(1)] depth_of_Cons add.commute fun_eq_iff split: option.splits)
  ultimately show ?thesis using o by (simp add: depth_rep_def ask_map.assign_ordered)
qed

lemma depth_rep_minus:
  assumes "depth_rep bid m (ord # L)" and "is_bid ord = bid" and "q \<le> bo_qty ord"
    and "nonzero (ord # L)" and "volume (ord # L) < 2 ^ 32"
  shows "depth_rep bid (depth_minus (bo_price ord) q m)
    (if q = bo_qty ord then L else ord\<lparr>bo_qty := bo_qty ord - q\<rparr> # L)"
proof -
  let ?p = "bo_price ord"
  let ?rest = "case depth_of bid L ?p of None \<Rightarrow> 0 | Some t \<Rightarrow> t"
  from assms(1) have m: "ask_map.ordered m" "map_of m = depth_of bid (ord # L)"
    by (auto simp: depth_rep_def)
  with assms(2) have total: "map_of m ?p = Some (bo_qty ord + ?rest)" by (simp add: depth_of_Cons)
  then have found: "om_find ask_before ?p m = Some (bo_qty ord + ?rest)"
    using ask_map.find_eq [OF m(1)] by simp
  have rest: "depth_of bid L ?p = Some t \<Longrightarrow> t \<noteq> 0 \<and> unat t \<le> volume L" for t
    using depth_of_bounds [of L bid ?p t] assms(4,5) by simp
  then have "unat ?rest \<le> volume L" by (auto split: option.split)
  with assms(5) have sum: "unat (bo_qty ord + ?rest) = unat (bo_qty ord) + unat ?rest"
    by (subst unat_add_lem [symmetric]) (simp add: word_size)
  have le: "bo_qty ord + ?rest \<le> q \<longleftrightarrow> q = bo_qty ord \<and> depth_of bid L ?p = None"
  proof -
    have "bo_qty ord + ?rest \<le> q \<longleftrightarrow> q = bo_qty ord \<and> ?rest = 0"
      using assms(3) sum by (auto simp: word_le_nat_alt word_unat_eq_iff)
    also have "?rest = 0 \<longleftrightarrow> depth_of bid L ?p = None" using rest by (auto split: option.split)
    finally show ?thesis .
  qed
  show ?thesis
  proof (cases "bo_qty ord + ?rest \<le> q")
    case True
    with le have "q = bo_qty ord" "depth_of bid L ?p = None" by auto
    with True found m assms(2) show ?thesis
      by (auto simp: depth_minus_def depth_rep_def ask_map.erase_ordered depth_of_Cons fun_eq_iff)
  next
    case False
    have "bo_qty ord + ?rest - q = (bo_qty ord - q) + ?rest" by (simp add: algebra_simps)
    with False found m assms(2) le show ?thesis
      by (auto simp: depth_minus_def depth_rep_def ask_map.assign_ordered map_of_om_assign [OF total]
          depth_of_Cons fun_eq_iff is_bid_def split: option.splits)
  qed
qed

text \<open>Both depth maps at once.\<close>

definition sides_rep :: "SymbolState \<Rightarrow> book \<Rightarrow> bool" where
  "sides_rep s L \<longleftrightarrow> depth_rep True (sy_bid_qty s) L \<and> depth_rep False (sy_ask_qty s) L"

lemma sides_rep_mset: "sides_rep s L \<Longrightarrow> mset L = mset L' \<Longrightarrow> sides_rep s L'"
  unfolding sides_rep_def by (blast intro: depth_rep_mset)

lemma depth_rep_other: "is_bid ord \<noteq> b \<Longrightarrow> depth_rep b m (ord # L) \<longleftrightarrow> depth_rep b m L"
  by (simp add: depth_rep_def depth_of_Cons)

lemma is_bid_resize [simp]: "is_bid (ord\<lparr>bo_qty := q\<rparr>) = is_bid ord"
  by (simp add: is_bid_def)

lemma add_depth_rep:
  assumes "sides_rep s L"
  shows "sides_rep (add_depth (bo_side ord) (bo_price ord) (bo_qty ord) s) (ord # L)"
  using assms depth_rep_plus [of True "sy_bid_qty s" L ord] depth_rep_plus [of False "sy_ask_qty s" L ord]
    depth_rep_other [of ord]
  by (auto simp: sides_rep_def add_depth_def is_bid_def)

lemma remove_depth_rep:
  assumes "sides_rep s (ord # L)" and "q \<le> bo_qty ord" and "nonzero (ord # L)"
    and "volume (ord # L) < 2 ^ 32"
  shows "sides_rep (remove_depth (bo_side ord) (bo_price ord) q s)
    (if q = bo_qty ord then L else ord\<lparr>bo_qty := bo_qty ord - q\<rparr> # L)"
  using assms depth_rep_minus [of True "sy_bid_qty s" ord L q] depth_rep_minus [of False "sy_ask_qty s" ord L q]
    depth_rep_other [of ord True] depth_rep_other [of ord False]
    depth_rep_other [of "ord\<lparr>bo_qty := bo_qty ord - q\<rparr>"]
  by (auto simp: sides_rep_def remove_depth_def is_bid_def)

lemma depth_fields [simp]:
  "sy_orders (add_depth side p q s) = sy_orders s" "sy_index (add_depth side p q s) = sy_index s"
  "sy_live_ids (add_depth side p q s) = sy_live_ids s" "sy_ref_mid (add_depth side p q s) = sy_ref_mid s"
  "sy_orders (remove_depth side p q s) = sy_orders s" "sy_index (remove_depth side p q s) = sy_index s"
  "sy_live_ids (remove_depth side p q s) = sy_live_ids s"
  "sy_ref_mid (remove_depth side p q s) = sy_ref_mid s"
  by (simp_all add: add_depth_def remove_depth_def)

lemma sides_rep_cong:
  "sy_bid_qty s' = sy_bid_qty s \<Longrightarrow> sy_ask_qty s' = sy_ask_qty s \<Longrightarrow> sides_rep s' L = sides_rep s L"
  by (simp add: sides_rep_def)

section \<open>The containers of a symbol\<close>

definition live_of :: "BookOrder \<Rightarrow> LiveOrder" where
  "live_of ord = \<lparr>lo_side = bo_side ord, lo_price = bo_price ord, lo_qty = bo_qty ord\<rparr>"

definition ids_rep :: "OrderId list \<Rightarrow> (OrderId, nat) umap \<Rightarrow> bool" where
  "ids_rep ids index \<longleftrightarrow> distinct ids \<and>
     (\<forall>oid slot. map_of index oid = Some slot \<longleftrightarrow> slot < length ids \<and> ids ! slot = oid)"

definition symbol_rep :: "SymbolState \<Rightarrow> book \<Rightarrow> bool" where
  "symbol_rep s L \<longleftrightarrow>
     map_of (sy_orders s) = (\<lambda>oid. map_option live_of (ab_lookup oid L)) \<and>
     ids_rep (sy_live_ids s) (sy_index s) \<and> set (sy_live_ids s) = bo_id ` set L \<and>
     sides_rep s L"

lemma map_of_um_put [simp]: "map_of (um_put k v m) = (map_of m)(k \<mapsto> v)"
  by (auto simp: um_put_def map_of_om_assign split: option.split)

lemma symbol_rep_init [simp]: "symbol_rep (SymbolState_init mid) []"
  by (simp add: symbol_rep_def SymbolState_init_def ids_rep_def sides_rep_def depth_rep_def
      ab_lookup_def)

lemma ids_rep_snoc:
  assumes "ids_rep ids index" and "oid \<notin> set ids"
  shows "ids_rep (ids @ [oid]) (um_emplace oid (length ids) index)"
proof -
  have "map_of index oid = None"
    using assms by (auto simp: ids_rep_def) (metis not_None_eq nth_mem)
  with assms show ?thesis
    by (auto simp: ids_rep_def map_of_um_emplace nth_append less_Suc_eq in_set_conv_nth)
qed

lemma ids_rep_swap_remove:
  assumes "ids_rep ids index" and "slot < length ids" and "ids ! slot = oid"
  shows "ids_rep (butlast (ids[slot := last ids])) (um_erase oid (um_put (last ids) slot index))"
    and "set (butlast (ids[slot := last ids])) = set ids - {oid}"
proof -
  from assms(2) obtain ws z where ids: "ids = ws @ [z]" by (cases ids rule: rev_cases) auto
  from assms(1) ids have dist: "distinct ws" "z \<notin> set ws"
    and index: "map_of index x = Some i \<longleftrightarrow> i < Suc (length ws) \<and> (ws @ [z]) ! i = x" for x i
    by (auto simp: ids_rep_def)
  have "ids_rep (butlast (ids[slot := last ids])) (um_erase oid (um_put (last ids) slot index)) \<and>
    set (butlast (ids[slot := last ids])) = set ids - {oid}"
  proof (cases "slot < length ws")
    case True
    then have oid: "oid = ws ! slot" "oid \<noteq> z" using assms(3) ids dist by (auto simp: nth_append)
    have new: "butlast (ids[slot := last ids]) = ws[slot := z]"
      using True ids by (simp add: list_update_append butlast_append)
    have "set (ws[slot := z]) = insert z (set ws - {oid})"
      using True dist(1) oid(1) by (simp add: set_update_distinct)
    moreover have "distinct (ws[slot := z])" using dist by (simp add: distinct_list_update)
    moreover have "((map_of index)(z \<mapsto> slot, oid := None)) x = Some i \<longleftrightarrow>
        i < length ws \<and> ws[slot := z] ! i = x" for x i
      using True oid dist index [of x i]
      by (auto simp: nth_append nth_list_update less_Suc_eq nth_eq_iff_index_eq split: if_splits)
    ultimately show ?thesis
      using new ids oid by (auto simp: ids_rep_def)
  next
    case False
    with assms(2,3) ids have "slot = length ws" "oid = z" by (auto simp: nth_append)
    with dist index show ?thesis
      by (auto simp: ids ids_rep_def nth_append less_Suc_eq butlast_append split: if_splits)
  qed
  then show "ids_rep (butlast (ids[slot := last ids])) (um_erase oid (um_put (last ids) slot index))"
    and "set (butlast (ids[slot := last ids])) = set ids - {oid}" by blast+
qed

lemma lookup_snoc: "ab_lookup x (L @ [ord]) =
    (case ab_lookup x L of None \<Rightarrow> if bo_id ord = x then Some ord else None | Some o' \<Rightarrow> Some o')"
  by (induction L) (auto simp: ab_lookup_def)

lemma register_rep:
  assumes "symbol_rep s L" and "ab_lookup (bo_id ord) L = None"
  shows "symbol_rep (register_order (bo_id ord) (bo_side ord) (bo_price ord) (bo_qty ord) s) (L @ [ord])"
proof -
  from assms(1) have rep: "map_of (sy_orders s) = (\<lambda>oid. map_option live_of (ab_lookup oid L))"
    "ids_rep (sy_live_ids s) (sy_index s)" "set (sy_live_ids s) = bo_id ` set L" "sides_rep s L"
    by (auto simp: symbol_rep_def)
  let ?s = "register_order (bo_id ord) (bo_side ord) (bo_price ord) (bo_qty ord) s"
  from assms(2) rep(3) have fresh: "bo_id ord \<notin> set (sy_live_ids s)" by (simp add: ab_lookup_None)
  have "map_of (sy_orders ?s) = (\<lambda>oid. map_option live_of (ab_lookup oid (L @ [ord])))"
    using assms(2) rep(1)
    by (auto simp: register_order_def Let_def live_of_def map_of_um_emplace lookup_snoc fun_eq_iff
        split: option.split)
  moreover have "sides_rep ?s (L @ [ord])"
    unfolding register_order_def Let_def
    by (rule sides_rep_mset [OF add_depth_rep [where L = L]]) (use rep(4) in \<open>simp_all add: sides_rep_def\<close>)
  ultimately show ?thesis
    using ids_rep_snoc [OF rep(2) fresh] rep(3) by (auto simp: symbol_rep_def register_order_def Let_def)
qed

text \<open>A live order, in the list and in the containers.\<close>

lemma symbol_rep_at:
  assumes "symbol_rep s (xs @ ord # ys)" and "ab_ok (xs @ ord # ys)"
  shows "map_of (sy_orders s) (bo_id ord) = Some (live_of ord)"
    and "\<exists>slot. map_of (sy_index s) (bo_id ord) = Some slot"
    and "sides_rep s (ord # xs @ ys)" and "nonzero (ord # xs @ ys)"
    and "bo_id ord \<notin> bo_id ` set (xs @ ys)"
    and "volume (ord # xs @ ys) = volume (xs @ ord # ys)"
proof -
  show nid: "bo_id ord \<notin> bo_id ` set (xs @ ys)" using assms(2) by (auto simp: ab_ok_def)
  show "map_of (sy_orders s) (bo_id ord) = Some (live_of ord)"
    using assms(1) ab_at(1) [OF nid] by (simp add: symbol_rep_def)
  have "bo_id ord \<in> set (sy_live_ids s)" using assms(1) by (simp add: symbol_rep_def)
  then show "\<exists>slot. map_of (sy_index s) (bo_id ord) = Some slot"
    using assms(1) by (auto simp: symbol_rep_def ids_rep_def in_set_conv_nth)
  show "sides_rep s (ord # xs @ ys)"
    by (rule sides_rep_mset [of s "xs @ ord # ys"]) (use assms(1) in \<open>simp_all add: symbol_rep_def\<close>)
  show "nonzero (ord # xs @ ys)" using assms(2) by (auto simp: ab_ok_def nonzero_def)
  show "volume (ord # xs @ ys) = volume (xs @ ord # ys)" by (simp add: volume_def)
qed

lemma lookup_at:
  assumes "bo_id ord \<notin> bo_id ` set (xs @ ys)"
  shows "ab_lookup x (xs @ ord # ys) = (if x = bo_id ord then Some ord else ab_lookup x (xs @ ys))"
  using assms by (induction xs) (auto simp: ab_lookup_def)

lemma unregister_rep:
  assumes "symbol_rep s (xs @ ord # ys)" and "ab_ok (xs @ ord # ys)"
    and "volume (xs @ ord # ys) < 2 ^ 32"
  shows "\<exists>s'. unregister_order (bo_id ord) s = Inr s' \<and> symbol_rep s' (xs @ ys) \<and>
    sy_ref_mid s' = sy_ref_mid s"
proof -
  note at = symbol_rep_at [OF assms(1,2)]
  let ?ids = "sy_live_ids s" and ?oid = "bo_id ord"
  let ?r = "remove_depth (bo_side ord) (bo_price ord) (bo_qty ord) s"
  from assms(1) have rep: "map_of (sy_orders s) = (\<lambda>oid. map_option live_of (ab_lookup oid (xs @ ord # ys)))"
    "ids_rep ?ids (sy_index s)" "set ?ids = bo_id ` set (xs @ ord # ys)"
    by (auto simp: symbol_rep_def)
  from at(2) obtain slot where slot: "map_of (sy_index s) ?oid = Some slot" by blast
  with rep(2) have ids: "slot < length ?ids" "?ids ! slot = ?oid" by (auto simp: ids_rep_def)
  let ?s = "?r\<lparr>sy_live_ids := butlast (?ids[slot := last ?ids]),
    sy_index := um_erase ?oid (um_put (last ?ids) slot (sy_index s)),
    sy_orders := um_erase ?oid (sy_orders s)\<rparr>"
  have "unregister_order ?oid s = Inr ?s"
    using at(1) slot ids
    by (auto simp: unregister_order_def live_of_def Let_def um_emplace_def)
  moreover have "sides_rep ?s (xs @ ys)"
    using remove_depth_rep [OF at(3) order_refl at(4)] assms(3) at(6) by (simp add: sides_rep_def)
  then have "symbol_rep ?s (xs @ ys)"
    using ids_rep_swap_remove [OF rep(2) ids] rep at(5)
    by (auto simp: symbol_rep_def lookup_at [OF at(5)] fun_eq_iff ab_lookup_None)
  ultimately show ?thesis by auto
qed

text \<open>The representation does not depend on the time priority.\<close>

lemma lookup_iff: "distinct (map bo_id L) \<Longrightarrow> ab_lookup x L = Some ord \<longleftrightarrow> ord \<in> set L \<and> bo_id ord = x"
  by (induction L) (auto simp: ab_lookup_def image_iff)

lemma lookup_mset: "mset L = mset L' \<Longrightarrow> distinct (map bo_id L) \<Longrightarrow> ab_lookup x L = ab_lookup x L'"
proof -
  assume perm: "mset L = mset L'" and "distinct (map bo_id L)"
  moreover from perm have "mset (map bo_id L) = mset (map bo_id L')" by simp
  ultimately have "distinct (map bo_id L')" by (metis mset_eq_imp_distinct_iff)
  with \<open>distinct (map bo_id L)\<close> mset_eq_setD [OF perm]
  show ?thesis by (metis lookup_iff not_Some_eq)
qed

lemma symbol_rep_mset:
  "symbol_rep s L \<Longrightarrow> mset L = mset L' \<Longrightarrow> distinct (map bo_id L) \<Longrightarrow> symbol_rep s L'"
  using lookup_mset [of L L'] mset_eq_setD [of L L'] sides_rep_mset [of s L L']
  by (simp add: symbol_rep_def)

text \<open>Writing through the reference to a live order, when the depth is already that of the result.\<close>

lemma symbol_rep_write:
  assumes "symbol_rep s (xs @ ord # ys)" and "bo_id ord \<notin> bo_id ` set (xs @ ys)"
    and "bo_id ord' = bo_id ord" and "sides_rep s' (xs @ ord' # ys)"
    and "sy_orders s' = um_assign (bo_id ord) (live_of ord') (sy_orders s)"
    and "sy_index s' = sy_index s" and "sy_live_ids s' = sy_live_ids s"
  shows "symbol_rep s' (xs @ ord' # ys)"
proof -
  from assms(1) have "map_of (sy_orders s) = (\<lambda>x. map_option live_of (ab_lookup x (xs @ ord # ys)))"
    by (simp add: symbol_rep_def)
  then have "map_of (sy_orders s') = (\<lambda>x. map_option live_of (ab_lookup x (xs @ ord' # ys)))"
    using assms(2,3,5) by (auto simp: map_of_om_assign_at lookup_at fun_eq_iff)
  with assms show ?thesis by (simp add: symbol_rep_def)
qed

end
