(* ===== verification/Simulator_Prices.thy ===== *)
theory Simulator_Prices
  imports Simulator_Model
begin

text \<open>
  The price the simulator chooses: between the depth of a book that is not crossed and whose
  prices stay under a bound, it neither overflows nor crosses, and it exceeds the bound by at
  most one band.
\<close>

definition tick_int :: "SimConfig \<Rightarrow> int" where
  "tick_int cfg = sint (sc_tick cfg)"

text \<open>How far above every price of the book the next one can be.\<close>

definition band_span :: "SimConfig \<Rightarrow> int" where
  "band_span cfg = (int (unat (sc_band_levels cfg - 1)) + 1) * tick_int cfg"

definition prices_ok :: "int \<Rightarrow> int \<Rightarrow> book \<Rightarrow> bool" where
  "prices_ok t B L \<longleftrightarrow> \<not> ab_crossed L \<and>
     (\<forall>ord \<in> set L. (bo_side ord = Buy \<or> bo_side ord = Sell) \<and> sint (bo_price ord) \<le> B \<and>
        (if is_bid ord then t else 2 * t) \<le> sint (bo_price ord))"

section \<open>Best prices\<close>

lemma depth_keys: "depth_rep bid m L \<Longrightarrow> fst ` set m = bo_price ` {ord \<in> set L. is_bid ord = bid}"
proof -
  assume "depth_rep bid m L"
  then have "fst ` set m = dom (depth_of bid L)"
    by (simp add: depth_rep_def dom_map_of_conv_image_fst flip: dom_map_of_conv_image_fst)
  also have "\<dots> = bo_price ` {ord \<in> set L. is_bid ord = bid}"
    by (auto simp: depth_of_def ab_queue_def filter_empty_conv split: if_splits)
  finally show ?thesis .
qed

lemma no_depth_iff: "depth_rep bid m L \<Longrightarrow> m = [] \<longleftrightarrow> (\<forall>ord \<in> set L. is_bid ord \<noteq> bid)"
  using depth_keys [of bid m L] by (cases m) auto

lemma lowest_ask:
  assumes "depth_rep bid ((p, q) # m) L"
  shows "\<exists>ord \<in> set L. is_bid ord = bid \<and> bo_price ord = p"
    and "\<And>ord. ord \<in> set L \<Longrightarrow> is_bid ord = bid \<Longrightarrow> sint p \<le> sint (bo_price ord)"
proof -
  note keys = depth_keys [OF assms]
  have "p \<in> fst ` set ((p, q) # m)" by simp
  with keys show "\<exists>ord \<in> set L. is_bid ord = bid \<and> bo_price ord = p" by auto
  fix ord assume "ord \<in> set L" "is_bid ord = bid"
  with keys have "bo_price ord \<in> insert p (fst ` set m)" by auto
  moreover from assms have "\<forall>k \<in> fst ` set m. ask_before p k"
    by (simp add: depth_rep_def ask_map.ordered_Cons)
  ultimately show "sint p \<le> sint (bo_price ord)" by (auto simp: ask_before_def)
qed

lemma highest_bid:
  assumes "depth_rep bid m L" and "m \<noteq> []"
  shows "\<exists>ord \<in> set L. is_bid ord = bid \<and> bo_price ord = fst (last m)"
    and "\<And>ord. ord \<in> set L \<Longrightarrow> is_bid ord = bid \<Longrightarrow> sint (bo_price ord) \<le> sint (fst (last m))"
proof -
  note keys = depth_keys [OF assms(1)]
  have "fst (last m) \<in> fst ` set m" using assms(2) by simp
  with keys show "\<exists>ord \<in> set L. is_bid ord = bid \<and> bo_price ord = fst (last m)" by auto
  fix ord assume "ord \<in> set L" "is_bid ord = bid"
  with keys have "bo_price ord \<in> fst ` set (butlast m @ [last m])" using assms(2) by auto
  moreover have "sorted_wrt ask_before (map fst (butlast m @ [last m]))"
    using assms by (simp add: depth_rep_def ask_map.ordered_def)
  ultimately show "sint (bo_price ord) \<le> sint (fst (last m))"
    by (auto simp: sorted_wrt_append ask_before_def)
qed

section \<open>Arithmetic that fits\<close>

lemma i64_exec_fits: "- (2 ^ 63) \<le> d \<Longrightarrow> d < 2 ^ 63 \<Longrightarrow> \<exists>w. i64_exec d = Inr w \<and> sint w = d"
  by (simp add: i64_exec_def signed_of_int signed_take_bit_int_eq_self)

lemma price_add_fits:
  "- (2 ^ 63) \<le> sint p + sint q \<Longrightarrow> sint p + sint q < 2 ^ 63 \<Longrightarrow>
     \<exists>w. price_add p q = Inr w \<and> sint w = sint p + sint q"
  unfolding price_add_def by (rule i64_exec_fits)

lemma price_sub_fits:
  "- (2 ^ 63) \<le> sint p - sint q \<Longrightarrow> sint p - sint q < 2 ^ 63 \<Longrightarrow>
     \<exists>w. price_sub p q = Inr w \<and> sint w = sint p - sint q"
  unfolding price_sub_def by (rule i64_exec_fits)

lemma draw_fits: "lo \<le> hi \<Longrightarrow> \<exists>n rng'. draw lo hi rng = Inr (n, rng') \<and> lo \<le> n \<and> n \<le> hi"
proof -
  assume "lo \<le> hi"
  moreover have "shd rng mod Suc (hi - lo) < Suc (hi - lo)" by simp
  then have "lo + shd rng mod Suc (hi - lo) \<le> hi" using \<open>lo \<le> hi\<close> by linarith
  ultimately show ?thesis by (simp add: draw_def)
qed

lemma random_offset_fits:
  assumes "0 \<le> tick_int cfg" and "band_span cfg < 2 ^ 63"
  shows "\<exists>d rng'. random_offset cfg rng = Inr (d, rng') \<and> 0 \<le> sint d \<and>
    sint d + tick_int cfg \<le> band_span cfg"
proof -
  let ?D = "unat (sc_band_levels cfg - 1)"
  obtain off rng' where off: "draw 0 ?D rng = Inr (off, rng')" "off \<le> ?D"
    using draw_fits [of 0 ?D rng] by auto
  have "off < 2 ^ 32" using off(2) unat_u32_less [of "sc_band_levels cfg - 1"] by linarith
  then have sint_off: "sint (of_nat off :: Price) = int off"
    by (simp add: signed_of_nat signed_take_bit_int_eq_self)
  have le: "int off * tick_int cfg \<le> int ?D * tick_int cfg"
    using off(2) assms(1) by (intro mult_right_mono) (simp_all only: of_nat_le_iff)
  have span: "int ?D * tick_int cfg + tick_int cfg = band_span cfg"
    by (simp add: band_span_def algebra_simps)
  have "0 \<le> int off * tick_int cfg" using assms(1) by simp
  moreover have "int off * tick_int cfg < 2 ^ 63" using le span assms by linarith
  ultimately obtain d where "price_mul (of_nat off) (sc_tick cfg) = Inr d" "sint d = int off * tick_int cfg"
    using i64_exec_fits [of "int off * tick_int cfg"]
    by (auto simp: price_mul_def sint_off tick_int_def)
  with off(1) le span \<open>0 \<le> int off * tick_int cfg\<close> show ?thesis
    by (auto simp: random_offset_def)
qed

section \<open>The choice\<close>

text \<open>Placing an order between the sides keeps the book in order, under the larger bound.\<close>

lemma prices_ok_snoc:
  assumes "prices_ok t B L" and "B \<le> B'" and "sint (bo_price ord) \<le> B'"
    and "bo_side ord = Buy \<or> bo_side ord = Sell"
    and "(if is_bid ord then t else 2 * t) \<le> sint (bo_price ord)"
    and "\<And>x. x \<in> set L \<Longrightarrow> is_bid ord \<Longrightarrow> \<not> is_bid x \<Longrightarrow> sint (bo_price ord) < sint (bo_price x)"
    and "\<And>x. x \<in> set L \<Longrightarrow> \<not> is_bid ord \<Longrightarrow> is_bid x \<Longrightarrow> sint (bo_price x) < sint (bo_price ord)"
  shows "prices_ok t B' (L @ [ord])"
  using assms by (fastforce simp: prices_ok_def ab_crossed_def not_le)

lemma prices_ok_subset:
  "prices_ok t B L \<Longrightarrow> set L' \<subseteq> set L \<Longrightarrow> B \<le> B' \<Longrightarrow> prices_ok t B' L'"
  unfolding prices_ok_def ab_crossed_def by (meson order_trans subsetD)

lemma prices_ok_resize:
  "prices_ok t B (xs @ ord # ys) \<Longrightarrow> prices_ok t B (xs @ ord\<lparr>bo_qty := q\<rparr> # ys)"
  by (simp add: prices_ok_def ab_crossed_def ball_Un bex_Un)

lemma choose_bid_ok:
  assumes "sides_rep s L" and "prices_ok (tick_int cfg) B L" and "1 \<le> tick_int cfg"
    and "tick_int cfg \<le> sint (sy_ref_mid s)" and "sint (sy_ref_mid s) \<le> B"
    and "B + band_span cfg < 2 ^ 63"
  shows "\<exists>p rng'. choose_bid cfg s rng = Inr (p, rng') \<and> sint p \<le> B \<and> tick_int cfg \<le> sint p \<and>
    (\<forall>ord \<in> set L. \<not> is_bid ord \<longrightarrow> sint p < sint (bo_price ord))"
proof -
  let ?t = "tick_int cfg"
  from assms(1) have bids: "depth_rep True (sy_bid_qty s) L" and asks: "depth_rep False (sy_ask_qty s) L"
    by (auto simp: sides_rep_def)
  from assms(2) have bounds: "\<And>ord. ord \<in> set L \<Longrightarrow> sint (bo_price ord) \<le> B"
    "\<And>ord. ord \<in> set L \<Longrightarrow> (if is_bid ord then ?t else 2 * ?t) \<le> sint (bo_price ord)"
    by (auto simp: prices_ok_def)
  have "0 \<le> band_span cfg" using assms(3) by (simp add: band_span_def)
  have "?t \<le> band_span cfg" using assms(3) by (simp add: band_span_def algebra_simps)
  let ?ceil = "case sy_ask_qty s of [] \<Rightarrow> price_sub (sy_ref_mid s) (sc_tick cfg)
    | (ask, _) # _ \<Rightarrow> price_sub ask (sc_tick cfg)"
  obtain ceil where ceil: "?ceil = Inr ceil" "0 \<le> sint ceil" "sint ceil \<le> B"
    "\<And>ord. ord \<in> set L \<Longrightarrow> \<not> is_bid ord \<Longrightarrow> sint ceil + ?t \<le> sint (bo_price ord)"
  proof (cases "sy_ask_qty s")
    case Nil
    with no_depth_iff [OF asks] price_sub_fits [of "sy_ref_mid s" "sc_tick cfg"] assms(3-6)
      \<open>0 \<le> band_span cfg\<close> that show thesis
      by (auto simp: tick_int_def)
  next
    case (Cons e m)
    obtain ask q where e: "e = (ask, q)" by fastforce
    note low = lowest_ask [OF asks [unfolded Cons e]]
    from low(1) bounds have "2 * ?t \<le> sint ask" "sint ask \<le> B" by fastforce+
    with price_sub_fits [of ask "sc_tick cfg"] assms(3,6) \<open>0 \<le> band_span cfg\<close> obtain ceil where
      "price_sub ask (sc_tick cfg) = Inr ceil" "sint ceil = sint ask - ?t"
      by (auto simp: tick_int_def)
    with Cons e low(2) \<open>2 * ?t \<le> sint ask\<close> \<open>sint ask \<le> B\<close> assms(3) that [of ceil] show thesis
      by fastforce
  qed
  let ?anchor = "if sy_bid_qty s = [] then Inr ceil
    else ebind (price_add (fst (last (sy_bid_qty s))) (sc_tick cfg)) (\<lambda>p. Inr (price_min p ceil))"
  obtain anchor where anchor: "?anchor = Inr anchor" "0 \<le> sint anchor" "sint anchor \<le> sint ceil"
  proof (cases "sy_bid_qty s = []")
    case True
    with ceil that show thesis by simp
  next
    case False
    from highest_bid(1) [OF bids False] bounds
    have "?t \<le> sint (fst (last (sy_bid_qty s)))" "sint (fst (last (sy_bid_qty s))) \<le> B" by fastforce+
    with price_add_fits [of "fst (last (sy_bid_qty s))" "sc_tick cfg"] assms(3,6) \<open>?t \<le> band_span cfg\<close>
    obtain p where "price_add (fst (last (sy_bid_qty s))) (sc_tick cfg) = Inr p" "0 \<le> sint p"
      by (auto simp: tick_int_def)
    with False ceil(2) that show thesis by (simp add: price_min_def split: if_splits)
  qed
  have "band_span cfg < 2 ^ 63" using assms(3-6) by linarith
  with random_offset_fits [of cfg rng] assms(3) obtain d rng' where d:
    "random_offset cfg rng = Inr (d, rng')" "0 \<le> sint d" "sint d \<le> band_span cfg" by auto
  with price_sub_fits [of anchor d] anchor ceil(3) assms(6) \<open>0 \<le> band_span cfg\<close> obtain p where
    p: "price_sub anchor d = Inr p" "sint p = sint anchor - sint d" by auto
  have "choose_bid cfg s rng = Inr (price_max p (sc_tick cfg), rng')"
    by (simp only: choose_bid_def ceil(1) ebind.simps anchor(1) d(1) prod.case p(1))
  moreover have "?t \<le> sint (price_max p (sc_tick cfg))" "sint (price_max p (sc_tick cfg)) \<le> B"
    using p(2) d(2) anchor(3) ceil(3) assms(4,5) by (auto simp: price_max_def tick_int_def)
  moreover have "sint (price_max p (sc_tick cfg)) < sint (bo_price ord)"
    if "ord \<in> set L" "\<not> is_bid ord" for ord
    using that ceil(4) [OF that] bounds(2) [OF that(1)] p(2) d(2) anchor(3) assms(3)
    by (auto simp: price_max_def tick_int_def)
  ultimately show ?thesis by blast
qed

lemma choose_ask_ok:
  assumes "sides_rep s L" and "prices_ok (tick_int cfg) B L" and "1 \<le> tick_int cfg"
    and "tick_int cfg \<le> sint (sy_ref_mid s)" and "sint (sy_ref_mid s) \<le> B"
    and "B + band_span cfg < 2 ^ 63"
  shows "\<exists>p rng'. choose_ask cfg s rng = Inr (p, rng') \<and> sint p \<le> B + band_span cfg \<and>
    2 * tick_int cfg \<le> sint p \<and> (\<forall>ord \<in> set L. is_bid ord \<longrightarrow> sint (bo_price ord) < sint p)"
proof -
  let ?t = "tick_int cfg"
  from assms(1) have bids: "depth_rep True (sy_bid_qty s) L" and asks: "depth_rep False (sy_ask_qty s) L"
    by (auto simp: sides_rep_def)
  from assms(2) have bounds: "\<And>ord. ord \<in> set L \<Longrightarrow> sint (bo_price ord) \<le> B"
    "\<And>ord. ord \<in> set L \<Longrightarrow> (if is_bid ord then ?t else 2 * ?t) \<le> sint (bo_price ord)"
    by (auto simp: prices_ok_def)
  have "?t \<le> band_span cfg" using assms(3) by (simp add: band_span_def algebra_simps)
  let ?floor = "if sy_bid_qty s = [] then price_add (sy_ref_mid s) (sc_tick cfg)
    else price_add (fst (last (sy_bid_qty s))) (sc_tick cfg)"
  obtain floor where floor: "?floor = Inr floor" "2 * ?t \<le> sint floor" "sint floor \<le> B + ?t"
    "\<And>ord. ord \<in> set L \<Longrightarrow> is_bid ord \<Longrightarrow> sint (bo_price ord) < sint floor"
  proof (cases "sy_bid_qty s = []")
    case True
    with no_depth_iff [OF bids] price_add_fits [of "sy_ref_mid s" "sc_tick cfg"] assms(3-6)
      \<open>?t \<le> band_span cfg\<close> that show thesis
      by (auto simp: tick_int_def)
  next
    case False
    note high = highest_bid [OF bids False]
    from high(1) bounds have
      "?t \<le> sint (fst (last (sy_bid_qty s)))" "sint (fst (last (sy_bid_qty s))) \<le> B" by fastforce+
    with price_add_fits [of "fst (last (sy_bid_qty s))" "sc_tick cfg"] assms(3,6) \<open>?t \<le> band_span cfg\<close>
    obtain floor where "price_add (fst (last (sy_bid_qty s))) (sc_tick cfg) = Inr floor"
      "sint floor = sint (fst (last (sy_bid_qty s))) + ?t"
      by (auto simp: tick_int_def)
    with False high(2) \<open>?t \<le> sint (fst (last (sy_bid_qty s)))\<close>
      \<open>sint (fst (last (sy_bid_qty s))) \<le> B\<close> assms(3) that [of floor] show thesis
      by fastforce
  qed
  let ?anchor = "case sy_ask_qty s of [] \<Rightarrow> Inr floor
    | (ask, _) # _ \<Rightarrow> ebind (price_sub ask (sc_tick cfg)) (\<lambda>p. Inr (price_max p floor))"
  obtain anchor where anchor: "?anchor = Inr anchor" "sint floor \<le> sint anchor" "sint anchor \<le> B + ?t"
  proof (cases "sy_ask_qty s")
    case Nil
    with floor that show thesis by simp
  next
    case (Cons e m)
    obtain ask q where e: "e = (ask, q)" by fastforce
    from lowest_ask(1) [OF asks [unfolded Cons e]] bounds
    have "2 * ?t \<le> sint ask" "sint ask \<le> B" by fastforce+
    with price_sub_fits [of ask "sc_tick cfg"] assms(3,6) \<open>?t \<le> band_span cfg\<close> obtain p where
      "price_sub ask (sc_tick cfg) = Inr p" "sint p = sint ask - ?t"
      by (auto simp: tick_int_def)
    with Cons e floor(3) \<open>sint ask \<le> B\<close> assms(3) that [of "price_max p floor"] show thesis
      by (auto simp: price_max_def)
  qed
  have "band_span cfg < 2 ^ 63" using assms(3-6) by linarith
  with random_offset_fits [of cfg rng] assms(3) obtain d rng' where d:
    "random_offset cfg rng = Inr (d, rng')" "0 \<le> sint d" "sint d + ?t \<le> band_span cfg" by auto
  with price_add_fits [of anchor d] anchor floor(2) assms(3,6) obtain p where
    p: "price_add anchor d = Inr p" "sint p = sint anchor + sint d" by auto
  have "choose_ask cfg s rng = Inr (p, rng')"
    by (simp only: choose_ask_def floor(1) ebind.simps anchor(1) d(1) prod.case p(1))
  with p(2) d(2,3) anchor(2,3) floor(2,4) show ?thesis by fastforce
qed

lemma choose_price_ok:
  assumes "sides_rep s L" and "prices_ok (tick_int cfg) B L" and "1 \<le> tick_int cfg"
    and "tick_int cfg \<le> sint (sy_ref_mid s)" and "sint (sy_ref_mid s) \<le> B"
    and "B + band_span cfg < 2 ^ 63" and "side = Buy \<or> side = Sell"
  shows "\<exists>p rng'. choose_price cfg side s rng = Inr (p, rng') \<and>
    (\<forall>oid q. prices_ok (tick_int cfg) (B + band_span cfg)
       (L @ [\<lparr>bo_id = oid, bo_side = side, bo_price = p, bo_qty = q\<rparr>]))"
proof -
  have span: "0 \<le> band_span cfg" using assms(3) by (simp add: band_span_def)
  show ?thesis
  proof (cases "side = Buy")
    case True
    from choose_bid_ok [OF assms(1-6), of rng] obtain p rng' where p:
      "choose_bid cfg s rng = Inr (p, rng')" "sint p \<le> B" "tick_int cfg \<le> sint p"
      "\<forall>ord \<in> set L. \<not> is_bid ord \<longrightarrow> sint p < sint (bo_price ord)" by blast
    with True span show ?thesis
      by (intro exI [of _ p] exI [of _ rng'] conjI allI prices_ok_snoc [OF assms(2)])
        (auto simp: choose_price_def is_bid_def)
  next
    case False
    from choose_ask_ok [OF assms(1-6), of rng] obtain p rng' where p:
      "choose_ask cfg s rng = Inr (p, rng')" "sint p \<le> B + band_span cfg" "2 * tick_int cfg \<le> sint p"
      "\<forall>ord \<in> set L. is_bid ord \<longrightarrow> sint (bo_price ord) < sint p" by blast
    with False assms(7) span show ?thesis
      by (intro exI [of _ p] exI [of _ rng'] conjI allI prices_ok_snoc [OF assms(2)])
        (auto simp: choose_price_def is_bid_def)
  qed
qed

end
