(* ===== verification/Simulator_Feed.thy ===== *)
theory Simulator_Feed
  imports Simulator_Prices Feed_To_Books
begin

text \<open>
  The feed the simulator generates, as events of the abstract books. One lemma per filler shows
  that its message is applicable to the book of its symbol and that simulator and book stay in
  step; they combine into the invariant of \<open>sim_next\<close> and the run. \<open>config_ok\<close> states what the
  configuration must satisfy: a positive tick, start prices of at least one tick, quantities of
  at least one, and room in the price and quantity types for the number of messages asked for.
\<close>

section \<open>One symbol\<close>

definition symbol_ok :: "SimConfig \<Rightarrow> int \<Rightarrow> nat \<Rightarrow> SymbolState \<Rightarrow> book \<Rightarrow> bool" where
  "symbol_ok cfg B n s L \<longleftrightarrow> symbol_rep s L \<and> ab_ok L \<and> prices_ok (tick_int cfg) B L \<and>
     tick_int cfg \<le> sint (sy_ref_mid s) \<and> sint (sy_ref_mid s) \<le> B \<and>
     (\<forall>ord \<in> set L. bo_qty ord \<le> sc_max_qty cfg) \<and> length L \<le> n"

definition room :: "SimConfig \<Rightarrow> int \<Rightarrow> nat \<Rightarrow> bool" where
  "room cfg B n \<longleftrightarrow> 1 \<le> tick_int cfg \<and> B + band_span cfg < 2 ^ 63 \<and>
     0 < sc_min_qty cfg \<and> sc_min_qty cfg \<le> sc_max_qty cfg \<and> n * unat (sc_max_qty cfg) < 2 ^ 32"

lemma room_count: "room cfg B n \<Longrightarrow> n < 2 ^ 32"
  by (cases "unat (sc_max_qty cfg)") (auto simp: room_def word_less_nat_alt word_le_nat_alt)

lemma room_span: "room cfg B n \<Longrightarrow> 0 \<le> band_span cfg"
  by (simp add: room_def band_span_def)

lemma volume_le: "\<forall>ord \<in> set L. bo_qty ord \<le> mx \<Longrightarrow> volume L \<le> length L * unat mx"
  by (induction L) (auto simp: word_le_nat_alt)

lemma symbol_ok_volume: "symbol_ok cfg B n s L \<Longrightarrow> room cfg B n \<Longrightarrow> volume L < 2 ^ 32"
proof -
  assume "symbol_ok cfg B n s L" "room cfg B n"
  then have "volume L \<le> length L * unat (sc_max_qty cfg)" "length L \<le> n"
    "n * unat (sc_max_qty cfg) < 2 ^ 32" by (auto simp: symbol_ok_def room_def volume_le)
  then show ?thesis by (meson le_less_trans mult_le_mono1)
qed

lemma symbol_ok_mono: "symbol_ok cfg B n s L \<Longrightarrow> B \<le> B' \<Longrightarrow> n \<le> n' \<Longrightarrow> symbol_ok cfg B' n' s L"
  unfolding symbol_ok_def by (meson order_trans prices_ok_subset subset_refl)

lemma length_live_ids: "symbol_rep s L \<Longrightarrow> ab_ok L \<Longrightarrow> length (sy_live_ids s) = length L"
  by (metis ab_ok_def distinct_card ids_rep_def length_map set_map symbol_rep_def)

lemma random_live_ok:
  assumes "symbol_ok cfg B n s L" and "room cfg B n" and "sy_live_ids s \<noteq> []"
  shows "\<exists>xs ord ys rng'. random_live s rng = Inr (bo_id ord, rng') \<and> L = xs @ ord # ys"
proof -
  let ?ids = "sy_live_ids s"
  from assms(1) have rep: "symbol_rep s L" "ab_ok L" "length L \<le> n" by (auto simp: symbol_ok_def)
  with room_count [OF assms(2)] length_live_ids [OF rep(1,2)] rep(3) assms(3) have len: "length ?ids < 2 ^ 32" "0 < length ?ids"
    by auto
  then have "unat (of_nat (length ?ids) :: u64) = length ?ids"
    by (simp add: unsigned_of_nat take_bit_nat_eq_self)
  with len have last: "unat (of_nat (length ?ids) - 1 :: u64) = length ?ids - 1"
    by (metis One_nat_def gr0_conv_Suc not_less_zero unat_minus_one unsigned_0)
  obtain i rng' where i: "draw 0 (length ?ids - 1) rng = Inr (i, rng')" "i \<le> length ?ids - 1"
    using draw_fits [of 0 "length ?ids - 1" rng] by auto
  with len have "i < length ?ids" by linarith
  then have "?ids ! i \<in> bo_id ` set L" using rep(1) by (metis nth_mem symbol_rep_def)
  then obtain ord where ord: "ord \<in> set L" "?ids ! i = bo_id ord" by auto
  then obtain xs ys where "L = xs @ ord # ys" by (meson split_list)
  with i(1) \<open>i < length ?ids\<close> ord(2) show ?thesis by (auto simp: random_live_def last)
qed

lemma random_qty_ok:
  assumes "room cfg B n"
  shows "\<exists>q rng'. random_qty cfg rng = Inr (q, rng') \<and> q \<noteq> 0 \<and> q \<le> sc_max_qty cfg"
proof -
  from assms have mm: "0 < unat (sc_min_qty cfg)" "unat (sc_min_qty cfg) \<le> unat (sc_max_qty cfg)"
    by (auto simp: room_def word_less_nat_alt word_le_nat_alt)
  from draw_fits [OF mm(2), of rng] obtain k rng' where k:
    "draw (unat (sc_min_qty cfg)) (unat (sc_max_qty cfg)) rng = Inr (k, rng')"
    "unat (sc_min_qty cfg) \<le> k" "k \<le> unat (sc_max_qty cfg)" by blast
  have "k < 2 ^ 32" using k(3) unat_u32_less [of "sc_max_qty cfg"] by linarith
  then have "unat (of_nat k :: Quantity) = k" by (simp add: unsigned_of_nat take_bit_nat_eq_self)
  with k mm(1) show ?thesis
    by (intro exI [of _ "of_nat k"] exI [of _ rng'])
      (auto simp: random_qty_def word_le_nat_alt word_unat_eq_iff)
qed

section \<open>The fillers\<close>

text \<open>The book of a symbol; a symbol nothing was sent for has the empty one.\<close>

definition book_at :: "books \<Rightarrow> SymbolId \<Rightarrow> book" where
  "book_at F symbol = (case F symbol of None \<Rightarrow> [] | Some L \<Rightarrow> L)"

lemma ab_on_at: "ab_on symbol aop F = (let (ok, L) = aop (book_at F symbol) in (ok, F(symbol \<mapsto> L)))"
  by (simp add: ab_on_def book_at_def)

text \<open>
  \<open>applicable\<close>: the message carries the sequence number and time it was started with, and turns
  the book \<open>L\<close> of its symbol into \<open>L'\<close> without being refused.
\<close>

definition applicable :: "SymbolId \<Rightarrow> GeneratedMessage \<Rightarrow> book \<Rightarrow> GeneratedMessage \<Rightarrow> book \<Rightarrow> bool" where
  "applicable symbol out L out' L' \<longleftrightarrow> gm_seq out' = gm_seq out \<and> gm_ts out' = gm_ts out \<and>
     body_ok (gm_body out') \<and> body_symbol (gm_body out') = Some symbol \<and>
     (\<forall>F. book_at F symbol = L \<longrightarrow> ab_body (gm_body out') F = (True, F(symbol \<mapsto> L')))"

lemma fill_add_ok:
  assumes "symbol_ok cfg B n s L" and "room cfg B n" and "ab_lookup next_id L = None"
  shows "\<exists>out' s' rng' L'. fill_add cfg symbol next_id out s rng = Inr (out', s', next_id + 1, rng') \<and>
    applicable symbol out L out' L' \<and> symbol_ok cfg (B + band_span cfg) (Suc n) s' L' \<and>
    bo_id ` set L' \<subseteq> insert next_id (bo_id ` set L)"
proof -
  from assms(1) have rep: "symbol_rep s L" "ab_ok L" "prices_ok (tick_int cfg) B L"
    "tick_int cfg \<le> sint (sy_ref_mid s)" "sint (sy_ref_mid s) \<le> B"
    "\<forall>ord \<in> set L. bo_qty ord \<le> sc_max_qty cfg" "length L \<le> n"
    by (auto simp: symbol_ok_def)
  from assms(2) have cfg: "1 \<le> tick_int cfg" "B + band_span cfg < 2 ^ 63" by (auto simp: room_def)
  obtain r rng1 where r: "draw 0 1 rng = Inr (r, rng1)" using draw_fits [of 0 1 rng] by auto
  let ?side = "if r = 0 then Buy else Sell"
  have side: "?side = Buy \<or> ?side = Sell" by simp
  from rep(1) have "sides_rep s L" by (simp add: symbol_rep_def)
  from choose_price_ok [OF this rep(3) cfg(1) rep(4,5) cfg(2) side] obtain p rng2 where p:
    "choose_price cfg ?side s rng1 = Inr (p, rng2)"
    "\<And>oid q. prices_ok (tick_int cfg) (B + band_span cfg)
       (L @ [\<lparr>bo_id = oid, bo_side = ?side, bo_price = p, bo_qty = q\<rparr>])" by blast
  obtain q rng3 where q: "random_qty cfg rng2 = Inr (q, rng3)" "q \<noteq> 0" "q \<le> sc_max_qty cfg"
    using random_qty_ok [OF assms(2)] by blast
  let ?ord = "\<lparr>bo_id = next_id, bo_side = ?side, bo_price = p, bo_qty = q\<rparr>"
  let ?s = "register_order next_id ?side p q s"
  let ?out = "out\<lparr>gm_type := AddOrder, gm_add := \<lparr>ao_symbol = symbol, ao_order_id = next_id,
    ao_side = ?side, ao_price = p, ao_quantity = q\<rparr>\<rparr>"
  have run: "fill_add cfg symbol next_id out s rng = Inr (?out, ?s, next_id + 1, rng3)"
    by (simp only: fill_add_def r ebind.simps prod.case Let_def p(1) q(1))
  have mid: "sy_ref_mid ?s = sy_ref_mid s" by (simp add: register_order_def Let_def)
  have "ab_ok (L @ [?ord])"
    using rep(2) assms(3) q(2) by (auto simp: ab_ok_def ab_lookup_None)
  moreover have "symbol_rep ?s (L @ [?ord])" using register_rep [of s L ?ord] rep(1) assms(3) by simp
  ultimately have "symbol_ok cfg (B + band_span cfg) (Suc n) ?s (L @ [?ord])"
    using p(2) rep(4-7) q(3) mid room_span [OF assms(2)] by (auto simp: symbol_ok_def)
  moreover have "applicable symbol out L ?out (L @ [?ord])"
    using assms(3) q(2)
    by (auto simp: applicable_def gm_body_def book_at_def ab_on_def ab_add_def)
  ultimately show ?thesis using run by fastforce
qed

text \<open>What the three fillers that act on a live order achieve.\<close>

definition acts ::
  "SimConfig \<Rightarrow> int \<Rightarrow> nat \<Rightarrow> SymbolId \<Rightarrow> GeneratedMessage \<Rightarrow> book \<Rightarrow>
     (GeneratedMessage \<times> SymbolState \<times> tape) option exec \<Rightarrow> bool" where
  "acts cfg B n symbol out L result \<longleftrightarrow> (\<exists>out' s' rng' L'. result = Inr (Some (out', s', rng')) \<and>
     applicable symbol out L out' L' \<and> symbol_ok cfg (B + band_span cfg) (Suc n) s' L' \<and>
     bo_id ` set L' \<subseteq> bo_id ` set L)"

lemma symbol_ok_without:
  assumes "symbol_ok cfg B n s (xs @ ord # ys)" and "room cfg B n"
  shows "ab_ok (xs @ ys)" and "prices_ok (tick_int cfg) B (xs @ ys)"
    and "\<forall>ord \<in> set (xs @ ys). bo_qty ord \<le> sc_max_qty cfg" and "length (xs @ ys) < n"
  using assms prices_ok_subset [of "tick_int cfg" B "xs @ ord # ys" "xs @ ys" B]
  by (auto simp: symbol_ok_def ab_ok_def)

lemma cancelled_ok:
  assumes "symbol_ok cfg B n s (xs @ ord # ys)" and "room cfg B n"
    and "symbol_rep s' (xs @ ys)" and "sy_ref_mid s' = sy_ref_mid s"
  shows "symbol_ok cfg (B + band_span cfg) (Suc n) s' (xs @ ys)"
  using symbol_ok_without [OF assms(1,2)] assms room_span [OF assms(2)]
    prices_ok_subset [of "tick_int cfg" B "xs @ ys" "xs @ ys" "B + band_span cfg"]
  by (auto simp: symbol_ok_def)

lemma fill_cancel_ok:
  assumes "symbol_ok cfg B n s L" and "room cfg B n" and "sy_live_ids s \<noteq> []"
  shows "acts cfg B n symbol out L (fill_cancel symbol out s rng)"
proof -
  obtain xs ord ys rng' where live: "random_live s rng = Inr (bo_id ord, rng')" "L = xs @ ord # ys"
    using random_live_ok [OF assms] by blast
  note ok = assms(1) [unfolded live(2)]
  from ok have rep: "symbol_rep s (xs @ ord # ys)" "ab_ok (xs @ ord # ys)" by (auto simp: symbol_ok_def)
  from unregister_rep [OF rep symbol_ok_volume [OF ok assms(2)]] obtain s' where
    s': "unregister_order (bo_id ord) s = Inr s'" "symbol_rep s' (xs @ ys)" "sy_ref_mid s' = sy_ref_mid s"
    by blast
  let ?out = "out\<lparr>gm_type := CancelOrder, gm_cancel := \<lparr>co_symbol = symbol, co_order_id = bo_id ord\<rparr>\<rparr>"
  have "fill_cancel symbol out s rng = Inr (Some (?out, s', rng'))"
    using assms(3) by (simp add: fill_cancel_def live(1) s'(1))
  moreover have "applicable symbol out L ?out (xs @ ys)"
    using ab_at [OF symbol_rep_at(5) [OF rep]]
    by (auto simp: applicable_def gm_body_def book_at_def ab_on_def ab_cancel_def live(2) Let_def)
  moreover have "bo_id ` set (xs @ ys) \<subseteq> bo_id ` set L" using live(2) by auto
  ultimately show ?thesis
    using cancelled_ok [OF ok assms(2) s'(2,3)] unfolding acts_def by blast
qed

lemma fill_modify_ok:
  assumes "symbol_ok cfg B n s L" and "room cfg B n" and "sy_live_ids s \<noteq> []"
  shows "acts cfg B n symbol out L (fill_modify cfg symbol out s rng)"
proof -
  obtain xs ord ys rng1 where live: "random_live s rng = Inr (bo_id ord, rng1)" "L = xs @ ord # ys"
    using random_live_ok [OF assms] by blast
  note ok = assms(1) [unfolded live(2)]
  from ok have rep: "symbol_rep s (xs @ ord # ys)" "ab_ok (xs @ ord # ys)"
    and mid: "tick_int cfg \<le> sint (sy_ref_mid s)" "sint (sy_ref_mid s) \<le> B"
    and side: "bo_side ord = Buy \<or> bo_side ord = Sell" by (auto simp: symbol_ok_def prices_ok_def)
  note at = symbol_rep_at [OF rep] and rest = symbol_ok_without [OF ok assms(2)]
  from assms(2) have cfg: "1 \<le> tick_int cfg" "B + band_span cfg < 2 ^ 63" by (auto simp: room_def)
  let ?r = "remove_depth (bo_side ord) (bo_price ord) (bo_qty ord) s"
  have "sides_rep ?r (xs @ ys)"
    using remove_depth_rep [OF at(3) order_refl at(4)] symbol_ok_volume [OF ok assms(2)] at(6) by simp
  from choose_price_ok [OF this rest(2) cfg(1) _ _ cfg(2) side, of rng1] mid obtain p rng2 where p:
    "choose_price cfg (bo_side ord) ?r rng1 = Inr (p, rng2)"
    "\<And>oid q. prices_ok (tick_int cfg) (B + band_span cfg)
       ((xs @ ys) @ [\<lparr>bo_id = oid, bo_side = bo_side ord, bo_price = p, bo_qty = q\<rparr>])" by auto
  obtain q rng3 where q: "random_qty cfg rng2 = Inr (q, rng3)" "q \<noteq> 0" "q \<le> sc_max_qty cfg"
    using random_qty_ok [OF assms(2)] by blast
  let ?new = "ord\<lparr>bo_price := p, bo_qty := q\<rparr>"
  let ?s = "add_depth (bo_side ord) p q (?r\<lparr>sy_orders := um_assign (bo_id ord)
    ((live_of ord)\<lparr>lo_price := p, lo_qty := q\<rparr>) (sy_orders s)\<rparr>)"
  let ?out = "out\<lparr>gm_type := ModifyOrder, gm_modify := \<lparr>mo_symbol = symbol, mo_order_id = bo_id ord,
    mo_new_price = p, mo_new_quantity = q\<rparr>\<rparr>"
  have run: "fill_modify cfg symbol out s rng = Inr (Some (?out, ?s, rng3))"
    using assms(3) at(1) p(1) q(1) by (simp add: fill_modify_def live_at_def live(1) live_of_def)
  obtain L' where modify: "ab_modify (bo_id ord) p q L = (True, L')" "mset L' = mset ((xs @ ys) @ [?new])"
    using ab_at [OF at(5)] q(2) live(2) by (cases "p = bo_price ord \<and> q \<le> bo_qty ord") (auto simp: ab_modify_def)
  have fresh: "distinct (map bo_id (xs @ ?new # ys))" using rep(2) by (simp add: ab_ok_def)
  have "symbol_rep ?s (xs @ ?new # ys)"
  proof (rule symbol_rep_write [OF rep(1) at(5)])
    have "sides_rep ?s (?new # xs @ ys)"
      using add_depth_rep [of "?r\<lparr>sy_orders := um_assign (bo_id ord)
        ((live_of ord)\<lparr>lo_price := p, lo_qty := q\<rparr>) (sy_orders s)\<rparr>" "xs @ ys" ?new] \<open>sides_rep ?r (xs @ ys)\<close>
      by (simp add: sides_rep_def)
    then show "sides_rep ?s (xs @ ?new # ys)" by (rule sides_rep_mset) simp
  qed (simp_all add: live_of_def)
  then have "symbol_rep ?s L'"
    by (rule symbol_rep_mset) (use modify(2) fresh in simp_all)
  moreover have "ab_ok L'"
    using rep(2) q(2) mset_eq_setD [OF modify(2)]
      mset_eq_imp_distinct_iff [of "map bo_id L'" "map bo_id ((xs @ ys) @ [?new])"] modify(2)
    by (auto simp: ab_ok_def)
  moreover have "prices_ok (tick_int cfg) (B + band_span cfg) L'"
  proof (rule prices_ok_subset)
    have "?new = \<lparr>bo_id = bo_id ord, bo_side = bo_side ord, bo_price = p, bo_qty = q\<rparr>" by simp
    with p(2) show "prices_ok (tick_int cfg) (B + band_span cfg) ((xs @ ys) @ [?new])" by metis
  qed (use mset_eq_setD [OF modify(2)] in auto)
  moreover have "length L' = Suc (length (xs @ ys))" using modify(2) by (metis length_append_singleton mset_eq_length)
  ultimately have "symbol_ok cfg (B + band_span cfg) (Suc n) ?s L'"
    using rest(3,4) mid q(3) room_span [OF assms(2)] mset_eq_setD [OF modify(2)]
    by (auto simp: symbol_ok_def)
  moreover have "applicable symbol out L ?out L'"
    using modify(1) by (auto simp: applicable_def gm_body_def ab_on_at)
  moreover have "bo_id ` set L' \<subseteq> bo_id ` set L" using mset_eq_setD [OF modify(2)] live(2) by auto
  ultimately show ?thesis using run unfolding acts_def by blast
qed

lemma fill_trade_ok:
  assumes "symbol_ok cfg B n s L" and "room cfg B n" and "sy_live_ids s \<noteq> []"
  shows "acts cfg B n symbol out L (fill_trade symbol out s rng)"
proof -
  obtain xs ord ys rng1 where live: "random_live s rng = Inr (bo_id ord, rng1)" "L = xs @ ord # ys"
    using random_live_ok [OF assms] by blast
  note ok = assms(1) [unfolded live(2)]
  from ok have rep: "symbol_rep s (xs @ ord # ys)" "ab_ok (xs @ ord # ys)"
    and prices: "prices_ok (tick_int cfg) B (xs @ ord # ys)"
    and mid: "tick_int cfg \<le> sint (sy_ref_mid s)" "sint (sy_ref_mid s) \<le> B"
    by (auto simp: symbol_ok_def)
  note at = symbol_rep_at [OF rep] and rest = symbol_ok_without [OF ok assms(2)]
  have vol: "volume (xs @ ord # ys) < 2 ^ 32" using symbol_ok_volume [OF ok assms(2)] .
  have "1 \<le> unat (bo_qty ord)" using at(4) by (simp add: unat_gt_0 flip: One_nat_def) (metis One_nat_def Suc_leI unat_gt_0)
  from draw_fits [OF this, of rng1] obtain k rng2 where k:
    "draw 1 (unat (bo_qty ord)) rng1 = Inr (k, rng2)" "1 \<le> k" "k \<le> unat (bo_qty ord)" by blast
  define fill :: Quantity where "fill = of_nat k"
  have "k < 2 ^ 32" using k(3) unat_u32_less [of "bo_qty ord"] by linarith
  then have unat_fill: "unat fill = k" by (simp add: fill_def unsigned_of_nat take_bit_nat_eq_self)
  with k have fill: "fill \<le> bo_qty ord" "fill \<noteq> 0" by (auto simp: word_le_nat_alt)
  let ?out = "out\<lparr>gm_type := Trade, gm_trade := \<lparr>tr_symbol = symbol, tr_resting_order_id = bo_id ord,
    tr_price = bo_price ord, tr_quantity = fill, tr_aggressor_side = opposite (bo_side ord)\<rparr>\<rparr>"
  show ?thesis
  proof (cases "fill = bo_qty ord")
    case True
    from unregister_rep [OF rep vol] obtain s' where
      s': "unregister_order (bo_id ord) s = Inr s'" "symbol_rep s' (xs @ ys)" "sy_ref_mid s' = sy_ref_mid s"
      by blast
    have "fill_trade symbol out s rng = Inr (Some (?out, s', rng2))"
      using assms(3) at(1) k(1) s'(1) True
      by (simp add: fill_trade_def live_at_def live(1) live_of_def fill_def)
    moreover have "applicable symbol out L ?out (xs @ ys)"
      using ab_at [OF at(5)] True
      by (auto simp: applicable_def gm_body_def ab_on_at ab_execute_def live(2))
    moreover have "bo_id ` set (xs @ ys) \<subseteq> bo_id ` set L" using live(2) by auto
    ultimately show ?thesis
      using cancelled_ok [OF ok assms(2) s'(2,3)] unfolding acts_def by blast
  next
    case False
    let ?new = "ord\<lparr>bo_qty := bo_qty ord - fill\<rparr>" and ?L' = "xs @ ord\<lparr>bo_qty := bo_qty ord - fill\<rparr> # ys"
    let ?s = "(remove_depth (bo_side ord) (bo_price ord) fill s)
      \<lparr>sy_orders := um_assign (bo_id ord) ((live_of ord)\<lparr>lo_qty := bo_qty ord - fill\<rparr>) (sy_orders s)\<rparr>"
    have less: "\<not> bo_qty ord \<le> fill" using fill(1) False by simp
    have run: "fill_trade symbol out s rng = Inr (Some (?out, ?s, rng2))"
      using assms(3) at(1) k(1) less
      by (simp add: fill_trade_def live_at_def live(1) live_of_def fill_def Let_def)
    have "bo_qty ord - fill \<noteq> 0" using False by simp
    have "bo_qty ord - fill \<le> bo_qty ord" using fill(1) by (simp add: word_le_nat_alt unat_sub)
    have "symbol_rep ?s ?L'"
    proof (rule symbol_rep_write [OF rep(1) at(5)])
      have "sides_rep ?s (?new # xs @ ys)"
        using remove_depth_rep [OF at(3) fill(1) at(4)] vol at(6) False by (simp add: sides_rep_def)
      then show "sides_rep ?s ?L'" by (rule sides_rep_mset) simp
    qed (simp_all add: live_of_def)
    moreover have "ab_ok ?L'" using rep(2) \<open>bo_qty ord - fill \<noteq> 0\<close> by (auto simp: ab_ok_def)
    moreover have "prices_ok (tick_int cfg) (B + band_span cfg) ?L'"
      using prices_ok_resize [OF prices, of "bo_qty ord - fill"] room_span [OF assms(2)]
        prices_ok_subset [of "tick_int cfg" B ?L' ?L' "B + band_span cfg"] by simp
    ultimately have "symbol_ok cfg (B + band_span cfg) (Suc n) ?s ?L'"
      using ok mid room_span [OF assms(2)] \<open>bo_qty ord - fill \<le> bo_qty ord\<close>
      by (auto simp: symbol_ok_def)
    moreover have "applicable symbol out L ?out ?L'"
      using ab_at [OF at(5)] less
      by (auto simp: applicable_def gm_body_def ab_on_at ab_execute_def live(2))
    moreover have "bo_id ` set ?L' \<subseteq> bo_id ` set L" using live(2) by auto
    ultimately show ?thesis using run unfolding acts_def by blast
  qed
qed

section \<open>One message\<close>

definition weights_fit :: "SimConfig \<Rightarrow> bool" where
  "weights_fit cfg \<longleftrightarrow> (let w = sc_w_add cfg + sc_w_cancel cfg; w' = w + sc_w_modify cfg
     in - (2 ^ 31) \<le> w \<and> w < 2 ^ 31 \<and> - (2 ^ 31) \<le> w' \<and> w' < 2 ^ 31)"

lemma act_ok:
  assumes "symbol_ok cfg B n s L" and "room cfg B n" and "weights_fit cfg"
  shows "act cfg r symbol out s rng = Inr None \<or> acts cfg B n symbol out L (act cfg r symbol out s rng)"
proof (cases "sy_live_ids s = []")
  case True
  with assms(3) show ?thesis
    by (simp add: act_def int_add_def weights_fit_def Let_def fill_cancel_def fill_modify_def fill_trade_def)
next
  case False
  note fillers = fill_cancel_ok [OF assms(1,2) False] fill_modify_ok [OF assms(1,2) False]
    fill_trade_ok [OF assms(1,2) False]
  from assms(3) show ?thesis
    by (simp add: act_def int_add_def weights_fit_def Let_def fillers)
qed

lemma fill_random_ok:
  assumes "symbol_ok cfg B n s L" and "room cfg B n" and "weights_fit cfg" and "ab_lookup next_id L = None"
  shows "\<exists>out' s' next' rng' L'. fill_random cfg symbol next_id out s rng = Inr (out', s', next', rng') \<and>
    applicable symbol out L out' L' \<and> symbol_ok cfg (B + band_span cfg) (Suc n) s' L' \<and>
    (next' = next_id \<and> bo_id ` set L' \<subseteq> bo_id ` set L \<or>
     next' = next_id + 1 \<and> bo_id ` set L' \<subseteq> insert next_id (bo_id ` set L))"
proof -
  obtain r rng1 where r: "draw 0 99 rng = Inr (r, rng1)" using draw_fits [of 0 99 rng] by auto
  from act_ok [OF assms(1-3), of "int r" symbol out rng1] show ?thesis
  proof
    assume none: "act cfg (int r) symbol out s rng1 = Inr None"
    have "fill_random cfg symbol next_id out s rng = fill_add cfg symbol next_id out s rng1"
      by (simp only: fill_random_def r none ebind.simps prod.case option.case)
    with fill_add_ok [OF assms(1,2,4), of symbol out rng1] show ?thesis by fastforce
  next
    assume "acts cfg B n symbol out L (act cfg (int r) symbol out s rng1)"
    then obtain out' s' rng' L' where acted:
      "act cfg (int r) symbol out s rng1 = Inr (Some (out', s', rng'))"
      "applicable symbol out L out' L'" "symbol_ok cfg (B + band_span cfg) (Suc n) s' L'"
      "bo_id ` set L' \<subseteq> bo_id ` set L" unfolding acts_def by blast
    have "fill_random cfg symbol next_id out s rng = Inr (out', s', next_id, rng')"
      by (simp only: fill_random_def r acted(1) ebind.simps prod.case option.case)
    with acted(2-4) show ?thesis by blast
  qed
qed

lemma snap_levels_ok:
  "length arr = kMaxSnapshotLevels \<Longrightarrow>
     \<exists>arr' j. snap_levels m i arr = Inr (arr', j) \<and> length arr' = kMaxSnapshotLevels"
  by (induction m i arr rule: snap_levels.induct) auto

lemma make_snapshot_ok: "\<exists>snap. make_snapshot symbol s = Inr snap \<and> snapshot_ok snap"
proof -
  have zero: "length zero_levels = kMaxSnapshotLevels" by (simp add: zero_levels_def)
  from snap_levels_ok [OF zero, of "rev (sy_bid_qty s)" 0] snap_levels_ok [OF zero, of "sy_ask_qty s" 0]
  obtain bids nb asks na where "snap_levels (rev (sy_bid_qty s)) 0 zero_levels = Inr (bids, nb)"
    "length bids = kMaxSnapshotLevels" "snap_levels (sy_ask_qty s) 0 zero_levels = Inr (asks, na)"
    "length asks = kMaxSnapshotLevels" by blast
  then show ?thesis by (simp add: make_snapshot_def snapshot_ok_def)
qed

section \<open>The invariant of the simulator\<close>

definition last_mid :: "SimConfig \<Rightarrow> int" where
  "last_mid cfg = sint (sc_start_price cfg) +
     (int (unat (sc_num_symbols cfg)) - 1) * sint (sc_symbol_price_step cfg)"

definition price_bound :: "SimConfig \<Rightarrow> nat \<Rightarrow> int" where
  "price_bound cfg n = max (sint (sc_start_price cfg)) (last_mid cfg) + int n * band_span cfg"

definition config_ok :: "SimConfig \<Rightarrow> bool" where
  "config_ok cfg \<longleftrightarrow> 0 < sc_num_symbols cfg \<and> 1 \<le> tick_int cfg \<and>
     tick_int cfg \<le> sint (sc_start_price cfg) \<and> tick_int cfg \<le> last_mid cfg \<and>
     price_bound cfg (unat (sc_num_messages cfg)) < 2 ^ 63 \<and>
     0 < sc_min_qty cfg \<and> sc_min_qty cfg \<le> sc_max_qty cfg \<and>
     unat (sc_num_messages cfg) * unat (sc_max_qty cfg) < 2 ^ 32 \<and> weights_fit cfg"

lemma price_bound_Suc: "price_bound cfg (Suc n) = price_bound cfg n + band_span cfg"
  by (simp add: price_bound_def algebra_simps)

lemma config_room:
  assumes "config_ok cfg" and "n < unat (sc_num_messages cfg)"
  shows "room cfg (price_bound cfg n) n"
proof -
  have "0 \<le> band_span cfg" using assms(1) by (simp add: config_ok_def band_span_def)
  with assms(2) have "int (Suc n) * band_span cfg \<le> int (unat (sc_num_messages cfg)) * band_span cfg"
    by (intro mult_right_mono) (simp_all only: of_nat_le_iff Suc_le_eq)
  then have "price_bound cfg (Suc n) \<le> price_bound cfg (unat (sc_num_messages cfg))"
    unfolding price_bound_def by linarith
  moreover have "n * unat (sc_max_qty cfg) < 2 ^ 32"
    by (rule le_less_trans [OF mult_le_mono1 [of n "unat (sc_num_messages cfg)"]])
      (use assms in \<open>auto simp: config_ok_def\<close>)
  ultimately show ?thesis using assms(1) by (simp add: config_ok_def room_def price_bound_Suc)
qed

definition sim_ok :: "SimConfig \<Rightarrow> nat \<Rightarrow> MarketSimulator \<Rightarrow> books \<Rightarrow> bool" where
  "sim_ok cfg n m F \<longleftrightarrow> sim_cfg m = cfg \<and> n \<le> unat (sc_num_messages cfg) \<and>
     sim_produced m = of_nat n \<and> sim_next_seq m = 1 + of_nat n \<and>
     sim_ts m = sc_ts_start cfg + of_nat n * sc_ts_step_ns cfg \<and>
     length (sim_symbols m) = unat (sc_num_symbols cfg) \<and>
     (\<forall>i < unat (sc_num_symbols cfg).
        symbol_ok cfg (price_bound cfg n) n (sim_symbols m ! i) (book_at F (of_nat i))) \<and>
     (\<forall>symbol \<in> dom F. symbol < sc_num_symbols cfg) \<and>
     unat (sim_next_order_id m) \<le> Suc n \<and>
     (\<forall>symbol. \<forall>ord \<in> set (book_at F symbol). bo_id ord < sim_next_order_id m)"

lemma applicable_quiet:
  "gm_type out' = Heartbeat \<or> gm_type out' = BookSnapshot \<and> snapshot_ok (gm_snap out') \<Longrightarrow>
     body_ok (gm_body out') \<and> ab_body (gm_body out') F = (True, F) \<and> \<not> crossing (gm_body out') F"
  by (auto simp: gm_body_def crossing_def)

lemma next_message_ok:
  assumes "symbol_ok cfg B n s (book_at F symbol)" and "room cfg B n" and "weights_fit cfg"
    and "ab_lookup next_id (book_at F symbol) = None"
  shows "\<exists>out' s' next' rng' F'. next_message cfg symbol next_id idx out s rng = Inr (out', s', next', rng') \<and>
    gm_seq out' = gm_seq out \<and> gm_ts out' = gm_ts out \<and> body_ok (gm_body out') \<and>
    ab_body (gm_body out') F = (True, F') \<and> \<not> crossing (gm_body out') F' \<and>
    symbol_ok cfg (B + band_span cfg) (Suc n) s' (book_at F' symbol) \<and>
    (\<forall>s''. s'' \<noteq> symbol \<longrightarrow> F' s'' = F s'') \<and>
    (next' = next_id \<and> bo_id ` set (book_at F' symbol) \<subseteq> bo_id ` set (book_at F symbol) \<or>
     next' = next_id + 1 \<and>
       bo_id ` set (book_at F' symbol) \<subseteq> insert next_id (bo_id ` set (book_at F symbol)))"
proof -
  have grown: "symbol_ok cfg (B + band_span cfg) (Suc n) s (book_at F symbol)"
    by (rule symbol_ok_mono [OF assms(1)]) (use room_span [OF assms(2)] in simp_all)
  consider (heartbeat) "due (sc_heartbeat_interval cfg) idx"
    | (snapshot) "\<not> due (sc_heartbeat_interval cfg) idx" "due (sc_snapshot_interval cfg) idx"
    | (order) "\<not> due (sc_heartbeat_interval cfg) idx" "\<not> due (sc_snapshot_interval cfg) idx" by blast
  then show ?thesis
  proof cases
    case heartbeat
    with grown applicable_quiet [of "out\<lparr>gm_type := Heartbeat\<rparr>" F] show ?thesis
      by (simp add: next_message_def)
  next
    case snapshot
    obtain snap where snap: "make_snapshot symbol s = Inr snap" "snapshot_ok snap"
      using make_snapshot_ok by blast
    with snapshot grown applicable_quiet [of "out\<lparr>gm_type := BookSnapshot, gm_snap := snap\<rparr>" F]
    show ?thesis by (simp add: next_message_def)
  next
    case order
    from fill_random_ok [OF assms, of symbol out rng] obtain out' s' next' rng' L' where filled:
      "fill_random cfg symbol next_id out s rng = Inr (out', s', next', rng')"
      "applicable symbol out (book_at F symbol) out' L'"
      "symbol_ok cfg (B + band_span cfg) (Suc n) s' L'"
      "next' = next_id \<and> bo_id ` set L' \<subseteq> bo_id ` set (book_at F symbol) \<or>
       next' = next_id + 1 \<and> bo_id ` set L' \<subseteq> insert next_id (bo_id ` set (book_at F symbol))"
      by blast
    have "\<not> ab_crossed L'" using filled(3) by (simp add: symbol_ok_def prices_ok_def)
    with order filled show ?thesis
      by (intro exI [of _ out'] exI [of _ s'] exI [of _ next'] exI [of _ rng'] exI [of _ "F(symbol \<mapsto> L')"])
        (simp add: next_message_def applicable_def crossing_def book_at_def)
  qed
qed

lemma sim_next_ok:
  assumes "config_ok cfg" and "sim_ok cfg n m F" and "n < unat (sc_num_messages cfg)"
  shows "\<exists>out m' F'. sim_next m = Inr (Some out, m') \<and> sim_ok cfg (Suc n) m' F' \<and>
    gm_seq out = 1 + of_nat n \<and> gm_ts out = sc_ts_start cfg + of_nat n * sc_ts_step_ns cfg \<and>
    body_ok (gm_body out) \<and> ab_body (gm_body out) F = (True, F') \<and> \<not> crossing (gm_body out) F'"
proof -
  let ?N = "unat (sc_num_symbols cfg)" and ?id = "sim_next_order_id m"
  from assms(2) have m: "sim_cfg m = cfg" "sim_produced m = of_nat n" "sim_next_seq m = 1 + of_nat n"
    "sim_ts m = sc_ts_start cfg + of_nat n * sc_ts_step_ns cfg" "length (sim_symbols m) = ?N"
    "\<And>i. i < ?N \<Longrightarrow> symbol_ok cfg (price_bound cfg n) n (sim_symbols m ! i) (book_at F (of_nat i))"
    "\<And>symbol. symbol \<in> dom F \<Longrightarrow> symbol < sc_num_symbols cfg" "unat ?id \<le> Suc n"
    "\<And>symbol ord. ord \<in> set (book_at F symbol) \<Longrightarrow> bo_id ord < ?id"
    by (auto simp: sim_ok_def)
  note room = config_room [OF assms(1,3)]
  have "unat (sc_num_symbols cfg - 1) = ?N - 1" "0 < ?N"
    using assms(1) by (simp_all add: config_ok_def unat_minus_one word_gt_0 unat_gt_0)
  then obtain i rng where i: "draw 0 (unat (sc_num_symbols cfg - 1)) (sim_rng m) = Inr (i, rng)" "i < ?N"
    using draw_fits [of 0 "?N - 1" "sim_rng m"] by fastforce
  let ?sym = "of_nat i :: SymbolId"
  from i(2) unat_u32_less [of "sc_num_symbols cfg"] have sym: "unat ?sym = i"
    by (simp add: unsigned_of_nat take_bit_nat_eq_self)
  have "ab_lookup ?id (book_at F ?sym) = None" by (auto simp: ab_lookup_None dest: m(9))
  from next_message_ok [OF m(6) [OF i(2)] room _ this, of "of_nat n + 1"
      "GeneratedMessage_init\<lparr>gm_seq := 1 + of_nat n, gm_ts := sim_ts m\<rparr>" rng] assms(1)
  obtain out s' id' rng' F' where out:
    "next_message cfg ?sym ?id (of_nat n + 1) (GeneratedMessage_init\<lparr>gm_seq := 1 + of_nat n, gm_ts := sim_ts m\<rparr>)
       (sim_symbols m ! i) rng = Inr (out, s', id', rng')"
    "gm_seq out = 1 + of_nat n" "gm_ts out = sim_ts m" "body_ok (gm_body out)"
    "ab_body (gm_body out) F = (True, F')" "\<not> crossing (gm_body out) F'"
    "symbol_ok cfg (price_bound cfg n + band_span cfg) (Suc n) s' (book_at F' ?sym)"
    "\<And>s''. s'' \<noteq> ?sym \<Longrightarrow> F' s'' = F s''"
    "id' = ?id \<and> bo_id ` set (book_at F' ?sym) \<subseteq> bo_id ` set (book_at F ?sym) \<or>
     id' = ?id + 1 \<and> bo_id ` set (book_at F' ?sym) \<subseteq> insert ?id (bo_id ` set (book_at F ?sym))"
    by (auto simp: config_ok_def)
  let ?m = "m\<lparr>sim_next_seq := sim_next_seq m + 1, sim_ts := sim_ts m + sc_ts_step_ns cfg, sim_rng := rng',
    sim_symbols := (sim_symbols m)[i := s'], sim_produced := sim_produced m + 1, sim_next_order_id := id'\<rparr>"
  have "sim_produced m < sc_num_messages cfg"
    using assms(3) m(2) by (simp add: word_less_nat_alt unsigned_of_nat take_bit_nat_eq_self_iff)
      (meson le_less_trans take_bit_nat_less_eq_self)
  then have run: "sim_next m = Inr (Some out, ?m)"
    using i sym m(1-3,5) out(1) by (simp add: sim_next_def Let_def not_le)
  have books: "book_at F' symbol = book_at F symbol" if "symbol \<noteq> ?sym" for symbol
    using out(8) [OF that] by (simp add: book_at_def)
  have symbols: "symbol_ok cfg (price_bound cfg (Suc n)) (Suc n) ((sim_symbols m)[i := s'] ! j) (book_at F' (of_nat j))"
    if "j < ?N" for j
  proof (cases "j = i")
    case True
    with out(7) i(2) m(5) show ?thesis by (simp add: price_bound_Suc)
  next
    case False
    have "unat (of_nat j :: SymbolId) = j"
      using that unat_u32_less [of "sc_num_symbols cfg"] by (simp add: unsigned_of_nat take_bit_nat_eq_self)
    with False sym have "of_nat j \<noteq> ?sym" by metis
    with symbol_ok_mono [OF m(6) [OF that], of "price_bound cfg (Suc n)" "Suc n"] False room_span [OF room]
    show ?thesis by (simp add: books price_bound_Suc)
  qed
  have fresh: "unat (?id + 1) = Suc (unat ?id)"
    using m(8) room_count [OF room] by (intro unat_Suc_64) simp
  have ids: "bo_id ord < id'" if "ord \<in> set (book_at F' symbol)" for symbol ord
  proof (cases "symbol = ?sym")
    case True
    with that out(9) m(9) fresh show ?thesis
      by (fastforce simp: word_less_nat_alt)
  next
    case False
    with that m(9) [of ord symbol] out(9) fresh show ?thesis by (auto simp: books word_less_nat_alt)
  qed
  have "sim_ok cfg (Suc n) ?m F'"
    unfolding sim_ok_def
  proof (intro conjI ballI allI impI)
    fix symbol assume "symbol \<in> dom F'"
    with out(8) [of symbol] have "symbol = ?sym \<or> symbol \<in> dom F" by (fastforce simp: dom_def)
    with m(7) i(2) sym show "symbol < sc_num_symbols cfg" by (auto simp: word_less_nat_alt)
  qed (use m(1-5,8) assms(3) out(9) fresh symbols ids in \<open>auto simp: algebra_simps\<close>)
  with run out(2-6) m(4) show ?thesis by fastforce
qed

section \<open>The start\<close>

lemma mid_between:
  assumes "i < N"
  shows "min a (a + (int N - 1) * d) \<le> a + int i * d" and "a + int i * d \<le> max a (a + (int N - 1) * d)"
    and "0 \<le> int i * d \<and> int i * d \<le> (int N - 1) * d \<or> (int N - 1) * d \<le> int i * d \<and> int i * d \<le> 0"
proof -
  have i: "0 \<le> int i" "int i \<le> int N - 1" using assms by auto
  show "0 \<le> int i * d \<and> int i * d \<le> (int N - 1) * d \<or> (int N - 1) * d \<le> int i * d \<and> int i * d \<le> 0"
  proof (cases "0 \<le> d")
    case True
    with i show ?thesis by (simp add: mult_right_mono)
  next
    case False
    with i show ?thesis by (simp add: mult_right_mono_neg mult_nonneg_nonpos)
  qed
  then show "min a (a + (int N - 1) * d) \<le> a + int i * d" "a + int i * d \<le> max a (a + (int N - 1) * d)"
    by linarith+
qed

lemma init_symbols_ok:
  assumes "config_ok cfg" and "i \<le> unat (sc_num_symbols cfg)"
  shows "\<exists>ss. init_symbols cfg i = Inr ss \<and> length ss = i \<and> (\<forall>j < i. \<exists>mid.
    ss ! j = SymbolState_init mid \<and> tick_int cfg \<le> sint mid \<and> sint mid \<le> price_bound cfg 0)"
  using assms(2)
proof (induction i)
  case (Suc i)
  let ?start = "sint (sc_start_price cfg)" and ?step = "sint (sc_symbol_price_step cfg)"
  let ?N = "unat (sc_num_symbols cfg)"
  from Suc obtain ss where ss: "init_symbols cfg i = Inr ss" "length ss = i"
    "\<forall>j < i. \<exists>mid. ss ! j = SymbolState_init mid \<and> tick_int cfg \<le> sint mid \<and> sint mid \<le> price_bound cfg 0"
    by auto
  have span: "0 \<le> int (unat (sc_num_messages cfg)) * band_span cfg"
    using assms(1) by (simp add: config_ok_def band_span_def)
  with assms(1) have start: "1 \<le> ?start" "?start < 2 ^ 63"
    and last: "1 \<le> ?start + (int ?N - 1) * ?step" "?start + (int ?N - 1) * ?step < 2 ^ 63"
    and low: "tick_int cfg \<le> min ?start (?start + (int ?N - 1) * ?step)"
    by (auto simp: config_ok_def price_bound_def last_mid_def)
  from Suc.prems have "i < ?N" by simp
  note mid = mid_between(1,2) [OF this, of ?start ?step] mid_between(3) [OF this, of ?step]
  have "sint (of_nat i :: Price) = int i"
    using \<open>i < ?N\<close> unat_u32_less [of "sc_num_symbols cfg"]
    by (simp add: signed_of_nat signed_take_bit_int_eq_self)
  with mid(3) start last obtain d where d:
    "price_mul (of_nat i) (sc_symbol_price_step cfg) = Inr d" "sint d = int i * ?step"
    using i64_exec_fits [of "int i * ?step"] by (auto simp: price_mul_def)
  have "1 \<le> ?start + int i * ?step" "?start + int i * ?step < 2 ^ 63"
    using mid(1,2) start last by linarith+
  then obtain p where p:
    "price_add (sc_start_price cfg) d = Inr p" "sint p = ?start + int i * ?step"
    using price_add_fits [of "sc_start_price cfg" d] d(2) by auto
  have "tick_int cfg \<le> sint p" "sint p \<le> price_bound cfg 0"
    using p(2) mid(1,2) low by (auto simp: price_bound_def last_mid_def)
  with ss d(1) p(1) show ?case by (auto simp: nth_append less_Suc_eq)
qed simp

lemma sim_init_ok:
  assumes "config_ok cfg"
  shows "\<exists>m. MarketSimulator_init cfg rng = Inr m \<and> sim_ok cfg 0 m Map.empty"
proof -
  from init_symbols_ok [OF assms order_refl] obtain ss where ss:
    "init_symbols cfg (unat (sc_num_symbols cfg)) = Inr ss" "length ss = unat (sc_num_symbols cfg)"
    "\<And>j. j < unat (sc_num_symbols cfg) \<Longrightarrow> \<exists>mid. ss ! j = SymbolState_init mid \<and>
       tick_int cfg \<le> sint mid \<and> sint mid \<le> price_bound cfg 0" by blast
  have empty: "symbol_ok cfg (price_bound cfg 0) 0 (SymbolState_init mid) []"
    if "tick_int cfg \<le> sint mid" "sint mid \<le> price_bound cfg 0" for mid
    using that by (simp add: symbol_ok_def ab_ok_def prices_ok_def ab_crossed_def) (simp add: SymbolState_init_def)
  show ?thesis
    using ss(1,2) by (fastforce simp: MarketSimulator_init_def sim_ok_def book_at_def dest: ss(3) intro: empty)
qed

section \<open>The run\<close>

text \<open>A sink that records the messages.\<close>

definition record_message :: "Sequence \<Rightarrow> TimestampNs \<Rightarrow> Body \<Rightarrow> message list \<Rightarrow> message list exec" where
  "record_message seq ts body msgs = Inr (msgs @ [(seq, ts, body)])"

definition simulate :: "SimConfig \<Rightarrow> tape \<Rightarrow> message list exec" where
  "simulate cfg rng = ebind (MarketSimulator_init cfg rng) (\<lambda>m.
     ebind (sim_run record_message m []) (\<lambda>(m, n, msgs). Inr msgs))"

text \<open>The \<open>n\<close>-th message's number and time.\<close>

definition stamped :: "SimConfig \<Rightarrow> nat \<Rightarrow> message \<Rightarrow> bool" where
  "stamped cfg n m \<longleftrightarrow>
     fst m = 1 + of_nat n \<and> fst (snd m) = sc_ts_start cfg + of_nat n * sc_ts_step_ns cfg"

lemma sim_run_ok:
  assumes "config_ok cfg" and "sim_ok cfg n m F"
  shows "\<exists>m' k' msgs F'. sim_run_loop record_message m k acc = Inr (m', k', acc @ msgs) \<and>
    sim_ok cfg (unat (sc_num_messages cfg)) m' F' \<and> length msgs = unat (sc_num_messages cfg) - n \<and>
    k' = k + of_nat (length msgs) \<and>
    list_all message_ok msgs \<and> (\<forall>i < length msgs. stamped cfg (n + i) (msgs ! i)) \<and>
    ab_run (map message_item msgs) F = (0, F') \<and> ab_clean (map message_item msgs) F"
  using assms(2)
proof (induction "unat (sc_num_messages cfg) - n" arbitrary: n m F k acc)
  case 0
  then have n: "n = unat (sc_num_messages cfg)" by (simp add: sim_ok_def)
  then have "sim_next m = Inr (None, m)" using 0 by (simp add: sim_ok_def sim_next_def)
  with 0 n show ?case by (subst sim_run_loop.simps) simp
next
  case (Suc d)
  then have "n < unat (sc_num_messages cfg)" by simp
  from sim_next_ok [OF assms(1) Suc.prems this] obtain out m1 F1 where step:
    "sim_next m = Inr (Some out, m1)" "sim_ok cfg (Suc n) m1 F1" "gm_seq out = 1 + of_nat n"
    "gm_ts out = sc_ts_start cfg + of_nat n * sc_ts_step_ns cfg" "body_ok (gm_body out)"
    "ab_body (gm_body out) F = (True, F1)" "\<not> crossing (gm_body out) F1" by blast
  let ?msg = "(gm_seq out, gm_ts out, gm_body out)"
  have "d = unat (sc_num_messages cfg) - Suc n" using Suc.hyps(2) by simp
  from Suc.hyps(1) [OF this step(2), of "k + 1" "acc @ [?msg]"] obtain m' k' msgs F' where rest:
    "sim_run_loop record_message m1 (k + 1) (acc @ [?msg]) = Inr (m', k', (acc @ [?msg]) @ msgs)"
    "sim_ok cfg (unat (sc_num_messages cfg)) m' F'" "length msgs = unat (sc_num_messages cfg) - Suc n"
    "k' = k + 1 + of_nat (length msgs)" "list_all message_ok msgs"
    "\<forall>i < length msgs. stamped cfg (Suc n + i) (msgs ! i)"
    "ab_run (map message_item msgs) F1 = (0, F')" "ab_clean (map message_item msgs) F1"
    by blast
  have "sim_run_loop record_message m k acc = Inr (m', k', acc @ ?msg # msgs)"
    using step(1) rest(1) by (subst sim_run_loop.simps) (simp add: sim_dispatch_def record_message_def)
  moreover have "stamped cfg (n + i) ((?msg # msgs) ! i)" if "i < length (?msg # msgs)" for i
    using that rest(6) [rule_format, of "i - 1"] step(3,4) by (cases i) (auto simp: stamped_def)
  ultimately show ?case
    using rest(2-5,7,8) step(5-7) Suc.hyps(2)
    by (intro exI [of _ m'] exI [of _ k'] exI [of _ "?msg # msgs"] exI [of _ F']) auto
qed

lemma simulate_ok:
  assumes "config_ok cfg"
  shows "\<exists>msgs F. simulate cfg rng = Inr msgs \<and> length msgs = unat (sc_num_messages cfg) \<and>
    list_all message_ok msgs \<and> (\<forall>i < length msgs. stamped cfg i (msgs ! i)) \<and>
    ab_run (map message_item msgs) Map.empty = (0, F) \<and> ab_clean (map message_item msgs) Map.empty \<and>
    (\<forall>symbol. \<not> ab_crossed (book_at F symbol))"
proof -
  from sim_init_ok [OF assms] obtain m where m: "MarketSimulator_init cfg rng = Inr m"
    "sim_ok cfg 0 m Map.empty" by blast
  from sim_run_ok [OF assms m(2), of 0 "[]"] obtain m' k' msgs F where run:
    "sim_run_loop record_message m 0 [] = Inr (m', k', msgs)"
    "sim_ok cfg (unat (sc_num_messages cfg)) m' F" "length msgs = unat (sc_num_messages cfg)"
    "list_all message_ok msgs" "\<forall>i < length msgs. stamped cfg i (msgs ! i)"
    "ab_run (map message_item msgs) Map.empty = (0, F)" "ab_clean (map message_item msgs) Map.empty"
    by auto
  have "\<not> ab_crossed (book_at F symbol)" for symbol
  proof (cases "F symbol")
    case None
    then show ?thesis by (simp add: book_at_def ab_crossed_def)
  next
    case (Some L)
    with run(2) have "symbol < sc_num_symbols cfg" by (auto simp: sim_ok_def)
    then have "unat symbol < unat (sc_num_symbols cfg)" by (simp add: word_less_nat_alt)
    with run(2) have "symbol_ok cfg (price_bound cfg (unat (sc_num_messages cfg))) (unat (sc_num_messages cfg))
        (sim_symbols m' ! unat symbol) (book_at F (of_nat (unat symbol)))" unfolding sim_ok_def by blast
    then show ?thesis by (simp add: symbol_ok_def prices_ok_def)
  qed
  with m(1) run(1,3-7) show ?thesis by (auto simp: simulate_def sim_run_def)
qed

section \<open>Properties\<close>

lemma stamped_numbers:
  "length msgs = n \<Longrightarrow> \<forall>i < length msgs. stamped cfg i (msgs ! i) \<Longrightarrow>
     map fst msgs = map (\<lambda>i. 1 + of_nat i) [0..<n] \<and>
     map (fst \<circ> snd) msgs = map (\<lambda>i. sc_ts_start cfg + of_nat i * sc_ts_step_ns cfg) [0..<n]"
  by (auto simp: stamped_def list_eq_iff_nth_eq)

text \<open>C19. Whatever the random draws, a simulator with a sane configuration (\<open>config_ok\<close>: at least one
  symbol, a tick of at least one, a start price of at least a tick, an order size between 1 and its
  maximum, and no overflow of prices, of the total size of all messages or of the weights)
  generates exactly the messages asked for, without a fault: numbered from 1 without gaps, timed at
  the configured step, well-formed, each applicable to the books its predecessors define (every
  cancel, modify and trade names a live order), and no book is ever crossed.\<close>

theorem simulator_feed_applicable:
  assumes "config_ok cfg"
  shows "\<exists>msgs F. simulate cfg rng = Inr msgs \<and> length msgs = unat (sc_num_messages cfg) \<and>
    list_all message_ok msgs \<and> map fst msgs = map (\<lambda>i. 1 + of_nat i) [0..<length msgs] \<and>
    map (fst \<circ> snd) msgs = map (\<lambda>i. sc_ts_start cfg + of_nat i * sc_ts_step_ns cfg) [0..<length msgs] \<and>
    ab_run (map message_item msgs) Map.empty = (0, F) \<and> ab_clean (map message_item msgs) Map.empty"
  using simulate_ok [OF assms, of rng] stamped_numbers by (metis (no_types, lifting))

lemma default_config_ok: "config_ok SimConfig_default"
  by (simp add: config_ok_def SimConfig_default_def tick_int_def band_span_def price_bound_def
      last_mid_def weights_fit_def kPriceScale_def)

theorem simulator_feed_applicable_witness:
  "\<exists>msgs F. simulate SimConfig_default (sconst 0) = Inr msgs \<and> length msgs = 1000000 \<and>
    ab_run (map message_item msgs) Map.empty = (0, F) \<and> ab_clean (map message_item msgs) Map.empty"
  using simulator_feed_applicable [OF default_config_ok, of "sconst 0"]
  by (auto simp: SimConfig_default_def)

text \<open>The simulator's feed never trips the assertion of a debug build of the book builder.\<close>

theorem simulator_debug_safe:
  assumes "config_ok cfg" and "simulate cfg rng = Inr msgs"
  shows "\<exists>bb. run_items (bb_handler False) (map message_item msgs) (BookBuilder_init False) = Inr bb \<and>
    bst_rejected (bb_stats bb) = 0"
  using simulate_ok [OF assms(1), of rng] assms(2)
    run_items_simulates [OF builder_rep_init [of False], of False "map message_item msgs"]
  by (auto simp: BookBuilder_init_def BookStats_init_def)

theorem simulator_debug_safe_witness:
  "\<exists>msgs bb. simulate SimConfig_default (sconst 0) = Inr msgs \<and>
    run_items (bb_handler False) (map message_item msgs) (BookBuilder_init False) = Inr bb"
  using simulate_ok [OF default_config_ok, of "sconst 0"]
    simulator_debug_safe [OF default_config_ok, of "sconst 0"] by blast

text \<open>A configuration without symbols is not rejected: the bound of the symbol draw wraps to
  \<open>2 ^ 32 - 1\<close> and the first message indexes the empty vector of symbols.\<close>

theorem simulator_no_symbols_fault:
  assumes "sc_num_symbols cfg = 0" and "sc_num_messages cfg \<noteq> 0"
  shows "simulate cfg rng = Inl OutOfBounds"
proof -
  obtain i rng' where "draw 0 (unat (sc_num_symbols cfg - 1)) rng = Inr (i, rng')"
    using draw_fits [of 0 "unat (sc_num_symbols cfg - 1)" rng] by auto
  with assms show ?thesis
    by (simp add: simulate_def MarketSimulator_init_def sim_run_def sim_run_loop.simps sim_next_def rd_def)
qed

theorem simulator_no_symbols_fault_witness:
  "simulate (SimConfig_default\<lparr>sc_num_symbols := 0\<rparr>) (sconst 0) = Inl OutOfBounds"
  by (rule simulator_no_symbols_fault) (simp_all add: SimConfig_default_def)

text \<open>A minimum quantity of zero is not rejected either: an order of size zero can be drawn, and
  a trade against it asks for a fill between 1 and 0.\<close>

lemmas sim_eval = kPriceScale_def draw_def next_message_def due_def fill_random_def act_def fill_add_def
  fill_trade_def choose_price_def choose_bid_def random_offset_def random_qty_def random_live_def
  live_at_def register_order_def add_depth_def depth_plus_def price_mul_def price_sub_def
  price_add_def i64_exec_def price_max_def int_add_def sim_dispatch_def record_message_def
  SymbolState_init_def um_emplace_def om_assign_def ask_before_def Let_def

definition zero_config :: SimConfig where
  "zero_config = SimConfig_default\<lparr>sc_num_symbols := 1, sc_num_messages := 2, sc_min_qty := 0\<rparr>"

theorem simulator_zero_quantity_fault:
  "simulate zero_config (0 ## 0 ## 0 ## 0 ## 0 ## 0 ## 99 ## sconst 0) = Inl BadRange"
  by (simp add: simulate_def MarketSimulator_init_def sim_run_def sim_run_loop.simps sim_next_def
      zero_config_def SimConfig_default_def sim_eval) (simp add: word_le_nat_alt)

end
