(* ===== verification/Capture.thy ===== *)
theory Capture
  imports Parser
begin

text \<open>
  Model of \<^verbatim>\<open>include/mdfh/capture.hpp\<close> and \<^verbatim>\<open>src/capture.cpp\<close> over a disk that holds the
  file of one path. The \<^verbatim>\<open>stdio\<close> calls do what the C standard says of a regular file:
  \<^verbatim>\<open>fopen\<close> may be refused (\<open>d_openable\<close>), \<^verbatim>\<open>"wb"\<close> truncates, \<^verbatim>\<open>fwrite\<close> writes at the file
  position and stops short when the disk is full (\<open>d_limit\<close> is the size the file may reach),
  \<^verbatim>\<open>fread\<close> returns what is there, seeking inside the file succeeds. A call on a null \<^verbatim>\<open>FILE*\<close> is
  a fault.
\<close>

section \<open>The disk\<close>

record disk =
  d_content :: "byte list option"
  d_openable :: bool
  d_limit :: nat

definition fopen_wb :: "disk \<Rightarrow> nat option \<times> disk" where
  "fopen_wb d = (if d_openable d then (Some 0, d\<lparr>d_content := Some []\<rparr>) else (None, d))"

text \<open>\<^verbatim>\<open>fwrite\<close>: the number of bytes written, the file with its new position, the disk.\<close>

definition fwrite :: "byte list \<Rightarrow> nat option \<Rightarrow> disk \<Rightarrow> (nat \<times> nat option \<times> disk) exec" where
  "fwrite bytes file d =
     (case (file, d_content d) of
        (Some pos, Some c) \<Rightarrow>
          (let n = min (length bytes) (d_limit d - pos)
           in Inr (n, Some (pos + n), d\<lparr>d_content := Some (take pos c @ take n bytes @ drop (pos + n) c)\<rparr>))
      | _ \<Rightarrow> Inl NullFile)"

section \<open>The header\<close>

definition kCaptureMagic :: "byte list" where
  "kCaptureMagic = [0x4D, 0x44, 0x46, 0x48, 0x43, 0x41, 0x50, 0x31]"

definition kCaptureVersion :: u32 where
  "kCaptureVersion = 1"

definition kCaptureHeaderSize :: nat where
  "kCaptureHeaderSize = 24"

fun put_magic :: "byte list \<Rightarrow> byte list \<Rightarrow> nat \<Rightarrow> byte list exec" where
  "put_magic [] p i = Inr p"
| "put_magic (c # cs) p i = ebind (wr p i c) (\<lambda>p. put_magic cs p (i + 1))"

definition encode_capture_header :: "byte list \<Rightarrow> u64 \<Rightarrow> byte list exec" where
  "encode_capture_header p count =
     ebind (put_magic kCaptureMagic p 0) (\<lambda>p.
     ebind (store_le p 8 kCaptureVersion) (\<lambda>(p, q).
     ebind (store_le p q (0 :: u32)) (\<lambda>(p, q).
     ebind (store_le p q count) (\<lambda>(p, q). Inr p))))"

section \<open>The writer\<close>

record CaptureWriter =
  cw_file :: "nat option"
  cw_count :: u64

definition CaptureWriter_init :: CaptureWriter where
  "CaptureWriter_init = \<lparr>cw_file = None, cw_count = 0\<rparr>"

definition cw_is_open :: "CaptureWriter \<Rightarrow> bool" where
  "cw_is_open w \<longleftrightarrow> cw_file w \<noteq> None"

text \<open>\<^verbatim>\<open>close\<close>: the result of the patching \<^verbatim>\<open>fwrite\<close> is ignored.\<close>

definition cw_close :: "CaptureWriter \<Rightarrow> disk \<Rightarrow> (CaptureWriter \<times> disk) exec" where
  "cw_close w d =
     (if cw_file w = None then Inr (w, d)
      else
        ebind (encode_capture_header (replicate kCaptureHeaderSize 0) (cw_count w)) (\<lambda>hdr.
        ebind (fwrite hdr (Some 0) d) (\<lambda>(n, file, d).
        Inr (w\<lparr>cw_file := None\<rparr>, d))))"

definition cw_open :: "CaptureWriter \<Rightarrow> disk \<Rightarrow> (bool \<times> CaptureWriter \<times> disk) exec" where
  "cw_open w d =
     ebind (cw_close w d) (\<lambda>(w, d).
     let (file, d) = fopen_wb d; w = w\<lparr>cw_file := file\<rparr>
     in if file = None then Inr (False, w, d)
        else
          let w = w\<lparr>cw_count := 0\<rparr>
          in ebind (encode_capture_header (replicate kCaptureHeaderSize 0) 0) (\<lambda>hdr.
             ebind (fwrite hdr file d) (\<lambda>(n, file, d).
             Inr (n = length hdr, w\<lparr>cw_file := file\<rparr>, d))))"

definition cw_write_raw :: "byte list \<Rightarrow> CaptureWriter \<Rightarrow> disk \<Rightarrow> (bool \<times> CaptureWriter \<times> disk) exec" where
  "cw_write_raw bytes w d =
     ebind (fwrite bytes (cw_file w) d) (\<lambda>(n, file, d). Inr (n = length bytes, w\<lparr>cw_file := file\<rparr>, d))"

definition cw_write ::
  "Sequence \<Rightarrow> TimestampNs \<Rightarrow> Body \<Rightarrow> CaptureWriter \<Rightarrow> disk \<Rightarrow> (bool \<times> CaptureWriter \<times> disk) exec" where
  "cw_write seq ts body w d =
     ebind (encode_message (replicate kMaxMessageSize 0) seq ts body) (\<lambda>(buf, n).
     if n = 0 then Inr (False, w, d)
     else ebind (subspan buf 0 n) (\<lambda>bytes.
          ebind (cw_write_raw bytes w d) (\<lambda>(ok, w, d).
          if \<not> ok then Inr (False, w, d) else Inr (True, w\<lparr>cw_count := cw_count w + 1\<rparr>, d))))"

section \<open>The reader\<close>

datatype capture_error = CannotOpen | SmallerThanHeader | BadMagic | SeekFailed | Truncated | ShortRead

record CaptureReader =
  cr_bytes :: "byte list"
  cr_count :: u64
  cr_valid :: bool
  cr_error :: "capture_error option"

definition CaptureReader_init :: CaptureReader where
  "CaptureReader_init = \<lparr>cr_bytes = [], cr_count = 0, cr_valid = False, cr_error = None\<rparr>"

fun magic_matches :: "byte list \<Rightarrow> byte list \<Rightarrow> nat \<Rightarrow> bool exec" where
  "magic_matches [] hdr i = Inr True"
| "magic_matches (c # cs) hdr i =
     ebind (rd hdr i) (\<lambda>b. if b \<noteq> c then Inr False else magic_matches cs hdr (i + 1))"

text \<open>
  What the calls on an open file return, which need not be a regular one that nobody else writes:
  the bytes of the first \<^verbatim>\<open>fread\<close>, whether the seek to the end succeeds, the position there
  (negative when \<^verbatim>\<open>ftell\<close> fails), the bytes of the second \<^verbatim>\<open>fread\<close> by the number asked for.
\<close>

record file_calls =
  fc_header :: "byte list"
  fc_seek_end :: bool
  fc_tell :: int
  fc_body :: "nat \<Rightarrow> byte list"

definition resize :: "nat \<Rightarrow> byte list \<Rightarrow> byte list" where
  "resize n xs = take n xs @ replicate (n - length xs) 0"

text \<open>\<^verbatim>\<open>open\<close>; \<open>None\<close> is a refused \<^verbatim>\<open>fopen\<close>.\<close>

definition read_capture :: "file_calls option \<Rightarrow> CaptureReader \<Rightarrow> (bool \<times> CaptureReader) exec" where
  "read_capture calls r =
     (let r = r\<lparr>cr_valid := False, cr_error := None\<rparr>; fail = (\<lambda>e r. Inr (False, r\<lparr>cr_error := Some e\<rparr>))
      in case calls of
           None \<Rightarrow> fail CannotOpen r
         | Some f \<Rightarrow>
             (let hdr = fc_header f
              in if length hdr \<noteq> kCaptureHeaderSize then fail SmallerThanHeader r
                 else ebind (magic_matches kCaptureMagic hdr 0) (\<lambda>ok.
                      if \<not> ok then fail BadMagic r
                      else ebind (load_le hdr 16) (\<lambda>count.
                           let r = r\<lparr>cr_count := count\<rparr>
                           in if \<not> fc_seek_end f then fail SeekFailed r
                              else if fc_tell f < int kCaptureHeaderSize then fail Truncated r
                              else
                                let body = nat (fc_tell f) - kCaptureHeaderSize;
                                    bytes = resize body (cr_bytes r); got = fc_body f body;
                                    r = r\<lparr>cr_bytes := got @ drop (length got) bytes\<rparr>
                                in if length got \<noteq> body then fail ShortRead r
                                   else Inr (True, r\<lparr>cr_valid := True\<rparr>)))))"

text \<open>On the disk of above: a regular file that stays as it is.\<close>

definition regular_file :: "byte list \<Rightarrow> file_calls" where
  "regular_file c =
     \<lparr>fc_header = take kCaptureHeaderSize c, fc_seek_end = True, fc_tell = int (length c),
      fc_body = (\<lambda>n. take n (drop kCaptureHeaderSize c))\<rparr>"

definition fopen_rb :: "disk \<Rightarrow> file_calls option" where
  "fopen_rb d = (if d_openable d then map_option regular_file (d_content d) else None)"

definition cr_open :: "CaptureReader \<Rightarrow> disk \<Rightarrow> (bool \<times> CaptureReader) exec" where
  "cr_open r d = read_capture (fopen_rb d) r"

section \<open>Closed forms\<close>

definition header_bytes_of :: "u64 \<Rightarrow> byte list" where
  "header_bytes_of count = kCaptureMagic @ le_bytes kCaptureVersion @ le_bytes (0 :: u32) @ le_bytes count"

lemma length_magic: "length kCaptureMagic = 8"
  by (simp add: kCaptureMagic_def)

lemma length_header_bytes_of [simp]: "length (header_bytes_of count) = kCaptureHeaderSize"
  by (simp add: header_bytes_of_def kCaptureMagic_def kCaptureHeaderSize_def)

lemma put_magic_Inr:
  "i + length cs \<le> length p \<Longrightarrow> put_magic cs p i = Inr (take i p @ cs @ drop (i + length cs) p)"
proof (induction cs arbitrary: p i)
  case (Cons c cs)
  then have "i < length p" by simp
  with Cons show ?case
    by (simp add: upd_conv_take_nth_drop take_Suc_conv_app_nth add.commute)
qed simp

lemma encode_capture_header_Inr:
  assumes "length p = kCaptureHeaderSize"
  shows "encode_capture_header p count = Inr (header_bytes_of count)"
proof -
  have "length p = 24" "length kCaptureMagic = 8"
    using assms by (simp_all add: kCaptureHeaderSize_def kCaptureMagic_def)
  then show ?thesis
    by (simp add: encode_capture_header_def put_magic_Inr store_le_Inr header_bytes_of_def)
qed

lemma fwrite_end:
  "d_content d = Some c \<Longrightarrow> fwrite bytes (Some (length c)) d =
     (let n = min (length bytes) (d_limit d - length c)
      in Inr (n, Some (length c + n), d\<lparr>d_content := Some (c @ take n bytes)\<rparr>))"
  by (simp add: fwrite_def Let_def)

text \<open>The writer has an open file whose message region is \<open>bs\<close>.\<close>

definition capturing :: "CaptureWriter \<Rightarrow> disk \<Rightarrow> byte list \<Rightarrow> bool" where
  "capturing w d bs \<longleftrightarrow> d_content d = Some (header_bytes_of 0 @ bs) \<and>
     cw_file w = Some (kCaptureHeaderSize + length bs) \<and> kCaptureHeaderSize \<le> d_limit d"

lemma cw_open_Inr:
  assumes "d_openable d" and "kCaptureHeaderSize \<le> d_limit d"
  shows "\<exists>d'. cw_open CaptureWriter_init d =
      Inr (True, \<lparr>cw_file = Some kCaptureHeaderSize, cw_count = 0\<rparr>, d') \<and>
    capturing \<lparr>cw_file = Some kCaptureHeaderSize, cw_count = 0\<rparr> d' [] \<and>
    d_openable d' = d_openable d \<and> d_limit d' = d_limit d"
  using assms fwrite_end [of "d\<lparr>d_content := Some []\<rparr>" "[]" "header_bytes_of 0"]
  by (simp add: cw_open_def cw_close_def CaptureWriter_init_def fopen_wb_def
      encode_capture_header_Inr capturing_def Let_def min_def)

text \<open>A write, whether or not the frame fits on the disk.\<close>

lemma cw_write_Inr:
  assumes "capturing w d bs" and "body_ok body"
  shows "\<exists>w' d'. cw_write seq ts body w d =
      Inr (kCaptureHeaderSize + length bs + length (frame_bytes seq ts body) \<le> d_limit d, w', d') \<and>
    capturing w' d' (bs @ take (d_limit d - kCaptureHeaderSize - length bs) (frame_bytes seq ts body)) \<and>
    cw_count w' = cw_count w +
      (if kCaptureHeaderSize + length bs + length (frame_bytes seq ts body) \<le> d_limit d then 1 else 0) \<and>
    d_openable d' = d_openable d \<and> d_limit d' = d_limit d"
proof -
  let ?frame = "frame_bytes seq ts body" and ?room = "d_limit d - kCaptureHeaderSize - length bs"
  have "length ?frame \<le> kMaxMessageSize"
    using body_size_for_bounds [of "msg_type_of body"] assms(2) by (simp add: length_frame_bytes)
  with encode_message_bytes [OF assms(2), of "replicate kMaxMessageSize 0" seq ts]
    body_size_for_bounds [of "msg_type_of body"]
  have encoded: "\<exists>buf. encode_message (replicate kMaxMessageSize 0) seq ts body = Inr (buf, length ?frame) \<and>
      subspan buf 0 (length ?frame) = Inr ?frame"
    by (simp add: subspan_def)
  have "0 < length ?frame" using assms(2) by (simp add: length_frame_bytes kHeaderWireSize_def)
  have "fwrite ?frame (cw_file w) d = Inr (min (length ?frame) ?room,
      Some (kCaptureHeaderSize + length bs + min (length ?frame) ?room),
      d\<lparr>d_content := Some (header_bytes_of 0 @ bs @ take ?room ?frame)\<rparr>)"
    using assms(1) fwrite_end [of d "header_bytes_of 0 @ bs" ?frame]
    by (auto simp: capturing_def Let_def min_def diff_diff_left)
  moreover have "min (length ?frame) ?room = length ?frame \<longleftrightarrow>
      kCaptureHeaderSize + length bs + length ?frame \<le> d_limit d"
    using \<open>0 < length ?frame\<close> by linarith
  ultimately show ?thesis
    using encoded \<open>0 < length ?frame\<close> assms(1)
    by (auto simp: cw_write_def cw_write_raw_def capturing_def min.commute)
qed

lemma cw_close_Inr:
  assumes "capturing w d bs"
  shows "cw_close w d = Inr (w\<lparr>cw_file := None\<rparr>,
    d\<lparr>d_content := Some (header_bytes_of (cw_count w) @ bs)\<rparr>)"
  using assms
  by (simp add: capturing_def cw_close_def encode_capture_header_Inr fwrite_def Let_def min_def)

lemma magic_matches_Inr:
  "i + length cs \<le> length hdr \<Longrightarrow> magic_matches cs hdr i = Inr (take (length cs) (drop i hdr) = cs)"
proof (induction cs arbitrary: i)
  case (Cons c cs)
  then have "i < length hdr" by simp
  then have "drop i hdr = hdr ! i # drop (Suc i) hdr" by (simp add: Cons_nth_drop_Suc)
  with Cons \<open>i < length hdr\<close> show ?case by auto
qed simp

text \<open>Every way out of \<^verbatim>\<open>open\<close>.\<close>

lemma header_fields:
  assumes "length hdr = kCaptureHeaderSize"
  shows "magic_matches kCaptureMagic hdr 0 = Inr (take 8 hdr = kCaptureMagic)"
    and "load_le hdr 16 = Inr (le_value (take 8 (drop 16 hdr)) :: u64)"
  using assms by (subst magic_matches_Inr load_le_Inr; simp add: length_magic kCaptureHeaderSize_def)+

lemma read_capture_Inr:
  "read_capture calls r = Inr (case calls of
       None \<Rightarrow> (False, r\<lparr>cr_valid := False, cr_error := Some CannotOpen\<rparr>)
     | Some f \<Rightarrow>
         if length (fc_header f) \<noteq> kCaptureHeaderSize
         then (False, r\<lparr>cr_valid := False, cr_error := Some SmallerThanHeader\<rparr>)
         else if take 8 (fc_header f) \<noteq> kCaptureMagic
         then (False, r\<lparr>cr_valid := False, cr_error := Some BadMagic\<rparr>)
         else
           let r = r\<lparr>cr_valid := False, cr_count := le_value (take 8 (drop 16 (fc_header f)))\<rparr>;
               n = nat (fc_tell f) - kCaptureHeaderSize; got = fc_body f n
           in if \<not> fc_seek_end f then (False, r\<lparr>cr_error := Some SeekFailed\<rparr>)
              else if fc_tell f < int kCaptureHeaderSize then (False, r\<lparr>cr_error := Some Truncated\<rparr>)
              else if length got \<noteq> n
              then (False, r\<lparr>cr_bytes := got @ drop (length got) (resize n (cr_bytes r)), cr_error := Some ShortRead\<rparr>)
              else (True, \<lparr>cr_bytes = got, cr_count = cr_count r, cr_valid = True, cr_error = None\<rparr>))"
proof (cases calls)
  case (Some f)
  show ?thesis
  proof (cases "length (fc_header f) = kCaptureHeaderSize")
    case True
    then show ?thesis
      using Some header_fields [OF True] by (simp add: read_capture_def Let_def resize_def)
  qed (use Some in \<open>simp add: read_capture_def\<close>)
qed (simp add: read_capture_def)

lemma cr_open_Inr:
  "cr_open r d = Inr (case (d_openable d, d_content d) of
       (True, Some c) \<Rightarrow>
         if length c < kCaptureHeaderSize
         then (False, r\<lparr>cr_valid := False, cr_error := Some SmallerThanHeader\<rparr>)
         else if take 8 c \<noteq> kCaptureMagic
         then (False, r\<lparr>cr_valid := False, cr_error := Some BadMagic\<rparr>)
         else (True, \<lparr>cr_bytes = drop kCaptureHeaderSize c, cr_count = le_value (take 8 (drop 16 c)),
                      cr_valid = True, cr_error = None\<rparr>)
     | _ \<Rightarrow> (False, r\<lparr>cr_valid := False, cr_error := Some CannotOpen\<rparr>))"
  by (auto simp: cr_open_def fopen_rb_def regular_file_def read_capture_Inr Let_def min_def kCaptureHeaderSize_def
      drop_take split: bool.splits option.splits)

text \<open>Whatever the file does, the reader ends without a fault; it reports success exactly when it is
  valid and has no error, and then it holds the whole message region that was measured.\<close>

theorem reader_total:
  "\<exists>ok r'. read_capture calls r = Inr (ok, r') \<and> cr_valid r' = ok \<and> (ok \<longleftrightarrow> cr_error r' = None) \<and>
    (ok \<longleftrightarrow> (\<exists>f. calls = Some f \<and> length (fc_header f) = kCaptureHeaderSize \<and>
       take 8 (fc_header f) = kCaptureMagic \<and> fc_seek_end f \<and> int kCaptureHeaderSize \<le> fc_tell f \<and>
       length (fc_body f (nat (fc_tell f) - kCaptureHeaderSize)) = nat (fc_tell f) - kCaptureHeaderSize \<and>
       cr_bytes r' = fc_body f (nat (fc_tell f) - kCaptureHeaderSize)))"
  by (cases calls) (auto simp: read_capture_Inr Let_def)

section \<open>Whole captures\<close>

text \<open>A client that writes a list of messages until one write fails.\<close>

fun write_messages :: "message list \<Rightarrow> CaptureWriter \<Rightarrow> disk \<Rightarrow> (bool \<times> CaptureWriter \<times> disk) exec" where
  "write_messages [] w d = Inr (True, w, d)"
| "write_messages ((seq, ts, body) # msgs) w d =
     ebind (cw_write seq ts body w d) (\<lambda>(ok, w, d).
     if ok then write_messages msgs w d else Inr (False, w, d))"

definition capture_session :: "message list \<Rightarrow> disk \<Rightarrow> (bool \<times> disk) exec" where
  "capture_session msgs d =
     ebind (cw_open CaptureWriter_init d) (\<lambda>(opened, w, d).
     ebind (write_messages msgs w d) (\<lambda>(ok, w, d).
     ebind (cw_close w d) (\<lambda>(w, d). Inr (ok, d))))"

lemma write_messages_fit:
  assumes "list_all message_ok msgs" and "capturing w d bs"
    and "kCaptureHeaderSize + length bs + length (wire msgs) \<le> d_limit d"
  shows "\<exists>w' d'. write_messages msgs w d = Inr (True, w', d') \<and> capturing w' d' (bs @ wire msgs) \<and>
    cw_count w' = cw_count w + of_nat (length msgs) \<and> d_openable d' = d_openable d \<and>
    d_limit d' = d_limit d"
  using assms
proof (induction msgs arbitrary: w d bs)
  case (Cons m msgs)
  obtain seq ts body where m: "m = (seq, ts, body)" by (cases m)
  let ?frame = "frame_bytes seq ts body"
  have fits: "kCaptureHeaderSize + length bs + length ?frame \<le> d_limit d"
    and tail: "kCaptureHeaderSize + length (bs @ ?frame) + length (wire msgs) \<le> d_limit d"
    using Cons.prems(3) m by simp_all
  from cw_write_Inr [OF Cons.prems(2), of body seq ts] Cons.prems(1) m fits obtain w1 d1 where
    step: "cw_write seq ts body w d = Inr (True, w1, d1)" "capturing w1 d1 (bs @ ?frame)"
      "cw_count w1 = cw_count w + 1" "d_openable d1 = d_openable d" "d_limit d1 = d_limit d"
    by auto
  from Cons.IH [of w1 d1 "bs @ ?frame"] step Cons.prems(1) tail show ?case
    by (auto simp: m algebra_simps)
qed auto

text \<open>The whole of what fits, then a cut frame.\<close>

lemma write_messages_append:
  "write_messages (msgs @ msgs') w d = ebind (write_messages msgs w d) (\<lambda>(ok, w, d).
     if ok then write_messages msgs' w d else Inr (False, w, d))"
  by (induction msgs w d rule: write_messages.induct) (auto simp: ebind_assoc split_def if_distrib intro!: ebind_cong)

lemma capture_reads_back:
  assumes "list_all message_ok msgs" and "d_openable d"
    and "kCaptureHeaderSize + length (wire msgs) \<le> d_limit d"
  shows "\<exists>d'. capture_session msgs d = Inr (True, d') \<and>
    (\<forall>r. cr_open r d' = Inr (True, \<lparr>cr_bytes = wire msgs, cr_count = of_nat (length msgs),
      cr_valid = True, cr_error = None\<rparr>))"
proof -
  from cw_open_Inr [OF assms(2)] assms(3) obtain d0 where start:
    "cw_open CaptureWriter_init d = Inr (True, \<lparr>cw_file = Some kCaptureHeaderSize, cw_count = 0\<rparr>, d0)"
    "capturing \<lparr>cw_file = Some kCaptureHeaderSize, cw_count = 0\<rparr> d0 []"
    "d_openable d0 = d_openable d" "d_limit d0 = d_limit d" by auto
  from write_messages_fit [OF assms(1) start(2)] start(3,4) assms(2,3) obtain w d1 where
    "write_messages msgs \<lparr>cw_file = Some kCaptureHeaderSize, cw_count = 0\<rparr> d0 = Inr (True, w, d1)"
    "capturing w d1 (wire msgs)" "cw_count w = of_nat (length msgs)" "d_openable d1" by auto
  with start(1) show ?thesis
    by (simp add: capture_session_def cw_close_Inr cr_open_Inr header_bytes_of_def kCaptureMagic_def
        kCaptureHeaderSize_def)
qed

section \<open>Properties\<close>

text \<open>C28. A capture round trip: with room on the disk, the messages written to a capture file are
  read back byte for byte as the wire stream they would have been, with their number.\<close>

theorem capture_roundtrip:
  assumes "list_all message_ok msgs" and "d_openable d"
    and "kCaptureHeaderSize + length (wire msgs) \<le> d_limit d"
  shows "\<exists>d'. capture_session msgs d = Inr (True, d') \<and>
    cr_open r d' = Inr (True, \<lparr>cr_bytes = wire msgs, cr_count = of_nat (length msgs),
      cr_valid = True, cr_error = None\<rparr>)"
  using capture_reads_back [OF assms] by blast

text \<open>The reader accepts exactly the files of at least 24 bytes that start with the magic: the
  version and the reserved word are not looked at, the count is taken from the header as it is,
  and a failed open keeps the bytes and the count of the previous file.\<close>

theorem reader_accepts_iff:
  "\<exists>ok r'. cr_open r d = Inr (ok, r') \<and> cr_valid r' = ok \<and>
    (ok \<longleftrightarrow> d_openable d \<and> (\<exists>c. d_content d = Some c \<and> kCaptureHeaderSize \<le> length c \<and>
       take 8 c = kCaptureMagic \<and> cr_bytes r' = drop kCaptureHeaderSize c)) \<and>
    (ok \<or> cr_bytes r' = cr_bytes r \<and> cr_count r' = cr_count r \<and> cr_error r' \<noteq> None)"
  by (cases "d_openable d"; cases "d_content d") (auto simp: cr_open_Inr)

text \<open>When the disk fills up in the middle of a message the write is reported as failed and not
  counted, and the capture holds everything before it and a cut tail: reading it back and
  parsing it delivers exactly the messages counted.\<close>

theorem capture_disk_full:
  assumes "list_all message_ok msgs" and "message_ok m" and "d_openable d"
    and "k < length (message_bytes m)" and "d_limit d = kCaptureHeaderSize + length (wire msgs) + k"
  shows "\<exists>d' r'. capture_session (msgs @ [m]) d = Inr (False, d') \<and> cr_open r d' = Inr (True, r') \<and>
    cr_count r' = of_nat (length msgs) \<and>
    parse H (cr_bytes r') h = ebind (run_items H (map message_item msgs) h) (\<lambda>h.
      Inr (h, \<lparr>bytes_consumed = length (wire msgs), messages = length msgs, malformed = 0,
               needs_more = (kHeaderWireSize \<le> k)\<rparr>))"
proof -
  obtain seq ts body where m: "m = (seq, ts, body)" by (cases m)
  let ?w = "\<lparr>cw_file = Some kCaptureHeaderSize, cw_count = 0\<rparr>"
  from cw_open_Inr [OF assms(3)] assms(5) obtain d0 where start:
    "cw_open CaptureWriter_init d = Inr (True, ?w, d0)" "capturing ?w d0 []"
    "d_openable d0 = d_openable d" "d_limit d0 = d_limit d" by auto
  from write_messages_fit [OF assms(1) start(2)] start(3,4) assms(3,5) obtain w d1 where whole:
    "write_messages msgs ?w d0 = Inr (True, w, d1)" "capturing w d1 (wire msgs)"
    "cw_count w = of_nat (length msgs)" "d_openable d1" "d_limit d1 = d_limit d" by auto
  from cw_write_Inr [OF whole(2), of body seq ts] assms(2,4,5) whole(5) m obtain w' d2 where cut:
    "cw_write seq ts body w d1 = Inr (False, w', d2)"
    "capturing w' d2 (wire msgs @ take k (message_bytes m))"
    "cw_count w' = cw_count w" "d_openable d2 = d_openable d1"
    by (auto simp: not_le)
  have "capture_session (msgs @ [m]) d = Inr (False, d2\<lparr>d_content :=
      Some (header_bytes_of (of_nat (length msgs)) @ wire msgs @ take k (message_bytes m))\<rparr>)"
    using start(1) whole(1,3) cut(1,3) cw_close_Inr [OF cut(2)]
    by (simp add: capture_session_def write_messages_append m)
  moreover have "cr_open r (d2\<lparr>d_content :=
      Some (header_bytes_of (of_nat (length msgs)) @ wire msgs @ take k (message_bytes m))\<rparr>) =
    Inr (True, \<lparr>cr_bytes = wire msgs @ take k (message_bytes m), cr_count = of_nat (length msgs),
      cr_valid = True, cr_error = None\<rparr>)"
    using whole(4) cut(4)
    by (simp add: cr_open_Inr header_bytes_of_def kCaptureMagic_def kCaptureHeaderSize_def)
  moreover have "parse H (wire msgs @ take k (message_bytes m)) h =
    ebind (run_items H (map message_item msgs) h) (\<lambda>h.
      Inr (h, \<lparr>bytes_consumed = length (wire msgs), messages = length msgs, malformed = 0,
               needs_more = (kHeaderWireSize \<le> k)\<rparr>))"
    by (simp add: parse_eq [OF scan_cut_stream [OF assms(1,2,4)]])
  ultimately show ?thesis by simp
qed

definition roomy_disk :: disk where
  "roomy_disk = \<lparr>d_content = None, d_openable = True, d_limit = 1000\<rparr>"

theorem capture_roundtrip_witness:
  "\<exists>d'. capture_session sample_messages roomy_disk = Inr (True, d') \<and>
    cr_open CaptureReader_init d' = Inr (True, \<lparr>cr_bytes = wire sample_messages, cr_count = 2,
      cr_valid = True, cr_error = None\<rparr>)"
proof -
  have "list_all message_ok sample_messages" "d_openable roomy_disk"
    "kCaptureHeaderSize + length (wire sample_messages) \<le> d_limit roomy_disk"
    by (simp_all add: sample_messages_def roomy_disk_def kCaptureHeaderSize_def length_frame_bytes
        wire_size_defs)
  from capture_roundtrip [OF this, of CaptureReader_init] show ?thesis
    by (simp add: sample_messages_def del: wire_simps')
qed

theorem capture_disk_full_witness:
  "\<exists>d' r'. capture_session [(2, 200, BodyHeartbeat)] (roomy_disk\<lparr>d_limit := 30\<rparr>) = Inr (False, d') \<and>
    cr_open CaptureReader_init d' = Inr (True, r') \<and> cr_count r' = 0"
proof -
  have "list_all message_ok []" "message_ok (2, 200, BodyHeartbeat)" "d_openable (roomy_disk\<lparr>d_limit := 30\<rparr>)"
    "6 < length (message_bytes (2, 200, BodyHeartbeat))"
    "d_limit (roomy_disk\<lparr>d_limit := 30\<rparr>) = kCaptureHeaderSize + length (wire []) + 6"
    by (simp_all add: roomy_disk_def kCaptureHeaderSize_def length_frame_bytes wire_size_defs)
  from capture_disk_full [OF this, of CaptureReader_init EventHandler_default "()"] show ?thesis by auto
qed

end
