(* ===== verification/Pipeline.thy ===== *)
theory Pipeline
  imports Replay Spsc_Queue
begin

text \<open>
  Model of \<^verbatim>\<open>include/mdfh/pipeline.hpp\<close>: the ingestion, book and analytics threads as one step
  relation, each thread a program counter over its own variables, with the two queues and the two
  flags between them. A queue is here the sequence of the items in flight: \<open>try_push\<close> and
  \<open>try_pop\<close> are \<open>fifo_enq\<close>, \<open>fifo_deq\<close> or a refusal, which a stale index may cause at any time.
  \<open>Pipeline_Rings\<close> runs the same threads over the rings themselves and shows that each of their
  steps is one of this relation. A flag may be read as still false after it was set; once it is
  read as true, the acquire makes everything before its release visible, so the \<open>empty\<close> that
  follows is exact. \<^verbatim>\<open>yield\<close> and the wall clock are left out.
\<close>

section \<open>Data\<close>

record Frame =
  fr_len :: u16
  fr_data :: "byte list"

record Tick =
  tk_sym :: SymbolId
  tk_bid :: Price
  tk_ask :: Price

record PipelineResult =
  pr_messages_parsed :: u64
  pr_malformed :: u64
  pr_analytics_events :: u64

record PipelineConfig =
  pc_frame_queue_capacity :: u64
  pc_tick_queue_capacity :: u64
  pc_analytics_every :: u64

text \<open>The frame that is pushed; the array behind it keeps its zeros.\<close>

definition make_frame :: "byte list \<Rightarrow> nat \<Rightarrow> nat \<Rightarrow> Frame exec" where
  "make_frame msgs off n =
     ebind (subspan msgs off n) (\<lambda>bytes.
     if n \<le> kMaxMessageSize
     then Inr \<lparr>fr_len = of_nat n, fr_data = bytes @ replicate (kMaxMessageSize - n) 0\<rparr>
     else Inl OutOfBounds)"

definition frame_span :: "Frame \<Rightarrow> byte list exec" where
  "frame_span f = subspan (fr_data f) 0 (unat (fr_len f))"

text \<open>What \<^verbatim>\<open>emit_tick\<close> offers to the analytics queue.\<close>

definition tick_of :: "SymbolId \<Rightarrow> OrderBook \<Rightarrow> Tick" where
  "tick_of symbol bk =
     \<lparr>tk_sym = symbol, tk_bid = (case best_bid bk of None \<Rightarrow> 0 | Some v \<Rightarrow> lv_price v),
      tk_ask = (case best_ask bk of None \<Rightarrow> 0 | Some v \<Rightarrow> lv_price v)\<rparr>"

definition ticks_of :: "BookManager \<Rightarrow> Tick list" where
  "ticks_of m = map (\<lambda>(symbol, bk). tick_of symbol bk) m"

section \<open>The threads\<close>

text \<open>Ingestion: at the loop head, pushing a frame before going on at an offset, behind the loop.\<close>

datatype ingest_pc = IScan nat | IPush nat Frame | IDone | IExit

definition ingest_scan :: "byte list \<Rightarrow> nat \<Rightarrow> ingest_pc exec" where
  "ingest_scan msgs off =
     (if off + kHeaderWireSize \<le> length msgs then
        ebind (subspan msgs off kHeaderWireSize) (\<lambda>header_span.
        ebind (decode_header header_span) (\<lambda>decoded. case decoded of
          None \<Rightarrow> Inr IDone
        | Some hdr \<Rightarrow>
            (let frame_len = kHeaderWireSize + unat (hdr_body_size hdr)
             in if off + frame_len > length msgs then Inr IDone
                else if frame_len > kMaxMessageSize then Inr (IScan (off + frame_len))
                else ebind (make_frame msgs off frame_len) (\<lambda>f. Inr (IPush (off + frame_len) f)))))
      else Inr IDone)"

text \<open>
  The book thread: popping, reading the flag, testing for empty, emitting ticks (of the final
  sample or of a periodic one), publishing its results.
\<close>

datatype book_pc = BPop | BFlag | BEmpty | BEmit "Tick list" bool | BFinish | BExit

datatype analytics_pc = APop | AFlag | AEmpty | AExit

text \<open>The variables of the threads; the queues between them extend the record.\<close>

record threads =
  pl_ingest :: ingest_pc
  pl_ingest_done :: bool
  pl_book :: book_pc
  pl_feed :: "BookBuilder FeedHandler"
  pl_processed :: u64
  pl_result :: PipelineResult
  pl_book_done :: bool
  pl_analytics :: analytics_pc
  pl_last_tick :: Tick
  pl_fingerprint :: u64
  pl_symbol_count :: nat
  pl_stats :: BookStats

record pipeline = threads +
  pl_frames :: "Frame list"
  pl_ticks :: "Tick list"

definition threads_init :: "bool \<Rightarrow> threads" where
  "threads_init ndebug =
     \<lparr>pl_ingest = IScan 0, pl_ingest_done = False, pl_book = BPop,
      pl_feed = FeedHandler_init (set_verify False (BookBuilder_init ndebug)), pl_processed = 0,
      pl_result = \<lparr>pr_messages_parsed = 0, pr_malformed = 0, pr_analytics_events = 0\<rparr>,
      pl_book_done = False, pl_analytics = APop,
      pl_last_tick = \<lparr>tk_sym = 0, tk_bid = 0, tk_ask = 0\<rparr>, pl_fingerprint = 0,
      pl_symbol_count = 0, pl_stats = BookStats_init\<rparr>"

definition pipeline_init :: "bool \<Rightarrow> pipeline" where
  "pipeline_init ndebug = threads.extend (threads_init ndebug) \<lparr>pl_frames = [], pl_ticks = []\<rparr>"

text \<open>A popped frame: the feed handler, the counters, a sample every so many frames.\<close>

definition book_frame :: "bool \<Rightarrow> PipelineConfig \<Rightarrow> Frame \<Rightarrow> 'a threads_scheme \<Rightarrow> 'a threads_scheme exec" where
  "book_frame ndebug cfg fr s =
     ebind (frame_span fr) (\<lambda>bytes.
     ebind (consume_datagram (bb_handler ndebug) bytes (pl_feed s)) (\<lambda>(feed, r).
     let s = s\<lparr>pl_feed := feed,
               pl_result := (pl_result s)
                 \<lparr>pr_messages_parsed := pr_messages_parsed (pl_result s) + of_nat (messages r),
                  pr_malformed := pr_malformed (pl_result s) + of_nat (malformed r)\<rparr>,
               pl_processed := pl_processed s + 1\<rparr>
     in if pc_analytics_every cfg = 0 then Inl DivisionByZero
        else if pl_processed s mod pc_analytics_every cfg = 0
        then Inr (s\<lparr>pl_book := BEmit (ticks_of (bb_manager (down feed))) False\<rparr>)
        else Inr (s\<lparr>pl_book := BPop\<rparr>)))"

definition book_finish :: "'a threads_scheme \<Rightarrow> 'a threads_scheme" where
  "book_finish s = s\<lparr>pl_fingerprint := book_fingerprint (bb_manager (down (pl_feed s))),
     pl_symbol_count := symbol_count (bb_manager (down (pl_feed s))),
     pl_stats := bb_stats (down (pl_feed s)), pl_book_done := True, pl_book := BExit\<rparr>"

text \<open>\<open>cf\<close> and \<open>ct\<close> are the capacities of the frame queue and of the tick queue.\<close>

inductive pipe_step ::
  "bool \<Rightarrow> PipelineConfig \<Rightarrow> nat \<Rightarrow> nat \<Rightarrow> byte list \<Rightarrow> pipeline \<Rightarrow> pipeline exec \<Rightarrow> bool"
  for ndebug cfg cf ct msgs where
  i_scan: "pl_ingest s = IScan off \<Longrightarrow> pipe_step ndebug cfg cf ct msgs s
    (ebind (ingest_scan msgs off) (\<lambda>pc. Inr (s\<lparr>pl_ingest := pc\<rparr>)))"
| i_push: "pl_ingest s = IPush off fr \<Longrightarrow> fifo_enq cf fr (pl_frames s) = Some q \<Longrightarrow>
    pipe_step ndebug cfg cf ct msgs s (Inr (s\<lparr>pl_frames := q, pl_ingest := IScan off\<rparr>))"
| i_refused: "pl_ingest s = IPush off fr \<Longrightarrow> pipe_step ndebug cfg cf ct msgs s (Inr s)"
| i_done: "pl_ingest s = IDone \<Longrightarrow>
    pipe_step ndebug cfg cf ct msgs s (Inr (s\<lparr>pl_ingest_done := True, pl_ingest := IExit\<rparr>))"
| b_pop: "pl_book s = BPop \<Longrightarrow> fifo_deq (pl_frames s) = Some (fr, q) \<Longrightarrow>
    pipe_step ndebug cfg cf ct msgs s (book_frame ndebug cfg fr (s\<lparr>pl_frames := q\<rparr>))"
| b_refused: "pl_book s = BPop \<Longrightarrow> pipe_step ndebug cfg cf ct msgs s (Inr (s\<lparr>pl_book := BFlag\<rparr>))"
| b_running: "pl_book s = BFlag \<Longrightarrow> pipe_step ndebug cfg cf ct msgs s (Inr (s\<lparr>pl_book := BPop\<rparr>))"
| b_flag: "pl_book s = BFlag \<Longrightarrow> pl_ingest_done s \<Longrightarrow>
    pipe_step ndebug cfg cf ct msgs s (Inr (s\<lparr>pl_book := BEmpty\<rparr>))"
| b_more: "pl_book s = BEmpty \<Longrightarrow> pl_frames s \<noteq> [] \<Longrightarrow>
    pipe_step ndebug cfg cf ct msgs s (Inr (s\<lparr>pl_book := BPop\<rparr>))"
| b_last: "pl_book s = BEmpty \<Longrightarrow> pl_frames s = [] \<Longrightarrow> pipe_step ndebug cfg cf ct msgs s
    (Inr (s\<lparr>pl_book := BEmit (ticks_of (bb_manager (down (pl_feed s)))) True\<rparr>))"
| b_tick: "pl_book s = BEmit (t # ts) final \<Longrightarrow> fifo_enq ct t (pl_ticks s) = Some q \<Longrightarrow>
    pipe_step ndebug cfg cf ct msgs s (Inr (s\<lparr>pl_ticks := q, pl_book := BEmit ts final\<rparr>))"
| b_drop: "pl_book s = BEmit (t # ts) final \<Longrightarrow>
    pipe_step ndebug cfg cf ct msgs s (Inr (s\<lparr>pl_book := BEmit ts final\<rparr>))"
| b_emitted: "pl_book s = BEmit [] final \<Longrightarrow> pipe_step ndebug cfg cf ct msgs s
    (Inr (s\<lparr>pl_book := if final then BFinish else BPop\<rparr>))"
| b_finish: "pl_book s = BFinish \<Longrightarrow> pipe_step ndebug cfg cf ct msgs s (Inr (book_finish s))"
| a_pop: "pl_analytics s = APop \<Longrightarrow> fifo_deq (pl_ticks s) = Some (t, q) \<Longrightarrow>
    pipe_step ndebug cfg cf ct msgs s (Inr (s\<lparr>pl_ticks := q, pl_last_tick := t,
      pl_result := (pl_result s)\<lparr>pr_analytics_events := pr_analytics_events (pl_result s) + 1\<rparr>\<rparr>))"
| a_refused: "pl_analytics s = APop \<Longrightarrow>
    pipe_step ndebug cfg cf ct msgs s (Inr (s\<lparr>pl_analytics := AFlag\<rparr>))"
| a_running: "pl_analytics s = AFlag \<Longrightarrow>
    pipe_step ndebug cfg cf ct msgs s (Inr (s\<lparr>pl_analytics := APop\<rparr>))"
| a_flag: "pl_analytics s = AFlag \<Longrightarrow> pl_book_done s \<Longrightarrow>
    pipe_step ndebug cfg cf ct msgs s (Inr (s\<lparr>pl_analytics := AEmpty\<rparr>))"
| a_more: "pl_analytics s = AEmpty \<Longrightarrow> pl_ticks s \<noteq> [] \<Longrightarrow>
    pipe_step ndebug cfg cf ct msgs s (Inr (s\<lparr>pl_analytics := APop\<rparr>))"
| a_last: "pl_analytics s = AEmpty \<Longrightarrow> pl_ticks s = [] \<Longrightarrow>
    pipe_step ndebug cfg cf ct msgs s (Inr (s\<lparr>pl_analytics := AExit\<rparr>))"

inductive pipe_reach ::
  "bool \<Rightarrow> PipelineConfig \<Rightarrow> nat \<Rightarrow> nat \<Rightarrow> byte list \<Rightarrow> pipeline \<Rightarrow> pipeline exec \<Rightarrow> bool"
  for ndebug cfg cf ct msgs s0 where
  pipe_here: "pipe_reach ndebug cfg cf ct msgs s0 (Inr s0)"
| pipe_next: "pipe_reach ndebug cfg cf ct msgs s0 (Inr s) \<Longrightarrow> pipe_step ndebug cfg cf ct msgs s r \<Longrightarrow>
    pipe_reach ndebug cfg cf ct msgs s0 r"

definition pipe_finished :: "pipeline \<Rightarrow> bool" where
  "pipe_finished s \<longleftrightarrow> pl_ingest s = IExit \<and> pl_book s = BExit \<and> pl_analytics s = AExit"

section \<open>The frames of a stream\<close>

lemma frame_span_make:
  assumes "n \<le> kMaxMessageSize" and "off + n \<le> length msgs" and "make_frame msgs off n = Inr fr"
  shows "frame_span fr = Inr (take n (drop off msgs))"
proof -
  from assms(1) have "n < 2 ^ 16" by (simp add: wire_size_defs)
  then have "unat (of_nat n :: u16) = n" by (simp add: unsigned_of_nat take_bit_nat_eq_self)
  with assms show ?thesis by (auto simp: make_frame_def frame_span_def)
qed

lemma ingest_scan_step:
  assumes "off \<le> length msgs"
  shows "ingest_scan msgs off =
    (let push = (\<lambda>n. if n \<le> kMaxMessageSize
                     then ebind (make_frame msgs off n) (\<lambda>fr. Inr (IPush (off + n) fr))
                     else Inr (IScan (off + n)))
     in case classify (drop off msgs) of
       Mismatch n \<Rightarrow> push n
     | Framed hdr body n \<Rightarrow> push n
     | _ \<Rightarrow> Inr IDone)"
proof (cases "off + kHeaderWireSize \<le> length msgs")
  case False
  with assms have "length msgs - off < kHeaderWireSize" by linarith
  then have "classify (drop off msgs) = Short" by (simp add: classify_def)
  with False show ?thesis by (simp add: ingest_scan_def)
next
  case True
  let ?buf = "drop off msgs"
  have len: "kHeaderWireSize \<le> length ?buf" using True by simp
  from front_header_Some [OF this]
  have dec: "decode_header (take kHeaderWireSize ?buf) = Inr (front_header ?buf)" .
  show ?thesis
  proof (cases "front_header ?buf")
    case None
    with True dec len show ?thesis by (simp add: ingest_scan_def classify_def)
  next
    case (Some hdr)
    with True dec len assms show ?thesis
      by (auto simp: ingest_scan_def classify_def Let_def split: sum.splits option.splits)
  qed
qed

text \<open>One iteration of the ingestion loop, by what is in front of it.\<close>

lemma ingest_scan_cases:
  assumes "off \<le> length msgs"
  obtains (stop) "ingest_scan msgs off = Inr IDone"
      "classify (drop off msgs) \<in> {Short, BadHeader, Partial}"
  | (skip) n where "ingest_scan msgs off = Inr (IScan (off + n))" "classify (drop off msgs) = Mismatch n"
      "0 < n" "off + n \<le> length msgs" "kMaxMessageSize < n"
  | (push) n fr i where "ingest_scan msgs off = Inr (IPush (off + n) fr)" "frame_span fr = Inr (take n (drop off msgs))"
      "scan 0 (take n (drop off msgs)) = ([i], n, AtEnd)" "0 < n" "off + n \<le> length msgs"
      "classify (drop off msgs) = Mismatch n \<and> i = Reject 0 \<or>
       (\<exists>hdr body. classify (drop off msgs) = Framed hdr body n \<and> i = Deliver hdr body)"
      "n \<le> kMaxMessageSize"
proof (cases "classify (drop off msgs)")
  case (Mismatch n)
  from classify_frame_bounds(1) [OF this] assms have n: "0 < n" "off + n \<le> length msgs"
    by (auto simp: kHeaderWireSize_def)
  show thesis
  proof (cases "n \<le> kMaxMessageSize")
    case True
    with n obtain fr where "make_frame msgs off n = Inr fr" by (simp add: make_frame_def)
    with True Mismatch n assms frame_span_make [OF True n(2)] scan_single(1) [of n "drop off msgs"]
    show thesis by (intro push) (auto simp: ingest_scan_step)
  next
    case False
    with Mismatch n assms show thesis by (intro skip) (auto simp: ingest_scan_step)
  qed
next
  case (Framed hdr body n)
  from classify_frame_bounds(2) [OF this] assms have n: "0 < n" "off + n \<le> length msgs"
    by (auto simp: kHeaderWireSize_def)
  have "n \<le> kMaxMessageSize"
    using Framed body_size_for_bounds
    by (auto simp: classify_def Let_def split: if_splits option.splits sum.splits)
  moreover from this n obtain fr where "make_frame msgs off n = Inr fr" by (simp add: make_frame_def)
  ultimately show thesis
    using Framed n assms frame_span_make [of n off msgs fr] scan_single(2) [of n "drop off msgs" hdr body]
    by (intro push [of n fr "Deliver hdr body"]) (auto simp: ingest_scan_step)
qed (use assms in \<open>auto intro!: stop simp: ingest_scan_step\<close>)

text \<open>All frames from an offset on, as the loop pushes them.\<close>

function frames_from :: "byte list \<Rightarrow> nat \<Rightarrow> Frame list" where
  "frames_from msgs off = (if off \<le> length msgs then
     (case ingest_scan msgs off of
        Inr (IScan off') \<Rightarrow> frames_from msgs off'
      | Inr (IPush off' fr) \<Rightarrow> fr # frames_from msgs off'
      | _ \<Rightarrow> []) else [])"
  by pat_completeness auto
termination
proof (relation "measure (\<lambda>(msgs, off). Suc (length msgs) - off)")
  fix msgs off x pc off' assume "off \<le> length msgs" "ingest_scan msgs off = Inr pc" "pc = IScan off'"
  then show "((msgs, off'), msgs, off) \<in> measure (\<lambda>(msgs, off). Suc (length msgs) - off)"
    by (cases rule: ingest_scan_cases [of off msgs]) auto
next
  fix msgs off x pc off' fr assume "off \<le> length msgs" "ingest_scan msgs off = Inr pc" "pc = IPush off' fr"
  then show "((msgs, off'), msgs, off) \<in> measure (\<lambda>(msgs, off). Suc (length msgs) - off)"
    by (cases rule: ingest_scan_cases [of off msgs]) auto
qed simp

declare frames_from.simps [simp del]

text \<open>A frame that holds exactly one item.\<close>

definition frame_item :: "Frame \<Rightarrow> Item \<Rightarrow> bool" where
  "frame_item fr i \<longleftrightarrow> (\<exists>bytes. frame_span fr = Inr bytes \<and> scan 0 bytes = ([i], length bytes, AtEnd))"

text \<open>
  The malformed frames of a buffer that the ingestion loop does not hand over: the header of an
  invalid type it stops at, and the frames of a wrong size that are too long for a \<open>Frame\<close>.
\<close>

function withheld :: "byte list \<Rightarrow> nat" where
  "withheld buf = (case classify buf of
       BadHeader \<Rightarrow> 1
     | Mismatch n \<Rightarrow> (if n \<le> kMaxMessageSize then 0 else 1) + withheld (drop n buf)
     | Framed hdr body n \<Rightarrow> withheld (drop n buf)
     | _ \<Rightarrow> 0)"
  by pat_completeness auto
termination
  by (relation "measure length") (auto dest!: classify_frame_bounds simp: kHeaderWireSize_def)

declare withheld.simps [simp del]

lemma withheld_step:
  "classify buf \<in> {Short, Partial} \<Longrightarrow> withheld buf = 0"
  "classify buf = BadHeader \<Longrightarrow> withheld buf = 1"
  "classify buf = Mismatch n \<Longrightarrow>
     withheld buf = (if n \<le> kMaxMessageSize then 0 else 1) + withheld (drop n buf)"
  "classify buf = Framed hdr body n \<Longrightarrow> withheld buf = withheld (drop n buf)"
  by (auto simp: withheld.simps [of buf])

lemma frames_items:
  assumes "off \<le> length msgs" and "scan off (drop off msgs) = (items, c, s)"
  shows "\<exists>js. list_all2 frame_item (frames_from msgs off) js \<and>
    filter is_delivery js = filter is_delivery items \<and>
    rejections items = rejections js + withheld (drop off msgs)"
  using assms
proof (induction "length msgs - off" arbitrary: off items rule: less_induct)
  case less
  from less.prems(1) show ?case
  proof (cases rule: ingest_scan_cases)
    case stop
    with less.prems have "frames_from msgs off = []" by (subst frames_from.simps) simp
    moreover from less.prems(2) stop(2)
    have "filter is_delivery items = [] \<and> rejections items = withheld (drop off msgs)"
      by (cases rule: scan_cases) (auto simp: withheld_step)
    ultimately show ?thesis by (intro exI [of _ "[]"]) simp
  next
    case (skip n)
    from less.prems(2) skip(2) obtain is' where rest: "items = Reject off # is'"
      "scan (off + n) (drop (off + n) msgs) = (is', c, s)"
      by (cases rule: scan_cases) (auto simp: add.commute)
    have "length msgs - (off + n) < length msgs - off" using skip(3,4) by simp
    from less.hyps [OF this skip(4) rest(2)] skip(1,5) less.prems(1) rest(1) withheld_step(3) [OF skip(2)]
    show ?thesis
      by (subst frames_from.simps) (auto simp: add.commute)
  next
    case (push n fr i)
    from less.prems(2) push(6) obtain i' is' where rest: "items = i' # is'"
      "scan (off + n) (drop (off + n) msgs) = (is', c, s)"
      "filter is_delivery (i' # is') = filter is_delivery (i # is')"
      "rejections (i' # is') = rejections (i # is')"
      by (cases rule: scan_cases) (auto simp: add.commute)
    have held: "withheld (drop off msgs) = withheld (drop (off + n) msgs)"
      using push(6,7) withheld_step(3,4) [of "drop off msgs"] by (auto simp: add.commute)
    have "length msgs - (off + n) < length msgs - off" using push(4,5) by simp
    from less.hyps [OF this push(5) rest(2)] obtain js where
      "list_all2 frame_item (frames_from msgs (off + n)) js" "filter is_delivery js = filter is_delivery is'"
      "rejections is' = rejections js + withheld (drop (off + n) msgs)"
      by blast
    moreover have "frame_item fr i"
      using push(2,3,5) less.prems(1) by (auto simp: frame_item_def min_def)
    ultimately show ?thesis
      using push(1) less.prems(1) rest(1,3,4) held
      by (cases i; subst frames_from.simps) (auto intro!: exI [of _ "i # js"])
  qed
qed

section \<open>The book thread's work\<close>

fun consume_frames ::
  "'d Handler \<Rightarrow> Frame list \<Rightarrow> 'd FeedHandler \<Rightarrow> u64 \<Rightarrow> u64 \<Rightarrow> ('d FeedHandler \<times> u64 \<times> u64) exec" where
  "consume_frames H [] f m k = Inr (f, m, k)"
| "consume_frames H (fr # frs) f m k =
     ebind (frame_span fr) (\<lambda>bytes.
     ebind (consume_datagram H bytes f) (\<lambda>(f, r).
     consume_frames H frs f (m + of_nat (messages r)) (k + of_nat (malformed r))))"

lemma consume_frames_append:
  "consume_frames H (xs @ ys) f m k =
     ebind (consume_frames H xs f m k) (\<lambda>(f, m, k). consume_frames H ys f m k)"
  by (induction H xs f m k rule: consume_frames.induct) (auto simp: ebind_assoc split_def intro!: ebind_cong)

lemma malformed_with_buffer: "f\<lparr>fh_malformed := n\<rparr> = with_buffer (residual f) n f"
  by (simp add: with_buffer_def)

lemma consume_frames_items:
  "list_all2 frame_item frs js \<Longrightarrow> consume_frames H frs f m k =
     ebind (run_items (fh_handler H) js f) (\<lambda>f'.
       Inr (f'\<lparr>fh_malformed := fh_malformed f + of_nat (rejections js)\<rparr>,
            m + of_nat (deliveries js), k + of_nat (rejections js)))"
proof (induction frs js arbitrary: f m k rule: list_all2_induct)
  case Nil
  show ?case by simp
next
  case (Cons fr frs i js)
  from Cons.hyps(1) obtain bytes where one: "frame_span fr = Inr bytes"
    "scan 0 bytes = ([i], length bytes, AtEnd)" by (auto simp: frame_item_def)
  have counts: "deliveries (i # js) = deliveries [i] + deliveries js"
    "rejections (i # js) = rejections [i] + rejections js" by (simp_all add: deliveries_def rejections_def)
  show ?case
  proof (cases "on_item (fh_handler H) i f")
    case (Inl e)
    then show ?thesis by (simp add: one(1) consume_datagram_eq [OF one(2)])
  next
    case (Inr f1)
    then have "run_items (fh_handler H) [i] f = Inr f1" by simp
    from run_items_buffer [OF this] have same: "fh_malformed f1 = fh_malformed f" by simp
    show ?thesis
    proof (cases "run_items (fh_handler H) js f1")
      case (Inl e)
      with Inr show ?thesis
        by (simp add: one(1) consume_datagram_eq [OF one(2)] Cons.IH malformed_with_buffer
            run_items_with_buffer)
    next
      case (Inr f2)
      with \<open>on_item (fh_handler H) i f = Inr f1\<close> run_items_buffer [OF Inr] show ?thesis
        by (simp add: one(1) consume_datagram_eq [OF one(2)] Cons.IH malformed_with_buffer
            run_items_with_buffer counts same add.assoc)
    qed
  qed
qed

section \<open>The invariant\<close>

definition pending :: "byte list \<Rightarrow> ingest_pc \<Rightarrow> Frame list" where
  "pending msgs pc = (case pc of
       IScan off \<Rightarrow> frames_from msgs off
     | IPush off fr \<Rightarrow> fr # frames_from msgs off
     | IDone \<Rightarrow> []
     | IExit \<Rightarrow> [])"

definition offset_ok :: "byte list \<Rightarrow> ingest_pc \<Rightarrow> bool" where
  "offset_ok msgs pc = (case pc of
       IScan off \<Rightarrow> off \<le> length msgs
     | IPush off fr \<Rightarrow> off \<le> length msgs
     | _ \<Rightarrow> True)"

text \<open>What the book thread has published when it is done.\<close>

definition published :: "pipeline \<Rightarrow> bool" where
  "published s \<longleftrightarrow> pl_fingerprint s = book_fingerprint (bb_manager (down (pl_feed s))) \<and>
     pl_symbol_count s = symbol_count (bb_manager (down (pl_feed s))) \<and>
     pl_stats s = bb_stats (down (pl_feed s))"

definition book_control :: "pipeline \<Rightarrow> bool" where
  "book_control s = (let drained = (pl_ingest_done s \<and> pl_frames s = []) in case pl_book s of
       BEmpty \<Rightarrow> pl_ingest_done s
     | BEmit ts final \<Rightarrow> final \<longrightarrow> drained
     | BFinish \<Rightarrow> drained
     | BExit \<Rightarrow> drained \<and> published s
     | _ \<Rightarrow> True)"

definition analytics_control :: "pipeline \<Rightarrow> bool" where
  "analytics_control s = (case pl_analytics s of
       AEmpty \<Rightarrow> pl_book_done s
     | AExit \<Rightarrow> pl_book_done s \<and> pl_ticks s = []
     | _ \<Rightarrow> True)"

definition builder_inv :: "bool \<Rightarrow> BookBuilder \<Rightarrow> bool" where
  "builder_inv ndebug bb \<longleftrightarrow> builder_ok bb \<and> (ndebug \<or> \<not> bb_verify bb)"

definition pipe_feed :: "bool \<Rightarrow> BookBuilder FeedHandler" where
  "pipe_feed ndebug = FeedHandler_init (set_verify False (BookBuilder_init ndebug))"

definition pipe_inv :: "bool \<Rightarrow> byte list \<Rightarrow> pipeline \<Rightarrow> bool" where
  "pipe_inv ndebug msgs s \<longleftrightarrow>
     (\<exists>ps. frames_from msgs 0 = ps @ pl_frames s @ pending msgs (pl_ingest s) \<and>
        consume_frames (bb_handler ndebug) ps (pipe_feed ndebug) 0 0 =
          Inr (pl_feed s, pr_messages_parsed (pl_result s), pr_malformed (pl_result s))) \<and>
     builder_inv ndebug (down (pl_feed s)) \<and> offset_ok msgs (pl_ingest s) \<and>
     (pl_ingest_done s \<longleftrightarrow> pl_ingest s = IExit) \<and> (pl_book_done s \<longleftrightarrow> pl_book s = BExit) \<and>
     book_control s \<and> analytics_control s"

lemma pipe_inv_init: "pipe_inv ndebug msgs (pipeline_init ndebug)"
proof -
  have "builder_rep (set_verify False (BookBuilder_init ndebug)) Map.empty"
    by (simp add: set_verify_def builder_rep_def BookBuilder_init_def)
  then have "builder_inv ndebug (set_verify False (BookBuilder_init ndebug))"
    by (auto simp: builder_inv_def builder_ok_def set_verify_def)
  then show ?thesis
    by (simp add: pipe_inv_def pipeline_init_def threads_init_def threads.defs pending_def
        offset_ok_def book_control_def analytics_control_def pipe_feed_def)
qed

lemma frames_hold:
  assumes "frames_from msgs 0 = xs @ fr # ys"
  shows "\<exists>i. frame_item fr i"
proof -
  obtain items c s where "scan 0 (drop 0 msgs) = (items, c, s)" by (metis prod_cases3)
  from frames_items [OF _ this] obtain js where "list_all2 frame_item (frames_from msgs 0) js" by auto
  with assms show ?thesis by (auto simp: list_all2_append1 list_all2_Cons1)
qed

text \<open>Each thread's part of a step.\<close>

lemma i_scan_inv:
  assumes "pipe_inv ndebug msgs s" and "pl_ingest s = IScan off"
  shows "\<exists>pc. ingest_scan msgs off = Inr pc \<and> pipe_inv ndebug msgs (s\<lparr>pl_ingest := pc\<rparr>)"
proof -
  from assms have off: "off \<le> length msgs" by (simp add: pipe_inv_def offset_ok_def)
  then have "\<exists>pc. ingest_scan msgs off = Inr pc \<and> pending msgs pc = frames_from msgs off \<and>
      offset_ok msgs pc \<and> pc \<noteq> IExit"
    by (cases rule: ingest_scan_cases) (auto simp: frames_from.simps [of msgs off] pending_def offset_ok_def)
  then show ?thesis
    using assms
    by (auto simp: pipe_inv_def pending_def [of msgs "IScan off"] book_control_def analytics_control_def
        published_def Let_def split: book_pc.splits analytics_pc.splits)
qed

lemma b_pop_inv:
  assumes "pipe_inv ndebug msgs s" and "pl_book s = BPop" and "fifo_deq (pl_frames s) = Some (fr, q)"
    and "pc_analytics_every cfg \<noteq> 0"
  shows "\<exists>s'. book_frame ndebug cfg fr (s\<lparr>pl_frames := q\<rparr>) = Inr s' \<and> pipe_inv ndebug msgs s' \<and>
    pl_frames s' = q \<and> pl_ingest s' = pl_ingest s"
proof -
  from assms(3) have q: "pl_frames s = fr # q" by (auto simp: fifo_deq_def split: list.splits)
  from assms(1) obtain ps where ps: "frames_from msgs 0 = ps @ fr # q @ pending msgs (pl_ingest s)"
    "consume_frames (bb_handler ndebug) ps (pipe_feed ndebug) 0 0 =
       Inr (pl_feed s, pr_messages_parsed (pl_result s), pr_malformed (pl_result s))"
    and inv: "builder_inv ndebug (down (pl_feed s))" "offset_ok msgs (pl_ingest s)"
      "pl_ingest_done s \<longleftrightarrow> pl_ingest s = IExit" "pl_book_done s \<longleftrightarrow> pl_book s = BExit"
      "analytics_control s"
    by (auto simp: pipe_inv_def q)
  from frames_hold [OF ps(1)] obtain bytes where bytes: "frame_span fr = Inr bytes"
    by (auto simp: frame_item_def)
  from builder.consume_datagram_safe [of "pl_feed s" ndebug bytes] inv(1) obtain feed r where
    feed: "consume_datagram (bb_handler ndebug) bytes (pl_feed s) = Inr (feed, r)" "builder_inv ndebug (down feed)"
    by (auto simp: builder_inv_def)
  have "frames_from msgs 0 = (ps @ [fr]) @ q @ pending msgs (pl_ingest s)" using ps(1) by simp
  moreover have "consume_frames (bb_handler ndebug) (ps @ [fr]) (pipe_feed ndebug) 0 0 =
      Inr (feed, pr_messages_parsed (pl_result s) + of_nat (messages r),
           pr_malformed (pl_result s) + of_nat (malformed r))"
    by (simp add: consume_frames_append ps(2) bytes feed(1))
  moreover have "\<not> pl_book_done s" using inv(4) assms(2) by simp
  ultimately show ?thesis
    using feed inv(2,3,5) assms(4)
    by (fastforce simp: book_frame_def bytes pipe_inv_def Let_def book_control_def analytics_control_def
        split: analytics_pc.splits)
qed


lemma other_step_inv:
  assumes "pipe_inv ndebug msgs s"
  shows "pl_ingest s = IPush off fr \<Longrightarrow> fifo_enq cf fr (pl_frames s) = Some q \<Longrightarrow>
      pipe_inv ndebug msgs (s\<lparr>pl_frames := q, pl_ingest := IScan off\<rparr>)"
    and "pl_ingest s = IDone \<Longrightarrow> pipe_inv ndebug msgs (s\<lparr>pl_ingest_done := True, pl_ingest := IExit\<rparr>)"
    and "pl_book s = BFinish \<Longrightarrow> pipe_inv ndebug msgs (book_finish s)"
  using assms
  by (auto simp: pipe_inv_def pending_def offset_ok_def fifo_enq_def book_control_def analytics_control_def
      published_def book_finish_def Let_def split: if_splits book_pc.splits analytics_pc.splits)

lemmas control_defs = pipe_inv_def book_control_def analytics_control_def published_def Let_def

lemma pipe_step_inv:
  assumes "pipe_step ndebug cfg cf ct msgs s r" and "pipe_inv ndebug msgs s"
    and "pc_analytics_every cfg \<noteq> 0"
  shows "\<exists>s'. r = Inr s' \<and> pipe_inv ndebug msgs s'"
  using assms(1)
proof cases
  case (i_scan off)
  with i_scan_inv [OF assms(2)] show ?thesis by fastforce
next
  case (b_pop fr q)
  with b_pop_inv [OF assms(2) _ _ assms(3)] show ?thesis by fastforce
next
  case (b_tick t ts final q)
  with assms(2) show ?thesis
    by (auto simp: control_defs fifo_enq_def split: if_splits analytics_pc.splits)
qed (use assms(2) other_step_inv [OF assms(2)] in
    \<open>auto simp: control_defs fifo_deq_def split: if_splits list.splits analytics_pc.splits book_pc.splits\<close>)

lemma pipe_reach_inv:
  assumes "pipe_reach ndebug cfg cf ct msgs s0 r" and "pipe_inv ndebug msgs s0"
    and "pc_analytics_every cfg \<noteq> 0"
  shows "\<exists>s. r = Inr s \<and> pipe_inv ndebug msgs s"
  using assms(1)
proof induction
  case pipe_here
  with assms(2) show ?case by simp
next
  case (pipe_next s r)
  with pipe_step_inv [OF pipe_next(2) _ assms(3)] show ?case by auto
qed

end
