(* ===== verification/Pipeline_Results.thy ===== *)
theory Pipeline_Results
  imports Pipeline
begin

text \<open>
  What the concurrent pipeline of \<^verbatim>\<open>pipeline.hpp\<close> computes. The runs of \<open>ConcurrentPipeline::run\<close>
  are those of the step relation from the initial state, with the capacities the two queues round
  their sizes to. A finished book thread holds the books of the single-threaded path, and from
  every state that can be reached the three threads can finish.
\<close>

section \<open>Runs\<close>

definition run_queues :: "PipelineConfig \<Rightarrow> (Frame ring \<times> Tick ring) option" where
  "run_queues cfg =
     (case SPSCQueue_init \<lparr>fr_len = 0, fr_data = replicate kMaxMessageSize 0\<rparr> (pc_frame_queue_capacity cfg) of
        None \<Rightarrow> None
      | Some frames \<Rightarrow>
          (case SPSCQueue_init \<lparr>tk_sym = 0, tk_bid = 0, tk_ask = 0\<rparr> (pc_tick_queue_capacity cfg) of
             None \<Rightarrow> None
           | Some ticks \<Rightarrow> Some (frames, ticks)))"

definition run_capacities :: "PipelineConfig \<Rightarrow> (nat \<times> nat) option" where
  "run_capacities cfg =
     (case run_queues cfg of
        None \<Rightarrow> None
      | Some (frames, ticks) \<Rightarrow> Some (unat (ring_capacity frames), unat (ring_capacity ticks)))"

definition pipeline_run :: "bool \<Rightarrow> PipelineConfig \<Rightarrow> byte list \<Rightarrow> pipeline exec \<Rightarrow> bool" where
  "pipeline_run ndebug cfg msgs r \<longleftrightarrow> (case run_capacities cfg of
       None \<Rightarrow> False
     | Some (cf, ct) \<Rightarrow> pipe_reach ndebug cfg cf ct msgs (pipeline_init ndebug) r)"

lemma ring_room:
  assumes "SPSCQueue_init x cap = Some q"
  shows "0 < unat (ring_capacity q)"
proof -
  from SPSCQueue_init_counts [OF assms] obtain e where "1 \<le> e" "e < 64" "ring_capacity q = mask e"
    by metis
  moreover from this(1) have "1 < (2 :: nat) ^ e" by (intro one_less_power) auto
  ultimately show ?thesis using unat_mask_64 [of e] by simp
qed

lemma run_capacities_room: "run_capacities cfg = Some (cf, ct) \<Longrightarrow> 0 < cf \<and> 0 < ct"
  by (auto simp: run_capacities_def run_queues_def ring_room split: option.splits)

lemma pipeline_run_inv:
  assumes "pipeline_run ndebug cfg msgs r" and "pc_analytics_every cfg \<noteq> 0"
  shows "\<exists>s. r = Inr s \<and> pipe_inv ndebug msgs s"
  using assms pipe_reach_inv [OF _ pipe_inv_init]
  by (auto simp: pipeline_run_def split: option.splits prod.splits)

section \<open>Rejected frames leave the books alone\<close>

definition noting :: "u64 \<Rightarrow> BookBuilder \<Rightarrow> BookBuilder" where
  "noting n bb = bb\<lparr>bb_stats := (bb_stats bb)\<lparr>bst_malformed := n\<rparr>\<rparr>"

lemma noting_simps [simp]:
  "bb_manager (noting n bb) = bb_manager bb" "bb_verify (noting n bb) = bb_verify bb"
  "noting n (noting k bb) = noting n bb" "noting (bst_malformed (bb_stats bb)) bb = bb"
  "bst_malformed (bb_stats (noting n bb)) = n"
  by (simp_all add: noting_def)

lemma on_book_noting:
  "on_book ndebug symbol op (noting n bb) =
     ebind (on_book ndebug symbol op bb) (\<lambda>bb. Inr (noting n bb))"
  by (auto simp: on_book_def noting_def Let_def ebind_assoc split_def intro!: ebind_cong)

lemma stats_commute:
  "st\<lparr>bst_malformed := n, bst_adds := k\<rparr> = st\<lparr>bst_adds := k, bst_malformed := n\<rparr>"
  "st\<lparr>bst_malformed := n, bst_cancels := k\<rparr> = st\<lparr>bst_cancels := k, bst_malformed := n\<rparr>"
  "st\<lparr>bst_malformed := n, bst_modifies := k\<rparr> = st\<lparr>bst_modifies := k, bst_malformed := n\<rparr>"
  "st\<lparr>bst_malformed := n, bst_trades := k\<rparr> = st\<lparr>bst_trades := k, bst_malformed := n\<rparr>"
  "st\<lparr>bst_malformed := n, bst_snapshots := k\<rparr> = st\<lparr>bst_snapshots := k, bst_malformed := n\<rparr>"
  "st\<lparr>bst_malformed := n, bst_heartbeats := k\<rparr> = st\<lparr>bst_heartbeats := k, bst_malformed := n\<rparr>"
  by simp_all

lemma on_body_noting:
  "on_body (bb_handler ndebug) hdr body (noting n bb) =
     ebind (on_body (bb_handler ndebug) hdr body bb) (\<lambda>bb. Inr (noting n bb))"
  by (cases body)
    (simp_all add: bb_handler_def bb_add_order_def bb_cancel_order_def bb_modify_order_def
      bb_trade_def bb_snapshot_def bb_heartbeat_def Let_def on_book_noting [symmetric],
     simp_all add: noting_def stats_commute)

lemma run_deliveries:
  "run_items (bb_handler ndebug) (filter is_delivery is) (noting n bb) =
     ebind (run_items (bb_handler ndebug) is bb) (\<lambda>bb. Inr (noting n bb))"
proof (induction "is" arbitrary: bb)
  case Nil
  show ?case by simp
next
  case (Cons i "is")
  show ?case
  proof (cases i)
    case (Deliver hdr body)
    then show ?thesis
      by (cases "on_body (bb_handler ndebug) hdr body bb") (simp_all add: on_body_noting Cons.IH)
  next
    case (Reject off)
    have "on_malformed (bb_handler ndebug) off bb = Inr (noting (bst_malformed (bb_stats bb) + 1) bb)"
      by (simp add: on_malformed_simulates noting_def)
    with Cons.IH [of "noting (bst_malformed (bb_stats bb) + 1) bb"] Reject show ?thesis by simp
  qed
qed

text \<open>Each rejection is counted as malformed, and nothing else is.\<close>

lemma on_body_keeps_malformed:
  assumes "on_body (bb_handler ndebug) hdr body bb = Inr bb'"
  shows "bst_malformed (bb_stats bb') = bst_malformed (bb_stats bb)"
proof -
  from on_body_noting [of ndebug hdr body "bst_malformed (bb_stats bb)" bb] assms
  have "bb' = noting (bst_malformed (bb_stats bb)) bb'" by simp
  then show ?thesis by (metis noting_simps(5))
qed

lemma run_counts_malformed:
  "run_items (bb_handler ndebug) is bb = Inr bb' \<Longrightarrow>
     bst_malformed (bb_stats bb') = bst_malformed (bb_stats bb) + of_nat (rejections is)"
proof (induction "is" arbitrary: bb)
  case (Cons i "is")
  then show ?case
    by (cases i) (auto simp: ebind_eq_Inr_iff on_malformed_simulates on_body_keeps_malformed)
qed simp

lemma admit_rejections: "rejections (fst (admit is t)) = rejections is"
proof (induction "is" arbitrary: t)
  case (Cons i "is")
  then show ?case by (cases i) (simp_all add: Let_def split_beta)
qed simp

lemma feed_counts_malformed:
  assumes "run_items (fh_handler (bb_handler ndebug)) is f = Inr g"
  shows "bst_malformed (bb_stats (down g)) = bst_malformed (bb_stats (down f)) + of_nat (rejections is)"
  using assms run_counts_malformed [of ndebug "fst (admit is (seq_tracker f))" "down f"]
  by (auto simp: run_feed_eq Let_def split_beta ebind_eq_Inr_iff admit_rejections)

text \<open>The sequence tracker sees the deliveries only.\<close>

lemma admit_deliveries:
  "admit (filter is_delivery is) t = (filter is_delivery (fst (admit is t)), snd (admit is t))"
proof (induction "is" arbitrary: t)
  case (Cons i "is")
  then show ?case by (cases i) (simp_all add: Let_def split_beta)
qed simp

text \<open>Two runs of the feed handler over the same deliveries.\<close>

definition same_results :: "BookBuilder FeedHandler \<Rightarrow> BookBuilder FeedHandler \<Rightarrow> bool" where
  "same_results f g \<longleftrightarrow> bb_manager (down f) = bb_manager (down g) \<and>
     (\<exists>n. bb_stats (down f) = (bb_stats (down g))\<lparr>bst_malformed := n\<rparr>) \<and>
     seq_tracker f = seq_tracker g \<and> forwarded f = forwarded g \<and> dropped f = dropped g"

lemma same_resultsI:
  assumes "noting 0 (down f) = noting 0 (down g)"
    and "seq_tracker f = seq_tracker g" "forwarded f = forwarded g" "dropped f = dropped g"
  shows "same_results f g"
proof -
  from assms(1) have "bb_manager (noting 0 (down f)) = bb_manager (noting 0 (down g))"
    "bb_stats (noting 0 (down f)) = bb_stats (noting 0 (down g))" by simp_all
  then have "bb_manager (down f) = bb_manager (down g)"
    "(bb_stats (down f))\<lparr>bst_malformed := 0\<rparr> = (bb_stats (down g))\<lparr>bst_malformed := 0\<rparr>"
    by (simp_all add: noting_def)
  moreover from this(2) have
    "bb_stats (down f) = (bb_stats (down g))\<lparr>bst_malformed := bst_malformed (bb_stats (down f))\<rparr>"
    by (cases "bb_stats (down f)"; cases "bb_stats (down g)") simp
  ultimately show ?thesis using assms(2-4) unfolding same_results_def by blast
qed

lemma run_same_deliveries:
  assumes "run_items (fh_handler (bb_handler ndebug)) is f = Inr g"
    and "run_items (fh_handler (bb_handler ndebug)) js f = Inr h"
    and same: "filter is_delivery is = filter is_delivery js"
  shows "same_results g h"
proof -
  let ?t = "seq_tracker f" and ?H = "bb_handler ndebug"
  from assms(1) obtain d where d: "run_items ?H (fst (admit is ?t)) (down f) = Inr d"
    "g = f\<lparr>down := d, seq_tracker := snd (admit is ?t),
      forwarded := forwarded f + of_nat (deliveries (fst (admit is ?t))),
      dropped := dropped f + of_nat (deliveries is) - of_nat (deliveries (fst (admit is ?t)))\<rparr>"
    by (auto simp: run_feed_eq Let_def split_beta ebind_eq_Inr_iff)
  from assms(2) obtain e where e: "run_items ?H (fst (admit js ?t)) (down f) = Inr e"
    "h = f\<lparr>down := e, seq_tracker := snd (admit js ?t),
      forwarded := forwarded f + of_nat (deliveries (fst (admit js ?t))),
      dropped := dropped f + of_nat (deliveries js) - of_nat (deliveries (fst (admit js ?t)))\<rparr>"
    by (auto simp: run_feed_eq Let_def split_beta ebind_eq_Inr_iff)
  from admit_deliveries [of "is" ?t] admit_deliveries [of js ?t] same
  have kept: "filter is_delivery (fst (admit is ?t)) = filter is_delivery (fst (admit js ?t))"
    "snd (admit is ?t) = snd (admit js ?t)" by simp_all
  from run_deliveries [of ndebug "fst (admit is ?t)" 0 "down f"]
    run_deliveries [of ndebug "fst (admit js ?t)" 0 "down f"] d(1) e(1) kept(1)
  have "noting 0 d = noting 0 e" by simp
  moreover have "deliveries (fst (admit is ?t)) = deliveries (fst (admit js ?t))"
    "deliveries is = deliveries js" using kept(1) same by (simp_all add: deliveries_def)
  ultimately show ?thesis by (intro same_resultsI) (simp_all add: d(2) e(2) kept(2))
qed

section \<open>The books of the single-threaded path\<close>

lemma same_results_malformed:
  "same_results f g \<Longrightarrow> same_results (f\<lparr>fh_malformed := n\<rparr>) (with_buffer b k g)"
  by (simp add: same_results_def)

lemma finished_books:
  assumes "pipe_inv ndebug msgs s" and "pl_book s = BExit"
  shows "\<exists>f rep. consume (bb_handler ndebug) msgs (pipe_feed ndebug) = Inr (f, rep) \<and>
    same_results (pl_feed s) f \<and> published s \<and>
    pr_messages_parsed (pl_result s) = of_nat (messages rep) \<and>
    bst_malformed (bb_stats (down (pl_feed s))) = pr_malformed (pl_result s) \<and>
    bst_malformed (bb_stats (down f)) = of_nat (malformed rep) \<and>
    pr_malformed (pl_result s) + of_nat (withheld msgs) = of_nat (malformed rep)"
proof -
  let ?H = "bb_handler ndebug" and ?f = "pipe_feed ndebug"
  from assms have fin: "pl_ingest s = IExit" "pl_frames s = []" "published s"
    by (auto simp: pipe_inv_def book_control_def)
  with assms(1) have run: "consume_frames ?H (frames_from msgs 0) ?f 0 0 =
      Inr (pl_feed s, pr_messages_parsed (pl_result s), pr_malformed (pl_result s))"
    by (auto simp: pipe_inv_def pending_def)
  obtain items c st where sc: "scan 0 msgs = (items, c, st)" by (metis prod_cases3)
  from frames_items [of 0 msgs] sc obtain js where js:
    "list_all2 frame_item (frames_from msgs 0) js" "filter is_delivery js = filter is_delivery items"
    "rejections items = rejections js + withheld msgs"
    by auto
  from run consume_frames_items [OF js(1), of ?H ?f 0 0] obtain g where g:
    "run_items (fh_handler ?H) js ?f = Inr g"
    "pl_feed s = g\<lparr>fh_malformed := fh_malformed ?f + of_nat (rejections js)\<rparr>"
    "pr_messages_parsed (pl_result s) = of_nat (deliveries js)"
    by (auto simp: ebind_eq_Inr_iff)
  from run consume_frames_items [OF js(1), of ?H ?f 0 0] g(1)
  have bad: "pr_malformed (pl_result s) = of_nat (rejections js)" by simp
  have "builder_inv ndebug (down ?f)"
    using pipe_inv_init [of ndebug msgs]
    by (simp add: pipe_inv_def pipeline_init_def threads_init_def threads.defs pipe_feed_def)
  then obtain f rep where f: "consume ?H msgs ?f = Inr (f, rep)"
    using builder.consume_safe [of ?f ndebug msgs] by (auto simp: builder_inv_def)
  have "residual ?f = []" by (simp add: pipe_feed_def)
  with consume_InrE [OF f] sc obtain h where h: "run_items (fh_handler ?H) items ?f = Inr h"
    "\<exists>b n. f = with_buffer b n h" "messages rep = deliveries items" "malformed rep = rejections items"
    by (metis append_Nil ParseResult.simps(2,3))
  from run_same_deliveries [OF g(1) h(1) js(2)] have "same_results (pl_feed s) f"
    using h(2) by (auto simp: g(2) same_results_malformed)
  moreover have "bst_malformed (bb_stats (down ?f)) = 0"
    by (simp add: pipe_feed_def set_verify_def BookBuilder_init_def BookStats_init_def)
  with feed_counts_malformed [OF g(1)] feed_counts_malformed [OF h(1)] h(2) g(2)
  have "bst_malformed (bb_stats (down (pl_feed s))) = of_nat (rejections js)"
    "bst_malformed (bb_stats (down f)) = of_nat (rejections items)" by auto
  moreover have "deliveries js = deliveries items" using js(2) by (simp add: deliveries_def)
  ultimately show ?thesis
    using f fin(3) g(3) bad h(3,4) js(3) by simp
qed

text \<open>
  The same for the fields the pipeline publishes. All of \<open>BookBuilder::Stats\<close> are those of the
  single-threaded path but for the malformed ones, which lack exactly the withheld frames.
\<close>

lemma published_results:
  assumes "pipe_inv ndebug msgs s" and "pl_book s = BExit"
  shows "\<exists>f rep. consume (bb_handler ndebug) msgs
      (FeedHandler_init (set_verify False (BookBuilder_init ndebug))) = Inr (f, rep) \<and>
    pl_fingerprint s = book_fingerprint (bb_manager (down f)) \<and>
    pl_symbol_count s = symbol_count (bb_manager (down f)) \<and>
    pl_stats s = (bb_stats (down f))\<lparr>bst_malformed := pr_malformed (pl_result s)\<rparr> \<and>
    pr_messages_parsed (pl_result s) = of_nat (messages rep) \<and>
    bst_malformed (bb_stats (down f)) = of_nat (malformed rep) \<and>
    pr_malformed (pl_result s) + of_nat (withheld msgs) = of_nat (malformed rep)"
  using finished_books [OF assms] by (fastforce simp: pipe_feed_def same_results_def published_def)

text \<open>Runs compose.\<close>

lemma pipe_reach_trans:
  assumes "pipe_reach ndebug cfg cf ct msgs s0 (Inr s)"
  shows "pipe_reach ndebug cfg cf ct msgs s r \<Longrightarrow> pipe_reach ndebug cfg cf ct msgs s0 r"
  by (induction rule: pipe_reach.induct) (use assms in \<open>auto intro: pipe_reach.intros\<close>)

lemma pipe_reach_step:
  "pipe_step ndebug cfg cf ct msgs s (Inr s1) \<Longrightarrow> pipe_reach ndebug cfg cf ct msgs s1 r \<Longrightarrow>
     pipe_reach ndebug cfg cf ct msgs s r"
  by (rule pipe_reach_trans [OF pipe_reach.pipe_next [OF pipe_reach.pipe_here]])

section \<open>The three threads can always finish\<close>

text \<open>
  What is left to do: frames still to push or to pop, then the book thread's way to its exit,
  then the analytics thread's. The schedule behind it lets ingestion run while it can, then the
  book thread, then analytics.
\<close>

definition ingest_left :: "byte list \<Rightarrow> pipeline \<Rightarrow> nat" where
  "ingest_left msgs s = length (pl_frames s) + (case pl_ingest s of
       IScan off \<Rightarrow> 3 * (length msgs - off) + 3
     | IPush off fr \<Rightarrow> 3 * (length msgs - off) + 5
     | IDone \<Rightarrow> 1
     | IExit \<Rightarrow> 0)"

definition book_left :: "pipeline \<Rightarrow> nat" where
  "book_left s =
     (let nt = length (ticks_of (bb_manager (down (pl_feed s))))
      in if pl_frames s \<noteq> [] then
           (case pl_book s of BPop \<Rightarrow> 0 | BEmit ts final \<Rightarrow> length ts + 1 | _ \<Rightarrow> 1)
         else
           (case pl_book s of
              BEmit ts final \<Rightarrow> if final then length ts + 2 else length ts + nt + 7
            | BPop \<Rightarrow> nt + 6
            | BFlag \<Rightarrow> nt + 5
            | BEmpty \<Rightarrow> nt + 4
            | BFinish \<Rightarrow> 1
            | BExit \<Rightarrow> 0))"

definition analytics_left :: "pipeline \<Rightarrow> nat" where
  "analytics_left s = 4 * length (pl_ticks s) +
     (if pl_ticks s \<noteq> [] then (if pl_analytics s = APop then 0 else 1)
      else case pl_analytics s of APop \<Rightarrow> 3 | AFlag \<Rightarrow> 2 | AEmpty \<Rightarrow> 1 | AExit \<Rightarrow> 0)"

definition closer :: "byte list \<Rightarrow> (pipeline \<times> pipeline) set" where
  "closer msgs = inv_image (less_than <*lex*> less_than <*lex*> less_than)
     (\<lambda>s. (ingest_left msgs s, book_left s, analytics_left s))"

lemma wf_closer: "wf (closer msgs)"
  unfolding closer_def by (intro wf_inv_image wf_lex_prod wf_less_than)

lemma closerI:
  "ingest_left msgs s' < ingest_left msgs s \<Longrightarrow> (s', s) \<in> closer msgs"
  "ingest_left msgs s' = ingest_left msgs s \<Longrightarrow> book_left s' < book_left s \<Longrightarrow> (s', s) \<in> closer msgs"
  "ingest_left msgs s' = ingest_left msgs s \<Longrightarrow> book_left s' = book_left s \<Longrightarrow>
     analytics_left s' < analytics_left s \<Longrightarrow> (s', s) \<in> closer msgs"
  by (simp_all add: closer_def)

lemma progressI:
  "pipe_step ndebug cfg cf ct msgs s (Inr s') \<Longrightarrow> (s', s) \<in> closer msgs \<Longrightarrow>
     \<exists>s'. pipe_step ndebug cfg cf ct msgs s (Inr s') \<and> (s', s) \<in> closer msgs"
  by blast

lemmas left_defs = ingest_left_def book_left_def analytics_left_def Let_def

lemma scan_left:
  assumes "pipe_inv ndebug msgs s" and "pl_ingest s = IScan off" and "ingest_scan msgs off = Inr pc"
  shows "ingest_left msgs (s\<lparr>pl_ingest := pc\<rparr>) < ingest_left msgs s"
proof -
  from assms(1,2) have "off \<le> length msgs" by (simp add: pipe_inv_def offset_ok_def)
  then show ?thesis
    using assms(2,3) by (cases rule: ingest_scan_cases) (auto simp: ingest_left_def)
qed

lemmas scan_closer = closerI(1) [OF scan_left]

lemma ingest_progress:
  assumes "pipe_inv ndebug msgs s" and "pl_ingest s \<noteq> IExit"
    and "\<And>off fr. pl_ingest s = IPush off fr \<Longrightarrow> length (pl_frames s) < cf"
  shows "\<exists>s'. pipe_step ndebug cfg cf ct msgs s (Inr s') \<and> (s', s) \<in> closer msgs"
proof (cases "pl_ingest s")
  case (IScan off)
  from i_scan_inv [OF assms(1) IScan] obtain pc where pc: "ingest_scan msgs off = Inr pc" by blast
  from scan_closer [OF assms(1) IScan pc] pipe_step.i_scan [OF IScan, of ndebug cfg cf ct msgs] pc
  show ?thesis by auto
next
  case (IPush off fr)
  with assms(3) have "fifo_enq cf fr (pl_frames s) = Some (pl_frames s @ [fr])"
    by (simp add: fifo_enq_def)
  show ?thesis
    by (rule progressI [OF pipe_step.i_push [OF IPush \<open>fifo_enq _ _ _ = _\<close>] closerI(1)])
      (simp add: left_defs IPush)
next
  case IDone
  show ?thesis
    by (rule progressI [OF pipe_step.i_done [OF IDone] closerI(1)]) (simp add: left_defs IDone)
qed (use assms in simp)

lemma book_progress:
  assumes "pipe_inv ndebug msgs s" and "pc_analytics_every cfg \<noteq> 0" and "pl_book s \<noteq> BExit"
    and "pl_frames s \<noteq> [] \<or> pl_ingest s = IExit"
  shows "\<exists>s'. pipe_step ndebug cfg cf ct msgs s (Inr s') \<and> (s', s) \<in> closer msgs"
proof (cases "pl_book s")
  case BPop
  show ?thesis
  proof (cases "pl_frames s")
    case Nil
    show ?thesis
      by (rule progressI [OF pipe_step.b_refused [OF BPop] closerI(2)]) (simp_all add: left_defs BPop Nil)
  next
    case (Cons fr q)
    then have deq: "fifo_deq (pl_frames s) = Some (fr, q)" by (simp add: fifo_deq_def)
    from b_pop_inv [OF assms(1) BPop deq assms(2)] obtain s' where s':
      "book_frame ndebug cfg fr (s\<lparr>pl_frames := q\<rparr>) = Inr s'" "pl_frames s' = q"
      "pl_ingest s' = pl_ingest s" by blast
    have "pipe_step ndebug cfg cf ct msgs s (Inr s')"
      using pipe_step.b_pop [OF BPop deq, of ndebug cfg cf ct msgs] by (simp only: s'(1))
    then show ?thesis
      by (rule progressI [OF _ closerI(1)]) (simp add: ingest_left_def s' Cons)
  qed
next
  case BFlag
  show ?thesis
  proof (cases "pl_frames s")
    case Nil
    with assms(1,4) have "pl_ingest_done s" by (auto simp: pipe_inv_def)
    then show ?thesis
      by (intro progressI [OF pipe_step.b_flag [OF BFlag] closerI(2)]) (simp_all add: left_defs BFlag Nil)
  next
    case (Cons fr q)
    show ?thesis
      by (rule progressI [OF pipe_step.b_running [OF BFlag] closerI(2)]) (simp_all add: left_defs BFlag Cons)
  qed
next
  case BEmpty
  show ?thesis
  proof (cases "pl_frames s = []")
    case True
    show ?thesis
      by (rule progressI [OF pipe_step.b_last [OF BEmpty True] closerI(2)]) (simp_all add: left_defs BEmpty True)
  next
    case False
    show ?thesis
      by (rule progressI [OF pipe_step.b_more [OF BEmpty False] closerI(2)]) (simp_all add: left_defs BEmpty False)
  qed
next
  case (BEmit ts final)
  show ?thesis
  proof (cases ts)
    case Nil
    then have "pl_book s = BEmit [] final" using BEmit by simp
    from assms(1) BEmit show ?thesis
      by (intro progressI [OF pipe_step.b_emitted [OF \<open>pl_book s = BEmit [] final\<close>] closerI(2)])
        (auto simp: left_defs BEmit Nil pipe_inv_def book_control_def)
  next
    case (Cons t ts')
    then have "pl_book s = BEmit (t # ts') final" using BEmit by simp
    show ?thesis
      by (rule progressI [OF pipe_step.b_drop [OF \<open>pl_book s = BEmit (t # ts') final\<close>] closerI(2)])
        (auto simp: left_defs BEmit Cons)
  qed
next
  case BFinish
  with assms(1) have "pl_frames s = []" by (simp add: pipe_inv_def book_control_def)
  then show ?thesis
    by (intro progressI [OF pipe_step.b_finish [OF BFinish] closerI(2)])
      (simp_all add: left_defs BFinish book_finish_def)
qed (use assms in simp)

lemma analytics_progress:
  assumes "pipe_inv ndebug msgs s" and "pl_book s = BExit" and "pl_analytics s \<noteq> AExit"
  shows "\<exists>s'. pipe_step ndebug cfg cf ct msgs s (Inr s') \<and> (s', s) \<in> closer msgs"
proof -
  from assms(1,2) have fin: "pl_book_done s" by (simp add: pipe_inv_def)
  show ?thesis
  proof (cases "pl_analytics s")
    case APop
    show ?thesis
    proof (cases "pl_ticks s")
      case Nil
      show ?thesis
        by (rule progressI [OF pipe_step.a_refused [OF APop] closerI(3)]) (simp_all add: left_defs APop Nil)
    next
      case (Cons t q)
      then have "fifo_deq (pl_ticks s) = Some (t, q)" by (simp add: fifo_deq_def)
      then show ?thesis
        by (intro progressI [OF pipe_step.a_pop [OF APop] closerI(3)]) (auto simp: left_defs APop Cons)
    qed
  next
    case AFlag
    show ?thesis
    proof (cases "pl_ticks s = []")
      case True
      show ?thesis
        by (rule progressI [OF pipe_step.a_flag [OF AFlag fin] closerI(3)]) (simp_all add: left_defs AFlag True)
    next
      case False
      show ?thesis
        by (rule progressI [OF pipe_step.a_running [OF AFlag] closerI(3)]) (simp_all add: left_defs AFlag False)
    qed
  next
    case AEmpty
    show ?thesis
    proof (cases "pl_ticks s = []")
      case True
      show ?thesis
        by (rule progressI [OF pipe_step.a_last [OF AEmpty True] closerI(3)]) (simp_all add: left_defs AEmpty True)
    next
      case False
      show ?thesis
        by (rule progressI [OF pipe_step.a_more [OF AEmpty False] closerI(3)]) (simp_all add: left_defs AEmpty False)
    qed
  qed (use assms in simp)
qed

lemma pipe_progress:
  assumes "pipe_inv ndebug msgs s" and "pc_analytics_every cfg \<noteq> 0" and "0 < cf"
    and "\<not> pipe_finished s"
  shows "\<exists>s'. pipe_step ndebug cfg cf ct msgs s (Inr s') \<and> (s', s) \<in> closer msgs"
proof -
  consider "pl_ingest s \<noteq> IExit" "\<And>off fr. pl_ingest s = IPush off fr \<Longrightarrow> length (pl_frames s) < cf"
    | "pl_ingest s \<noteq> IExit" "pl_frames s \<noteq> []" | "pl_ingest s = IExit"
    using assms(3) by (cases "pl_ingest s = IExit"; cases "pl_frames s") auto
  then show ?thesis
  proof cases
    case 1
    with ingest_progress [OF assms(1)] show ?thesis by blast
  next
    case 2
    with assms(1) have "pl_book s \<noteq> BExit" by (auto simp: pipe_inv_def book_control_def)
    with 2 book_progress [OF assms(1,2)] show ?thesis by blast
  next
    case 3
    with book_progress [OF assms(1,2)] analytics_progress [OF assms(1)] assms(4) show ?thesis
      by (cases "pl_book s = BExit") (auto simp: pipe_finished_def)
  qed
qed

lemma pipe_reach_finish:
  assumes "pc_analytics_every cfg \<noteq> 0" and "0 < cf"
  shows "pipe_inv ndebug msgs s \<Longrightarrow>
    \<exists>s'. pipe_reach ndebug cfg cf ct msgs s (Inr s') \<and> pipe_finished s'"
proof (induction s rule: wf_induct_rule [OF wf_closer [of msgs]])
  case (1 s)
  show ?case
  proof (cases "pipe_finished s")
    case True
    with pipe_reach.pipe_here show ?thesis by blast
  next
    case False
    from pipe_progress [OF 1(2) assms False] obtain s1 where s1:
      "pipe_step ndebug cfg cf ct msgs s (Inr s1)" "(s1, s) \<in> closer msgs" by blast
    from pipe_step_inv [OF s1(1) 1(2) assms(1)] have "pipe_inv ndebug msgs s1" by simp
    from 1(1) [OF s1(2) this] pipe_reach_step [OF s1(1)] show ?thesis by blast
  qed
qed

text \<open>A sampling period of zero divides by zero at the first frame, in whatever state it is popped.\<close>

lemma zero_period_faults:
  assumes "pc_analytics_every cfg = 0" and "builder_inv ndebug (down (pl_feed s))"
    and "frame_span fr = Inr bytes"
  shows "book_frame ndebug cfg fr s = Inl DivisionByZero"
proof -
  from builder.consume_datagram_safe [of "pl_feed s" ndebug bytes] assms(2) obtain feed r where
    "consume_datagram (bb_handler ndebug) bytes (pl_feed s) = Inr (feed, r)" by (auto simp: builder_inv_def)
  with assms(1,3) show ?thesis by (simp add: book_frame_def Let_def)
qed

section \<open>Properties\<close>

lemma pipeline_run_finish:
  assumes "pipeline_run ndebug cfg msgs (Inr s)" and "pc_analytics_every cfg \<noteq> 0"
  shows "\<exists>cf ct s'. run_capacities cfg = Some (cf, ct) \<and> pipe_reach ndebug cfg cf ct msgs s (Inr s') \<and>
    pipeline_run ndebug cfg msgs (Inr s') \<and> pipe_finished s'"
proof -
  from assms(1) obtain cf ct where run: "run_capacities cfg = Some (cf, ct)"
    "pipe_reach ndebug cfg cf ct msgs (pipeline_init ndebug) (Inr s)"
    by (auto simp: pipeline_run_def split: option.splits)
  from run_capacities_room [OF run(1)] have "0 < cf" by simp
  from pipeline_run_inv [OF assms] have "pipe_inv ndebug msgs s" by simp
  from pipe_reach_finish [OF assms(2) \<open>0 < cf\<close> this] obtain s' where
    "pipe_reach ndebug cfg cf ct msgs s (Inr s')" "pipe_finished s'" by blast
  with run pipe_reach_trans [OF run(2)] show ?thesis by (auto simp: pipeline_run_def)
qed

text \<open>The default configuration.\<close>

definition PipelineConfig_default :: PipelineConfig where
  "PipelineConfig_default =
     \<lparr>pc_frame_queue_capacity = 2 ^ 16, pc_tick_queue_capacity = 2 ^ 16, pc_analytics_every = 512\<rparr>"

lemma default_capacities: "\<exists>cf ct. run_capacities PipelineConfig_default = Some (cf, ct)"
proof -
  have "round_up_pow2 (2 ^ 16) \<noteq> None"
    by (rule round_up_pow2_cases [of "2 ^ 16"]) auto
  then show ?thesis
    by (auto simp: run_capacities_def run_queues_def PipelineConfig_default_def SPSCQueue_init_def split: option.splits)
qed

lemma default_start: "pipeline_run ndebug PipelineConfig_default msgs (Inr (pipeline_init ndebug))"
  using default_capacities by (auto simp: pipeline_run_def pipe_reach.pipe_here)

lemma default_period: "pc_analytics_every PipelineConfig_default \<noteq> 0"
  by (simp add: PipelineConfig_default_def)

text \<open>The pipeline computes what the single-threaded path computes: for any bytes, in any
  interleaving of the three threads, with any stale reads and any ticks dropped, once the book
  thread is done its fingerprint, symbol count, number of messages and event counters are
  those of one call of \<open>consume\<close> on the whole input, the malformed counters but for the withheld
  frames.\<close>

theorem pipeline_equals_sequential:
  assumes "pipeline_run ndebug cfg msgs (Inr s)" and "pc_analytics_every cfg \<noteq> 0" and "pl_book s = BExit"
  shows "\<exists>f rep. consume (bb_handler ndebug) msgs
      (FeedHandler_init (set_verify False (BookBuilder_init ndebug))) = Inr (f, rep) \<and>
    pl_fingerprint s = book_fingerprint (bb_manager (down f)) \<and>
    pl_symbol_count s = symbol_count (bb_manager (down f)) \<and>
    pl_stats s = (bb_stats (down f))\<lparr>bst_malformed := pr_malformed (pl_result s)\<rparr> \<and>
    pr_messages_parsed (pl_result s) = of_nat (messages rep) \<and>
    bst_malformed (bb_stats (down f)) = of_nat (malformed rep) \<and>
    pr_malformed (pl_result s) + of_nat (withheld msgs) = of_nat (malformed rep)"
proof -
  from pipeline_run_inv [OF assms(1,2)] have "pipe_inv ndebug msgs s" by simp
  from published_results [OF this assms(3)] show ?thesis .
qed

theorem pipeline_equals_sequential_witness:
  "\<exists>s f rep. pipeline_run True PipelineConfig_default (wire sample_messages) (Inr s) \<and>
    consume (bb_handler True) (wire sample_messages)
      (FeedHandler_init (set_verify False (BookBuilder_init True))) = Inr (f, rep) \<and>
    pl_fingerprint s = book_fingerprint (bb_manager (down f))"
proof -
  from pipeline_run_finish [OF default_start default_period] obtain s where s:
    "pipeline_run True PipelineConfig_default (wire sample_messages) (Inr s)" "pipe_finished s" by blast
  with pipeline_equals_sequential [OF s(1) default_period] show ?thesis
    by (auto simp: pipe_finished_def)
qed

text \<open>No run of the pipeline faults: whatever the bytes, the interleaving and the build, every step
  gives a state, in which the books still represent live orders.\<close>

theorem pipeline_safe:
  assumes "pipeline_run ndebug cfg msgs r" and "pc_analytics_every cfg \<noteq> 0"
  shows "\<exists>s. r = Inr s \<and> builder_ok (down (pl_feed s))"
  using pipeline_run_inv [OF assms] by (auto simp: pipe_inv_def builder_inv_def)

theorem pipeline_safe_witness:
  "\<exists>s. pipeline_run False PipelineConfig_default (wire sample_messages) (Inr s) \<and> pipe_finished s \<and>
    builder_ok (down (pl_feed s))"
proof -
  from pipeline_run_finish [OF default_start default_period] obtain s where s:
    "pipeline_run False PipelineConfig_default (wire sample_messages) (Inr s)" "pipe_finished s" by blast
  with pipeline_safe [OF s(1) default_period] show ?thesis by auto
qed

text \<open>The shutdown protocol never gets stuck: from every state a run can reach, however full the
  queues and wherever the threads are, the three threads can go on to a state in which all have
  ended.\<close>

theorem pipeline_can_finish:
  assumes "pipeline_run ndebug cfg msgs (Inr s)" and "pc_analytics_every cfg \<noteq> 0"
  shows "\<exists>cf ct s'. run_capacities cfg = Some (cf, ct) \<and> pipe_reach ndebug cfg cf ct msgs s (Inr s') \<and>
    pipe_finished s'"
  using pipeline_run_finish [OF assms] by blast

theorem pipeline_can_finish_witness:
  "\<exists>cf ct s'. run_capacities PipelineConfig_default = Some (cf, ct) \<and>
    pipe_reach True PipelineConfig_default cf ct (wire sample_messages) (pipeline_init True) (Inr s') \<and>
    pipe_finished s'"
  by (rule pipeline_can_finish [OF default_start default_period])

end
