(* ===== verification/Spsc_Client.thy ===== *)
theory Spsc_Client
  imports Spsc_Queue
begin

text \<open>
  The operations of an \<^verbatim>\<open>SPSCQueue\<close> as its clients run them among other threads: \<open>push_step\<close> and
  \<open>pop_step\<close> are the stages of one call of \<open>try_push\<close> and \<open>try_pop\<close>, with the value the call
  returns at the stage that ends it, and \<open>empty_step\<close> is a call of \<open>empty\<close> on the consumer's
  thread. Each stage is one of \<open>spsc_step\<close>, so the invariant of the queue carries over, and on
  the items in flight a call is an enqueue, a dequeue or nothing.
\<close>

section \<open>Calls in stages\<close>

inductive push_step :: "'a \<Rightarrow> 'a spsc \<Rightarrow> (bool option \<times> 'a spsc) exec \<Rightarrow> bool" for item s where
  push_begin: "producer s = PIdle \<Longrightarrow> push_step item s (Inr (None, s\<lparr>producer := PLoad item\<rparr>))"
| push_false: "producer s = PLoad item \<Longrightarrow> p_view s \<le> k \<Longrightarrow> k < length (tails (ring s)) \<Longrightarrow>
    push_full k (ring s) \<Longrightarrow> push_step item s (Inr (Some False, s\<lparr>producer := PIdle, p_view := k\<rparr>))"
| push_go: "producer s = PLoad item \<Longrightarrow> p_view s \<le> k \<Longrightarrow> k < length (tails (ring s)) \<Longrightarrow>
    \<not> push_full k (ring s) \<Longrightarrow> push_step item s (Inr (None, s\<lparr>producer := PWrite item, p_view := k\<rparr>))"
| push_store: "producer s = PWrite item \<Longrightarrow> push_step item s
    (ebind (push_write item (ring s)) (\<lambda>q. Inr (None, s\<lparr>producer := PStore item, ring := q\<rparr>)))"
| push_true: "producer s = PStore item \<Longrightarrow> push_step item s
    (Inr (Some True, s\<lparr>producer := PIdle, ring := push_publish (ring s), pushed := pushed s @ [item]\<rparr>))"

text \<open>The call of \<open>try_pop\<close> ends with \<open>Some None\<close>, the empty queue, or \<open>Some\<close> of an item.\<close>

inductive pop_step :: "'a spsc \<Rightarrow> ('a option option \<times> 'a spsc) exec \<Rightarrow> bool" for s where
  pop_begin: "consumer s = CIdle \<Longrightarrow> pop_step s (Inr (None, s\<lparr>consumer := CLoad\<rparr>))"
| pop_false: "consumer s = CLoad \<Longrightarrow> c_view s \<le> k \<Longrightarrow> k < length (heads (ring s)) \<Longrightarrow>
    pop_empty k (ring s) \<Longrightarrow> pop_step s (Inr (Some None, s\<lparr>consumer := CIdle, c_view := k\<rparr>))"
| pop_go: "consumer s = CLoad \<Longrightarrow> c_view s \<le> k \<Longrightarrow> k < length (heads (ring s)) \<Longrightarrow>
    \<not> pop_empty k (ring s) \<Longrightarrow> pop_step s (Inr (None, s\<lparr>consumer := CRead, c_view := k\<rparr>))"
| pop_fetch: "consumer s = CRead \<Longrightarrow>
    pop_step s (ebind (pop_read (ring s)) (\<lambda>out. Inr (None, s\<lparr>consumer := CStore out\<rparr>)))"
| pop_true: "consumer s = CStore out \<Longrightarrow> pop_step s
    (Inr (Some (Some out), s\<lparr>consumer := CIdle, ring := pop_release (ring s), popped := popped s @ [out]\<rparr>))"

inductive empty_step :: "'a spsc \<Rightarrow> bool \<times> 'a spsc \<Rightarrow> bool" for s where
  empty_load: "c_view s \<le> k \<Longrightarrow> k < length (heads (ring s)) \<Longrightarrow>
    empty_step s (pop_empty k (ring s), s\<lparr>c_view := k\<rparr>)"

text \<open>What an acquire that reads a release of the producer's thread does to the consumer's view:
  every head stored so far is visible from now on.\<close>

definition see_heads :: "'a spsc \<Rightarrow> 'a spsc" where
  "see_heads s = s\<lparr>c_view := length (heads (ring s)) - 1\<rparr>"

text \<open>The item of the call the producer is in.\<close>

fun pushing :: "'a producer \<Rightarrow> 'a option" where
  "pushing PIdle = None"
| "pushing (PLoad item) = Some item"
| "pushing (PWrite item) = Some item"
| "pushing (PStore item) = Some item"

section \<open>Their effect on the items in flight\<close>

lemma Inr_eq_ebind_iff: "Inr y = ebind m f \<longleftrightarrow> (\<exists>x. m = Inr x \<and> f x = Inr y)"
  by (cases m) auto

lemma push_step_spsc: "push_step item s x \<Longrightarrow> spsc_step s (ebind x (\<lambda>(res, s'). Inr s'))"
  by (induction rule: push_step.induct) (auto simp: ebind_assoc intro: spsc_step.intros)

lemma pop_step_spsc: "pop_step s x \<Longrightarrow> spsc_step s (ebind x (\<lambda>(res, s'). Inr s'))"
  by (induction rule: pop_step.induct) (auto simp: ebind_assoc intro: spsc_step.intros)

lemma push_step_ok:
  assumes "push_step item s x" and "spsc_inv e s" and "e \<le> 64"
  obtains res s' where "x = Inr (res, s')" and "spsc_inv e s'"
    and "popped s' = popped s" and "c_view s' = c_view s" and "consumer s' = consumer s"
    and "pushing (producer s') = (if res = None then Some item else None)"
    and "if res = Some True then fifo_enq (2 ^ e - 1) item (in_flight s) = Some (in_flight s')
         else in_flight s' = in_flight s \<and> pushed s' = pushed s"
proof -
  from spsc_step_inv [OF push_step_spsc [OF assms(1)] assms(2,3)] obtain res s' where s':
    "x = Inr (res, s')" "spsc_inv e s'" by (auto simp: ebind_eq_Inr_iff)
  from assms(1) s'(1) have "popped s' = popped s" "c_view s' = c_view s" "consumer s' = consumer s"
    "pushing (producer s') = (if res = None then Some item else None)"
    "pushed s' = (if res = Some True then pushed s @ [item] else pushed s)"
    by (auto simp: Inr_eq_ebind_iff elim!: push_step.cases)
  with s' in_flight_enq [OF assms(2) s'(2), of item] show thesis
    by (intro that [OF s']) (auto simp: in_flight_def)
qed

lemma push_step_keeps:
  assumes "push_step item s (Inr (res, s'))" and "spsc_inv e s" and "e \<le> 64"
  shows "consumer s' = consumer s"
    and "if res = Some True then fifo_enq (2 ^ e - 1) item (in_flight s) = Some (in_flight s')
         else in_flight s' = in_flight s"
  by (rule push_step_ok [OF assms]; simp split: if_splits)+

lemma pop_step_ok:
  assumes "pop_step s x" and "spsc_inv e s" and "e \<le> 64"
  obtains res s' where "x = Inr (res, s')" and "spsc_inv e s'"
    and "pushed s' = pushed s" and "p_view s' = p_view s" and "producer s' = producer s"
    and "case res of
           Some (Some item) \<Rightarrow> fifo_deq (in_flight s) = Some (item, in_flight s')
         | _ \<Rightarrow> in_flight s' = in_flight s"
proof -
  from spsc_step_inv [OF pop_step_spsc [OF assms(1)] assms(2,3)] obtain res s' where s':
    "x = Inr (res, s')" "spsc_inv e s'" by (auto simp: ebind_eq_Inr_iff)
  from assms(1) s'(1) have same: "pushed s' = pushed s" "p_view s' = p_view s" "producer s' = producer s"
    "popped s' = (case res of Some (Some item) \<Rightarrow> popped s @ [item] | _ \<Rightarrow> popped s)"
    by (auto simp: Inr_eq_ebind_iff elim!: pop_step.cases)
  from same in_flight_deq [OF s'(2) same(1)] show thesis
    by (intro that [OF s']) (auto simp: in_flight_def split: option.splits)
qed

lemma pop_step_keeps:
  assumes "pop_step s (Inr (res, s'))" and "spsc_inv e s" and "e \<le> 64"
  shows "producer s' = producer s"
    and "case res of
           Some (Some item) \<Rightarrow> fifo_deq (in_flight s) = Some (item, in_flight s')
         | _ \<Rightarrow> in_flight s' = in_flight s"
  by (rule pop_step_ok [OF assms]; simp)+

text \<open>With every head visible \<open>empty\<close> is exact.\<close>

lemma empty_step_ok:
  assumes "empty_step s (b, s')" and "spsc_inv e s" and "e \<le> 64"
  shows "spsc_inv e s'" and "in_flight s' = in_flight s" and "pushed s' = pushed s" and "producer s' = producer s"
    and "c_view s = length (pushed s) \<Longrightarrow> b \<longleftrightarrow> in_flight s = []"
proof -
  from assms(2) have inv: "ring_counts e (length (pushed s)) (length (popped s)) (ring s)"
    "length (popped s) \<le> c_view s" "c_view s \<le> length (pushed s)"
    "length (pushed s) < length (popped s) + 2 ^ e" by (auto simp: spsc_inv_def Let_def)
  note counts = ring_counts_simps [OF inv(1) assms(3)]
  from assms(1) obtain k where k: "c_view s \<le> k" "k \<le> length (pushed s)"
    "b = pop_empty k (ring s)" "s' = s\<lparr>c_view := k\<rparr>" by cases (auto simp: counts)
  then show "in_flight s' = in_flight s" "pushed s' = pushed s" "producer s' = producer s"
    by (simp_all add: in_flight_def)
  have "consumer_ok (length (popped s)) k (pushed s) (consumer s)"
    using assms(2) k(1) by (cases "consumer s") (auto simp: spsc_inv_def Let_def)
  with assms(2) k show "spsc_inv e s'" by (simp add: spsc_inv_def Let_def)
  assume "c_view s = length (pushed s)"
  with k have "k = length (pushed s)" by simp
  with k(3) inv(2-4) slots_differ [of "length (popped s)" "length (pushed s)" "2 ^ e"]
  show "b \<longleftrightarrow> in_flight s = []"
    by (cases "length (popped s) = length (pushed s)") (auto simp: counts in_flight_def)
qed

lemma see_heads_ok:
  assumes "spsc_inv e s" and "e \<le> 64"
  shows "spsc_inv e (see_heads s)" and "in_flight (see_heads s) = in_flight s"
    and "pushed (see_heads s) = pushed s" and "popped (see_heads s) = popped s"
    and "c_view (see_heads s) = length (pushed s)" and "producer (see_heads s) = producer s"
proof -
  from assms(1) have "ring_counts e (length (pushed s)) (length (popped s)) (ring s)"
    by (simp add: spsc_inv_def Let_def)
  note counts = ring_counts_simps [OF this assms(2)]
  show "in_flight (see_heads s) = in_flight s" "pushed (see_heads s) = pushed s"
    "popped (see_heads s) = popped s" "c_view (see_heads s) = length (pushed s)"
    "producer (see_heads s) = producer s"
    by (simp_all add: see_heads_def in_flight_def counts)
  have "consumer_ok (length (popped s)) (length (pushed s)) (pushed s) (consumer s)"
    using assms(1) by (cases "consumer s") (auto simp: spsc_inv_def Let_def)
  with assms(1) show "spsc_inv e (see_heads s)"
    by (simp add: spsc_inv_def Let_def see_heads_def counts)
qed

section \<open>A call can be finished\<close>

text \<open>The stages a call has left.\<close>

fun push_left :: "'a producer \<Rightarrow> nat" where
  "push_left PIdle = 4"
| "push_left (PLoad item) = 3"
| "push_left (PWrite item) = 2"
| "push_left (PStore item) = 1"

fun pop_left :: "'a consumer \<Rightarrow> nat" where
  "pop_left CIdle = 4"
| "pop_left CLoad = 3"
| "pop_left CRead = 2"
| "pop_left (CStore out) = 1"

text \<open>A push can take its next stage, and one that meets room at its latest load succeeds.\<close>

lemma push_step_exists:
  assumes "spsc_inv e s" and "e \<le> 64" and "pushing (producer s) \<in> {None, Some item}"
  shows "\<exists>res s'. push_step item s (Inr (res, s')) \<and> (res = None \<longrightarrow> push_left (producer s') < push_left (producer s)) \<and>
    (res = Some False \<longrightarrow> length (in_flight s) = 2 ^ e - 1)"
proof -
  let ?np = "length (pushed s)" and ?nc = "length (popped s)"
  from assms(1) have inv: "ring_counts e ?np ?nc (ring s)" "ring_holds e ?nc (pushed s) (ring s)"
    "p_view s \<le> ?nc" "?nc \<le> ?np" "?np < ?nc + 2 ^ e" by (auto simp: spsc_inv_def Let_def)
  note counts = ring_counts_simps [OF inv(1) assms(2)]
  from assms(3) consider "producer s = PIdle" | "producer s = PLoad item" | "producer s = PWrite item"
    | "producer s = PStore item" by (cases "producer s") auto
  then show ?thesis
  proof cases
    case 1
    from push_begin [OF 1, of item] show ?thesis
      by (intro exI [of _ None] exI [of _ "s\<lparr>producer := PLoad item\<rparr>"]) (simp add: 1)
  next
    case 2
    have k: "p_view s \<le> ?nc" "?nc < length (tails (ring s))" using inv(3) counts(4) by simp_all
    show ?thesis
    proof (cases "push_full ?nc (ring s)")
      case True
      then have "Suc ?np mod 2 ^ e = ?nc mod 2 ^ e" by (simp add: counts)
      with inv(4,5) slots_differ [of ?nc "Suc ?np" "2 ^ e"] have "length (in_flight s) = 2 ^ e - 1"
        by (cases "Suc ?np = ?nc + 2 ^ e") (auto simp: in_flight_def)
      with push_false [OF 2 k True] show ?thesis by (metis option.distinct(1))
    next
      case False
      from push_go [OF 2 k False] show ?thesis
        by (intro exI [of _ None] exI [of _ "s\<lparr>producer := PWrite item, p_view := ?nc\<rparr>"]) (simp add: 2)
    qed
  next
    case 3
    with assms(1) inv(3) have "?np + 1 < ?nc + 2 ^ e" by (simp add: spsc_inv_def Let_def)
    from push_write_ok [OF inv(1) assms(2) refl inv(2) this, of item] obtain q where
      "push_write item (ring s) = Inr q" by metis
    with push_store [OF 3] show ?thesis
      by (intro exI [of _ None] exI [of _ "s\<lparr>producer := PStore item, ring := q\<rparr>"]) (simp add: 3)
  next
    case 4
    from push_true [OF 4] show ?thesis by (metis option.distinct(1) option.inject)
  qed
qed

text \<open>So can a pop, which finds the queue empty only when nothing is in flight.\<close>

lemma pop_step_exists:
  assumes "spsc_inv e s" and "e \<le> 64"
  shows "\<exists>res s'. pop_step s (Inr (res, s')) \<and> (res = None \<longrightarrow> pop_left (consumer s') < pop_left (consumer s)) \<and>
    (res = Some None \<longrightarrow> in_flight s = [])"
proof -
  let ?np = "length (pushed s)" and ?nc = "length (popped s)"
  from assms(1) have inv: "ring_counts e ?np ?nc (ring s)" "ring_holds e ?nc (pushed s) (ring s)"
    "c_view s \<le> ?np" "?nc \<le> ?np" "?np < ?nc + 2 ^ e" by (auto simp: spsc_inv_def Let_def)
  note counts = ring_counts_simps [OF inv(1) assms(2)]
  show ?thesis
  proof (cases "consumer s")
    case CIdle
    from pop_begin [OF CIdle] show ?thesis
      by (intro exI [of _ None] exI [of _ "s\<lparr>consumer := CLoad\<rparr>"]) (simp add: CIdle)
  next
    case CLoad
    have k: "c_view s \<le> ?np" "?np < length (heads (ring s))" using inv(3) counts(3) by simp_all
    show ?thesis
    proof (cases "pop_empty ?np (ring s)")
      case True
      then have "?nc mod 2 ^ e = ?np mod 2 ^ e" by (simp add: counts)
      with inv(4,5) slots_differ [of ?nc ?np "2 ^ e"] have "?nc = ?np" by (metis le_neq_implies_less)
      then have "in_flight s = []" by (simp add: in_flight_def)
      with pop_false [OF CLoad k True] show ?thesis
        by (intro exI [of _ "Some None"] exI [of _ "s\<lparr>consumer := CIdle, c_view := ?np\<rparr>"]) simp
    next
      case False
      from pop_go [OF CLoad k False] show ?thesis
        by (intro exI [of _ None] exI [of _ "s\<lparr>consumer := CRead, c_view := ?np\<rparr>"]) (simp add: CLoad)
    qed
  next
    case CRead
    with assms(1) have "?nc < ?np" by (auto simp: spsc_inv_def Let_def)
    from pop_read_ok [OF inv(1) assms(2) inv(2) this] pop_fetch [OF CRead] show ?thesis
      by (intro exI [of _ None] exI [of _ "s\<lparr>consumer := CStore (pushed s ! ?nc)\<rparr>"]) (simp add: CRead)
  next
    case (CStore out)
    from pop_true [OF CStore] show ?thesis
      by (intro exI [of _ "Some (Some out)"] exI) auto
  qed
qed

text \<open>So can a test for empty.\<close>

lemma empty_step_exists:
  assumes "spsc_inv e s" and "e \<le> 64"
  shows "\<exists>b s'. empty_step s (b, s')"
proof -
  from assms(1) have "ring_counts e (length (pushed s)) (length (popped s)) (ring s)"
    "c_view s \<le> length (pushed s)" by (simp_all add: spsc_inv_def Let_def)
  with ring_counts_simps(3) [OF this(1) assms(2)] empty_load [of s "length (pushed s)"] show ?thesis
    by auto
qed

end
