(* ===== verification/Pipeline_Rings.thy ===== *)
theory Pipeline_Rings
  imports Pipeline_Results Spsc_Client
begin

text \<open>
  \<^verbatim>\<open>ConcurrentPipeline::run\<close> over its two \<^verbatim>\<open>SPSCQueue\<close>s as they are: the threads of \<open>Pipeline\<close> with
  every load, slot access and release store of the rings as a step of its own, interleaved with
  everything the other threads do. The flag stores are releases and the flag loads acquires: a
  thread that reads a flag as set sees all heads stored before. A simulation shows that each such
  step is one of \<open>pipe_step\<close> on the items in flight, or leaves them alone, so the results of the
  pipeline over sequences hold for the pipeline over rings, and no slot access is out of range.
\<close>

section \<open>The threads over the rings\<close>

record rings = threads +
  rp_frames :: "Frame spsc"
  rp_ticks :: "Tick spsc"

definition rings_init :: "bool \<Rightarrow> Frame ring \<Rightarrow> Tick ring \<Rightarrow> rings" where
  "rings_init ndebug frames ticks = threads.extend (threads_init ndebug)
     \<lparr>rp_frames = spsc_init frames, rp_ticks = spsc_init ticks\<rparr>"

text \<open>A step of one thread: \<open>ri\<close> rules are the ingestion thread's, \<open>rb\<close> the book thread's, \<open>ra\<close> those of
  analytics. \<open>ring_step\<close> lets any thread take it.\<close>

datatype thread = Ingest | Book | Analytics

inductive thread_step ::
  "bool \<Rightarrow> PipelineConfig \<Rightarrow> byte list \<Rightarrow> rings \<Rightarrow> thread \<Rightarrow> rings exec \<Rightarrow> bool"
  for ndebug cfg msgs s where
  ri_scan: "pl_ingest s = IScan off \<Longrightarrow> thread_step ndebug cfg msgs s Ingest
    (ebind (ingest_scan msgs off) (\<lambda>pc. Inr (s\<lparr>pl_ingest := pc\<rparr>)))"
| ri_push: "pl_ingest s = IPush off fr \<Longrightarrow> push_step fr (rp_frames s) x \<Longrightarrow> thread_step ndebug cfg msgs s Ingest
    (ebind x (\<lambda>(res, q). Inr (if res = Some True then s\<lparr>rp_frames := q, pl_ingest := IScan off\<rparr>
                              else s\<lparr>rp_frames := q\<rparr>)))"
| ri_done: "pl_ingest s = IDone \<Longrightarrow>
    thread_step ndebug cfg msgs s Ingest (Inr (s\<lparr>pl_ingest_done := True, pl_ingest := IExit\<rparr>))"
| rb_pop: "pl_book s = BPop \<Longrightarrow> pop_step (rp_frames s) x \<Longrightarrow> thread_step ndebug cfg msgs s Book
    (ebind x (\<lambda>(res, q). case res of
       None \<Rightarrow> Inr (s\<lparr>rp_frames := q\<rparr>)
     | Some None \<Rightarrow> Inr (s\<lparr>rp_frames := q, pl_book := BFlag\<rparr>)
     | Some (Some fr) \<Rightarrow> book_frame ndebug cfg fr (s\<lparr>rp_frames := q\<rparr>)))"
| rb_running: "pl_book s = BFlag \<Longrightarrow> thread_step ndebug cfg msgs s Book (Inr (s\<lparr>pl_book := BPop\<rparr>))"
| rb_flag: "pl_book s = BFlag \<Longrightarrow> pl_ingest_done s \<Longrightarrow> thread_step ndebug cfg msgs s Book
    (Inr (s\<lparr>pl_book := BEmpty, rp_frames := see_heads (rp_frames s)\<rparr>))"
| rb_empty: "pl_book s = BEmpty \<Longrightarrow> empty_step (rp_frames s) (b, q) \<Longrightarrow> thread_step ndebug cfg msgs s Book
    (Inr (s\<lparr>rp_frames := q, pl_book :=
       if b then BEmit (ticks_of (bb_manager (down (pl_feed s)))) True else BPop\<rparr>))"
| rb_tick: "pl_book s = BEmit (t # ts) final \<Longrightarrow> push_step t (rp_ticks s) x \<Longrightarrow> thread_step ndebug cfg msgs s Book
    (ebind x (\<lambda>(res, q). Inr (if res = None then s\<lparr>rp_ticks := q\<rparr>
                              else s\<lparr>rp_ticks := q, pl_book := BEmit ts final\<rparr>)))"
| rb_emitted: "pl_book s = BEmit [] final \<Longrightarrow>
    thread_step ndebug cfg msgs s Book (Inr (s\<lparr>pl_book := if final then BFinish else BPop\<rparr>))"
| rb_finish: "pl_book s = BFinish \<Longrightarrow> thread_step ndebug cfg msgs s Book (Inr (book_finish s))"
| ra_pop: "pl_analytics s = APop \<Longrightarrow> pop_step (rp_ticks s) x \<Longrightarrow> thread_step ndebug cfg msgs s Analytics
    (ebind x (\<lambda>(res, q). Inr (case res of
       None \<Rightarrow> s\<lparr>rp_ticks := q\<rparr>
     | Some None \<Rightarrow> s\<lparr>rp_ticks := q, pl_analytics := AFlag\<rparr>
     | Some (Some t) \<Rightarrow> s\<lparr>rp_ticks := q, pl_last_tick := t, pl_result := (pl_result s)
         \<lparr>pr_analytics_events := pr_analytics_events (pl_result s) + 1\<rparr>\<rparr>)))"
| ra_running: "pl_analytics s = AFlag \<Longrightarrow> thread_step ndebug cfg msgs s Analytics (Inr (s\<lparr>pl_analytics := APop\<rparr>))"
| ra_flag: "pl_analytics s = AFlag \<Longrightarrow> pl_book_done s \<Longrightarrow> thread_step ndebug cfg msgs s Analytics
    (Inr (s\<lparr>pl_analytics := AEmpty, rp_ticks := see_heads (rp_ticks s)\<rparr>))"
| ra_empty: "pl_analytics s = AEmpty \<Longrightarrow> empty_step (rp_ticks s) (b, q) \<Longrightarrow> thread_step ndebug cfg msgs s Analytics
    (Inr (s\<lparr>rp_ticks := q, pl_analytics := if b then AExit else APop\<rparr>))"

definition ring_step ::
  "bool \<Rightarrow> PipelineConfig \<Rightarrow> byte list \<Rightarrow> rings \<Rightarrow> rings exec \<Rightarrow> bool" where
  "ring_step ndebug cfg msgs s r \<longleftrightarrow> (\<exists>who. thread_step ndebug cfg msgs s who r)"

lemma ring_stepI: "thread_step ndebug cfg msgs s who r \<Longrightarrow> ring_step ndebug cfg msgs s r"
  by (auto simp: ring_step_def)

inductive ring_reach ::
  "bool \<Rightarrow> PipelineConfig \<Rightarrow> byte list \<Rightarrow> rings \<Rightarrow> rings exec \<Rightarrow> bool"
  for ndebug cfg msgs s0 where
  ring_here: "ring_reach ndebug cfg msgs s0 (Inr s0)"
| ring_next: "ring_reach ndebug cfg msgs s0 (Inr s) \<Longrightarrow> ring_step ndebug cfg msgs s r \<Longrightarrow>
    ring_reach ndebug cfg msgs s0 r"

text \<open>The runs of the pipeline from the construction of its queues on.\<close>

definition rings_run :: "bool \<Rightarrow> PipelineConfig \<Rightarrow> byte list \<Rightarrow> rings exec \<Rightarrow> bool" where
  "rings_run ndebug cfg msgs r \<longleftrightarrow> (case run_queues cfg of
       None \<Rightarrow> False
     | Some (frames, ticks) \<Rightarrow> ring_reach ndebug cfg msgs (rings_init ndebug frames ticks) r)"

section \<open>The simulation\<close>

text \<open>The pipeline over sequences that a state over rings stands for.\<close>

definition flat :: "rings \<Rightarrow> pipeline" where
  "flat s = threads.extend (threads.truncate s)
     \<lparr>pl_frames = in_flight (rp_frames s), pl_ticks = in_flight (rp_ticks s)\<rparr>"

lemma flat_simps [simp]:
  "pl_ingest (flat s) = pl_ingest s" "pl_ingest_done (flat s) = pl_ingest_done s"
  "pl_book (flat s) = pl_book s" "pl_feed (flat s) = pl_feed s"
  "pl_processed (flat s) = pl_processed s" "pl_result (flat s) = pl_result s"
  "pl_book_done (flat s) = pl_book_done s" "pl_analytics (flat s) = pl_analytics s"
  "pl_last_tick (flat s) = pl_last_tick s" "pl_fingerprint (flat s) = pl_fingerprint s"
  "pl_symbol_count (flat s) = pl_symbol_count s" "pl_stats (flat s) = pl_stats s"
  "pl_frames (flat s) = in_flight (rp_frames s)" "pl_ticks (flat s) = in_flight (rp_ticks s)"
  by (simp_all add: flat_def threads.defs)

text \<open>\<open>flat\<close> commutes with the updates of the threads' variables and drops those of the rings
  that leave the items in flight.\<close>

lemma flat_updates [simp]:
  "flat (s\<lparr>pl_ingest := a\<rparr>) = (flat s)\<lparr>pl_ingest := a\<rparr>"
  "flat (s\<lparr>pl_ingest_done := d\<rparr>) = (flat s)\<lparr>pl_ingest_done := d\<rparr>"
  "flat (s\<lparr>pl_book := b\<rparr>) = (flat s)\<lparr>pl_book := b\<rparr>"
  "flat (s\<lparr>pl_feed := f\<rparr>) = (flat s)\<lparr>pl_feed := f\<rparr>"
  "flat (s\<lparr>pl_processed := n\<rparr>) = (flat s)\<lparr>pl_processed := n\<rparr>"
  "flat (s\<lparr>pl_result := r\<rparr>) = (flat s)\<lparr>pl_result := r\<rparr>"
  "flat (s\<lparr>pl_book_done := d\<rparr>) = (flat s)\<lparr>pl_book_done := d\<rparr>"
  "flat (s\<lparr>pl_analytics := p\<rparr>) = (flat s)\<lparr>pl_analytics := p\<rparr>"
  "flat (s\<lparr>pl_last_tick := t\<rparr>) = (flat s)\<lparr>pl_last_tick := t\<rparr>"
  "flat (s\<lparr>pl_fingerprint := n\<rparr>) = (flat s)\<lparr>pl_fingerprint := n\<rparr>"
  "flat (s\<lparr>pl_symbol_count := k\<rparr>) = (flat s)\<lparr>pl_symbol_count := k\<rparr>"
  "flat (s\<lparr>pl_stats := st\<rparr>) = (flat s)\<lparr>pl_stats := st\<rparr>"
  "flat (s\<lparr>rp_frames := F\<rparr>) = (flat s)\<lparr>pl_frames := in_flight F\<rparr>"
  "flat (s\<lparr>rp_ticks := K\<rparr>) = (flat s)\<lparr>pl_ticks := in_flight K\<rparr>"
  by (simp_all add: flat_def threads.defs)

lemma flat_book_frame:
  "book_frame ndebug cfg fr (flat s) = ebind (book_frame ndebug cfg fr s) (\<lambda>s'. Inr (flat s'))"
  by (auto simp: book_frame_def Let_def ebind_assoc split_def intro!: ebind_cong)

lemma flat_book_finish: "flat (book_finish s) = book_finish (flat s)"
  by (simp add: book_finish_def)

text \<open>The book thread's frame work touches neither the rings nor the other threads.\<close>

lemma book_frame_keeps:
  assumes "book_frame ndebug cfg fr s = Inr (s' :: rings)"
  shows "rp_frames s' = rp_frames s" and "rp_ticks s' = rp_ticks s" and "pl_ingest s' = pl_ingest s"
    and "pl_ingest_done s' = pl_ingest_done s" and "pl_book_done s' = pl_book_done s"
    and "pl_analytics s' = pl_analytics s" and "pl_book s' \<noteq> BEmpty" and "pl_book s' \<noteq> BExit"
  using assms by (auto simp: book_frame_def Let_def ebind_eq_Inr_iff split: if_splits)

text \<open>The rings are sound, a producer in a call pushes the item its thread is at, a set flag means that its thread has ended, and a consumer that tests
  its queue for empty behind the flag sees every head.\<close>

definition rings_ok :: "nat \<Rightarrow> nat \<Rightarrow> rings \<Rightarrow> bool" where
  "rings_ok ef et s \<longleftrightarrow> spsc_inv ef (rp_frames s) \<and> spsc_inv et (rp_ticks s) \<and>
     (pl_ingest_done s \<longleftrightarrow> pl_ingest s = IExit) \<and> (pl_book_done s \<longleftrightarrow> pl_book s = BExit) \<and>
     (pl_book s = BEmpty \<longrightarrow> pl_ingest_done s \<and> c_view (rp_frames s) = length (pushed (rp_frames s))) \<and>
     (pl_analytics s = AEmpty \<longrightarrow> pl_book_done s \<and> c_view (rp_ticks s) = length (pushed (rp_ticks s))) \<and>
     (\<forall>fr. pushing (producer (rp_frames s)) = Some fr \<longrightarrow> (\<exists>off. pl_ingest s = IPush off fr)) \<and>
     (\<forall>t. pushing (producer (rp_ticks s)) = Some t \<longrightarrow> (\<exists>ts final. pl_book s = BEmit (t # ts) final))"

lemmas ring_defs = rings_ok_def ebind_eq_Inr_iff

text \<open>What a step over the rings is over the sequences: the same fault, the same step or nothing.\<close>

definition matched ::
  "bool \<Rightarrow> PipelineConfig \<Rightarrow> nat \<Rightarrow> nat \<Rightarrow> byte list \<Rightarrow> rings \<Rightarrow> rings exec \<Rightarrow> bool" where
  "matched ndebug cfg ef et msgs s r \<longleftrightarrow> (case r of
       Inl e \<Rightarrow> pipe_step ndebug cfg (2 ^ ef - 1) (2 ^ et - 1) msgs (flat s) (Inl e)
     | Inr s' \<Rightarrow> rings_ok ef et s' \<and>
         (flat s' = flat s \<or> pipe_step ndebug cfg (2 ^ ef - 1) (2 ^ et - 1) msgs (flat s) (Inr (flat s'))))"

lemma ingest_scan_not_exit: "ingest_scan msgs off = Inr pc \<Longrightarrow> pc \<noteq> IExit"
  by (auto simp: ingest_scan_def ebind_eq_Inr_iff Let_def split: if_splits option.splits)

lemma pipe_step_eq:
  "pipe_step ndebug cfg cf ct msgs s r \<Longrightarrow> r = r' \<Longrightarrow> pipe_step ndebug cfg cf ct msgs s r'"
  by simp

lemma match_scan:
  assumes "rings_ok ef et s" and "pl_ingest s = IScan off"
  shows "matched ndebug cfg ef et msgs s (ebind (ingest_scan msgs off) (\<lambda>pc. Inr (s\<lparr>pl_ingest := pc\<rparr>)))"
proof -
  have "pl_ingest (flat s) = IScan off" using assms(2) by simp
  from pipe_step.i_scan [OF this, of ndebug cfg "2 ^ ef - 1" "2 ^ et - 1" msgs] assms
    ingest_scan_not_exit [of msgs off]
  show ?thesis by (cases "ingest_scan msgs off") (auto simp: matched_def rings_ok_def)
qed

lemma flat_same [simp]:
  "(flat s)\<lparr>pl_frames := in_flight (rp_frames s)\<rparr> = flat s"
  "(flat s)\<lparr>pl_ticks := in_flight (rp_ticks s)\<rparr> = flat s"
  by (simp_all add: flat_def threads.defs)

text \<open>A silent step and a step of the pipeline over sequences.\<close>

lemma matched_silent:
  "rings_ok ef et s' \<Longrightarrow> flat s' = flat s \<Longrightarrow> matched ndebug cfg ef et msgs s (Inr s')"
  by (simp add: matched_def)

lemma matched_step:
  "pipe_step ndebug cfg (2 ^ ef - 1) (2 ^ et - 1) msgs (flat s) r \<Longrightarrow> r = Inr (flat s') \<Longrightarrow>
     rings_ok ef et s' \<Longrightarrow> matched ndebug cfg ef et msgs s (Inr s')"
  by (simp add: matched_def)

lemma match_push:
  assumes "rings_ok ef et s" and "pl_ingest s = IPush off fr" and "push_step fr (rp_frames s) x" and "ef \<le> 64"
  shows "matched ndebug cfg ef et msgs s
    (ebind x (\<lambda>(res, q). Inr (if res = Some True then s\<lparr>rp_frames := q, pl_ingest := IScan off\<rparr>
                              else s\<lparr>rp_frames := q\<rparr>)))"
proof -
  from assms(1) have "spsc_inv ef (rp_frames s)" by (auto simp: rings_ok_def)
  from push_step_ok [OF assms(3) this assms(4)] obtain res q where q: "x = Inr (res, q)" "spsc_inv ef q"
    "c_view q = c_view (rp_frames s)"
    "pushing (producer q) = (if res = None then Some fr else None)"
    "if res = Some True then fifo_enq (2 ^ ef - 1) fr (in_flight (rp_frames s)) = Some (in_flight q)
     else in_flight q = in_flight (rp_frames s) \<and> pushed q = pushed (rp_frames s)" by metis
  from assms(1,2) have idle: "\<not> pl_ingest_done s" "pl_book s \<noteq> BEmpty" by (auto simp: rings_ok_def)
  show ?thesis
  proof (cases "res = Some True")
    case True
    have "pipe_step ndebug cfg (2 ^ ef - 1) (2 ^ et - 1) msgs (flat s)
        (Inr ((flat s)\<lparr>pl_frames := in_flight q, pl_ingest := IScan off\<rparr>))"
      using q(5) True assms(2) by (intro pipe_step.i_push) simp_all
    then have "matched ndebug cfg ef et msgs s (Inr (s\<lparr>rp_frames := q, pl_ingest := IScan off\<rparr>))"
      by (rule matched_step) (use assms(1,2) q(2,4) idle True in \<open>auto simp: rings_ok_def\<close>)
    then show ?thesis by (simp add: q(1) True)
  next
    case False
    have "rings_ok ef et (s\<lparr>rp_frames := q\<rparr>)" using assms(1,2) q(2,4) idle by (auto simp: rings_ok_def)
    from matched_silent [OF this] show ?thesis using q(5) False by (simp add: q(1))
  qed
qed

lemma match_tick:
  assumes "rings_ok ef et s" and "pl_book s = BEmit (t # ts) final" and "push_step t (rp_ticks s) x" and "et \<le> 64"
  shows "matched ndebug cfg ef et msgs s
    (ebind x (\<lambda>(res, q). Inr (if res = None then s\<lparr>rp_ticks := q\<rparr>
                              else s\<lparr>rp_ticks := q, pl_book := BEmit ts final\<rparr>)))"
proof -
  from assms(1) have "spsc_inv et (rp_ticks s)" by (auto simp: rings_ok_def)
  from push_step_ok [OF assms(3) this assms(4)] obtain res q where q: "x = Inr (res, q)" "spsc_inv et q"
    "c_view q = c_view (rp_ticks s)"
    "pushing (producer q) = (if res = None then Some t else None)"
    "if res = Some True then fifo_enq (2 ^ et - 1) t (in_flight (rp_ticks s)) = Some (in_flight q)
     else in_flight q = in_flight (rp_ticks s) \<and> pushed q = pushed (rp_ticks s)" by metis
  from assms(1,2) have idle: "\<not> pl_book_done s" "pl_analytics s \<noteq> AEmpty" by (auto simp: rings_ok_def)
  let ?on = "s\<lparr>rp_ticks := q, pl_book := BEmit ts final\<rparr>"
  have ok: "res \<noteq> None \<Longrightarrow> rings_ok ef et ?on" "res = None \<Longrightarrow> rings_ok ef et (s\<lparr>rp_ticks := q\<rparr>)"
    using assms(1,2) q(2,4) idle by (auto simp: rings_ok_def)
  consider "res = Some True" | "res = Some False" | "res = None" by (cases res) auto
  then show ?thesis
  proof cases
    case 1
    have "pipe_step ndebug cfg (2 ^ ef - 1) (2 ^ et - 1) msgs (flat s)
        (Inr ((flat s)\<lparr>pl_ticks := in_flight q, pl_book := BEmit ts final\<rparr>))"
      using q(5) 1 assms(2) by (intro pipe_step.b_tick) simp_all
    from matched_step [OF this _ ok(1)] show ?thesis by (simp add: q(1) 1)
  next
    case 2
    have "pipe_step ndebug cfg (2 ^ ef - 1) (2 ^ et - 1) msgs (flat s)
        (Inr ((flat s)\<lparr>pl_book := BEmit ts final\<rparr>))"
      using assms(2) by (intro pipe_step.b_drop) simp_all
    from matched_step [OF this _ ok(1)] q(5) show ?thesis by (simp add: q(1) 2)
  next
    case 3
    from matched_silent [OF ok(2)] q(5) show ?thesis by (simp add: q(1) 3)
  qed
qed

lemma match_pop:
  assumes "rings_ok ef et s" and "pl_book s = BPop" and "pop_step (rp_frames s) x" and "ef \<le> 64"
  shows "matched ndebug cfg ef et msgs s
    (ebind x (\<lambda>(res, q). case res of
       None \<Rightarrow> Inr (s\<lparr>rp_frames := q\<rparr>)
     | Some None \<Rightarrow> Inr (s\<lparr>rp_frames := q, pl_book := BFlag\<rparr>)
     | Some (Some fr) \<Rightarrow> book_frame ndebug cfg fr (s\<lparr>rp_frames := q\<rparr>)))"
proof -
  from assms(1) have "spsc_inv ef (rp_frames s)" by (auto simp: rings_ok_def)
  from pop_step_ok [OF assms(3) this assms(4)] obtain res q where q: "x = Inr (res, q)" "spsc_inv ef q"
    "producer q = producer (rp_frames s)"
    "case res of Some (Some fr) \<Rightarrow> fifo_deq (in_flight (rp_frames s)) = Some (fr, in_flight q)
     | _ \<Rightarrow> in_flight q = in_flight (rp_frames s)" by metis
  from assms(1,2) have idle: "\<not> pl_book_done s" by (auto simp: rings_ok_def)
  consider "res = None" | "res = Some None" | fr where "res = Some (Some fr)" by (metis option.exhaust)
  then show ?thesis
  proof cases
    case 1
    have "rings_ok ef et (s\<lparr>rp_frames := q\<rparr>)" using assms(1,2) q(2,3) by (auto simp: rings_ok_def)
    from matched_silent [OF this] q(4) show ?thesis by (simp add: q(1) 1)
  next
    case 2
    have "rings_ok ef et (s\<lparr>rp_frames := q, pl_book := BFlag\<rparr>)"
      using assms(1,2) q(2,3) by (auto simp: rings_ok_def)
    moreover have "pipe_step ndebug cfg (2 ^ ef - 1) (2 ^ et - 1) msgs (flat s) (Inr ((flat s)\<lparr>pl_book := BFlag\<rparr>))"
      using assms(2) by (intro pipe_step.b_refused) simp
    ultimately show ?thesis using q(4) by (auto intro!: matched_step simp: q(1) 2)
  next
    case (3 fr)
    let ?q = "s\<lparr>rp_frames := q\<rparr>"
    have "pipe_step ndebug cfg (2 ^ ef - 1) (2 ^ et - 1) msgs (flat s) (book_frame ndebug cfg fr (flat ?q))"
      using q(4) 3 assms(2) by (simp add: pipe_step.b_pop)
    note this [unfolded flat_book_frame]
    moreover have "rings_ok ef et s'" if "book_frame ndebug cfg fr ?q = Inr s'" for s'
      using book_frame_keeps [OF that] assms(1,2) q(2,3) idle by (auto simp: rings_ok_def)
    ultimately show ?thesis
      by (cases "book_frame ndebug cfg fr ?q") (auto simp: matched_def q(1) 3)
  qed
qed

lemma match_analytics_pop:
  assumes "rings_ok ef et s" and "pl_analytics s = APop" and "pop_step (rp_ticks s) x" and "et \<le> 64"
  shows "matched ndebug cfg ef et msgs s
    (ebind x (\<lambda>(res, q). Inr (case res of
       None \<Rightarrow> s\<lparr>rp_ticks := q\<rparr>
     | Some None \<Rightarrow> s\<lparr>rp_ticks := q, pl_analytics := AFlag\<rparr>
     | Some (Some t) \<Rightarrow> s\<lparr>rp_ticks := q, pl_last_tick := t, pl_result := (pl_result s)
         \<lparr>pr_analytics_events := pr_analytics_events (pl_result s) + 1\<rparr>\<rparr>)))"
proof -
  from assms(1) have "spsc_inv et (rp_ticks s)" by (auto simp: rings_ok_def)
  from pop_step_ok [OF assms(3) this assms(4)] obtain res q where q: "x = Inr (res, q)" "spsc_inv et q"
    "producer q = producer (rp_ticks s)"
    "case res of Some (Some t) \<Rightarrow> fifo_deq (in_flight (rp_ticks s)) = Some (t, in_flight q)
     | _ \<Rightarrow> in_flight q = in_flight (rp_ticks s)" by metis
  have ok: "rings_ok ef et (s\<lparr>rp_ticks := q\<rparr>)" "rings_ok ef et (s\<lparr>rp_ticks := q, pl_analytics := AFlag\<rparr>)"
    "rings_ok ef et (s\<lparr>rp_ticks := q, pl_last_tick := t, pl_result := r\<rparr>)" for t r
    using assms(1,2) q(2,3) by (auto simp: rings_ok_def)
  consider "res = None" | "res = Some None" | t where "res = Some (Some t)" by (metis option.exhaust)
  then show ?thesis
  proof cases
    case 1
    from matched_silent [OF ok(1)] q(4) show ?thesis by (simp add: q(1) 1)
  next
    case 2
    have "pipe_step ndebug cfg (2 ^ ef - 1) (2 ^ et - 1) msgs (flat s) (Inr ((flat s)\<lparr>pl_analytics := AFlag\<rparr>))"
      using assms(2) by (intro pipe_step.a_refused) simp
    from matched_step [OF this _ ok(2)] q(4) show ?thesis by (simp add: q(1) 2)
  next
    case (3 t)
    have "pipe_step ndebug cfg (2 ^ ef - 1) (2 ^ et - 1) msgs (flat s)
        (Inr ((flat s)\<lparr>pl_ticks := in_flight q, pl_last_tick := t, pl_result := (pl_result (flat s))
          \<lparr>pr_analytics_events := pr_analytics_events (pl_result (flat s)) + 1\<rparr>\<rparr>))"
      using assms(2) q(4) 3 by (intro pipe_step.a_pop) simp_all
    from matched_step [OF this _ ok(3)] show ?thesis by (simp add: q(1) 3)
  qed
qed

lemma thread_step_matched:
  assumes "thread_step ndebug cfg msgs s who r" and "rings_ok ef et s" and "ef \<le> 64" "et \<le> 64"
  shows "matched ndebug cfg ef et msgs s r"
  using assms(1)
proof cases
  case (ri_scan off)
  with match_scan [OF assms(2)] show ?thesis by simp
next
  case (ri_push off fr x)
  with match_push [OF assms(2) _ _ assms(3)] show ?thesis by simp
next
  case ri_done
  with assms(2) show ?thesis
    by (auto intro!: matched_step [OF pipe_step.i_done] simp: rings_ok_def)
next
  case (rb_pop x)
  with match_pop [OF assms(2) _ _ assms(3)] show ?thesis by simp
next
  case rb_running
  with assms(2) show ?thesis by (auto intro!: matched_step [OF pipe_step.b_running] simp: rings_ok_def)
next
  case rb_flag
  with assms(2) see_heads_ok [OF _ assms(3), of "rp_frames s"] show ?thesis
    by (auto intro!: matched_step [OF pipe_step.b_flag] simp: rings_ok_def)
next
  case (rb_empty b q)
  from assms(2) rb_empty(3) have inv: "spsc_inv ef (rp_frames s)"
    "c_view (rp_frames s) = length (pushed (rp_frames s))" by (auto simp: rings_ok_def)
  note q = empty_step_ok [OF rb_empty(4) inv(1) assms(3)]
  show ?thesis
  proof (cases b)
    case True
    with rb_empty assms(2) q q(5) [OF inv(2)] show ?thesis
      by (auto intro!: matched_step [OF pipe_step.b_last] simp: rings_ok_def)
  next
    case False
    with rb_empty assms(2) q q(5) [OF inv(2)] show ?thesis
      by (auto intro!: matched_step [OF pipe_step.b_more] simp: rings_ok_def)
  qed
next
  case (rb_tick t ts final x)
  with match_tick [OF assms(2) _ _ assms(4)] show ?thesis by simp
next
  case (rb_emitted final)
  with assms(2) show ?thesis by (auto intro!: matched_step [OF pipe_step.b_emitted] simp: rings_ok_def)
next
  case rb_finish
  with assms(2) show ?thesis
    by (auto intro!: matched_step [OF pipe_step.b_finish] simp: rings_ok_def flat_book_finish book_finish_def)
next
  case (ra_pop x)
  with match_analytics_pop [OF assms(2) _ _ assms(4)] show ?thesis by simp
next
  case ra_running
  with assms(2) show ?thesis by (auto intro!: matched_step [OF pipe_step.a_running] simp: rings_ok_def)
next
  case ra_flag
  with assms(2) see_heads_ok [OF _ assms(4), of "rp_ticks s"] show ?thesis
    by (auto intro!: matched_step [OF pipe_step.a_flag] simp: rings_ok_def)
next
  case (ra_empty b q)
  from assms(2) ra_empty(3) have inv: "spsc_inv et (rp_ticks s)"
    "c_view (rp_ticks s) = length (pushed (rp_ticks s))" by (auto simp: rings_ok_def)
  note q = empty_step_ok [OF ra_empty(4) inv(1) assms(4)]
  show ?thesis
  proof (cases b)
    case True
    with ra_empty assms(2) q q(5) [OF inv(2)] show ?thesis
      by (auto intro!: matched_step [OF pipe_step.a_last] simp: rings_ok_def)
  next
    case False
    with ra_empty assms(2) q q(5) [OF inv(2)] show ?thesis
      by (auto intro!: matched_step [OF pipe_step.a_more] simp: rings_ok_def)
  qed
qed

lemma ring_step_matched:
  "ring_step ndebug cfg msgs s r \<Longrightarrow> rings_ok ef et s \<Longrightarrow> ef \<le> 64 \<Longrightarrow> et \<le> 64 \<Longrightarrow>
     matched ndebug cfg ef et msgs s r"
  by (auto simp: ring_step_def intro: thread_step_matched)

lemma ring_reach_matched:
  assumes "ring_reach ndebug cfg msgs s0 r" and "rings_ok ef et s0" and "ef \<le> 64" "et \<le> 64"
  shows "case r of
      Inl e \<Rightarrow> pipe_reach ndebug cfg (2 ^ ef - 1) (2 ^ et - 1) msgs (flat s0) (Inl e)
    | Inr s \<Rightarrow> rings_ok ef et s \<and> pipe_reach ndebug cfg (2 ^ ef - 1) (2 ^ et - 1) msgs (flat s0) (Inr (flat s))"
  using assms(1)
proof induction
  case ring_here
  with assms(2) show ?case by (simp add: pipe_reach.pipe_here)
next
  case (ring_next s r)
  then have s: "rings_ok ef et s" "pipe_reach ndebug cfg (2 ^ ef - 1) (2 ^ et - 1) msgs (flat s0) (Inr (flat s))"
    by simp_all
  from ring_step_matched [OF ring_next(2) s(1) assms(3,4)] s(2) pipe_reach.pipe_next [OF s(2)]
  show ?case by (cases r) (auto simp: matched_def)
qed

text \<open>The start.\<close>

lemma fresh_queue:
  assumes "SPSCQueue_init x cap = Some q"
  obtains e where "1 \<le> e" "e < 64" "spsc_inv e (spsc_init q)" "unat (ring_capacity q) = 2 ^ e - 1"
proof -
  from SPSCQueue_init_counts [OF assms] obtain e where e: "1 \<le> e" "e < 64" "ring_counts e 0 0 q"
    "ring_capacity q = mask e" by metis
  from spsc_reach_inv [OF spsc_reach.start e(3,2)] have "spsc_inv e (spsc_init q)" by simp
  with e(1,2,4) unat_mask_64 [OF e(2)] that show thesis by simp
qed

lemma rings_start:
  assumes "run_queues cfg = Some (frames, ticks)"
  obtains ef et where "1 \<le> ef" "ef \<le> 64" "et \<le> 64" "rings_ok ef et (rings_init ndebug frames ticks)"
    "flat (rings_init ndebug frames ticks) = pipeline_init ndebug"
    "run_capacities cfg = Some (2 ^ ef - 1, 2 ^ et - 1)"
proof -
  from assms obtain x y where q: "SPSCQueue_init x (pc_frame_queue_capacity cfg) = Some frames"
    "SPSCQueue_init y (pc_tick_queue_capacity cfg) = Some ticks"
    by (auto simp: run_queues_def split: option.splits)
  from fresh_queue [OF q(1)] obtain ef where ef: "1 \<le> ef" "ef < 64" "spsc_inv ef (spsc_init frames)"
    "unat (ring_capacity frames) = 2 ^ ef - 1" by metis
  from fresh_queue [OF q(2)] obtain et where et: "et < 64" "spsc_inv et (spsc_init ticks)"
    "unat (ring_capacity ticks) = 2 ^ et - 1" by metis
  have "rings_ok ef et (rings_init ndebug frames ticks)"
    using ef(3) et(2) by (simp add: rings_ok_def rings_init_def threads_init_def threads.defs spsc_init_def)
  moreover have "flat (rings_init ndebug frames ticks) = pipeline_init ndebug"
    by (simp add: flat_def rings_init_def pipeline_init_def threads_init_def threads.defs spsc_init_def in_flight_def)
  ultimately show thesis
    using that [of ef et] ef et by (simp add: run_capacities_def assms)
qed

text \<open>A run over the rings, seen as a run over sequences.\<close>

lemma rings_run_flat:
  assumes "rings_run ndebug cfg msgs r"
  obtains ef et where "1 \<le> ef" "ef \<le> 64" "et \<le> 64"
    "case r of Inl e \<Rightarrow> pipeline_run ndebug cfg msgs (Inl e)
     | Inr s \<Rightarrow> rings_ok ef et s \<and> pipeline_run ndebug cfg msgs (Inr (flat s))"
proof -
  from assms obtain frames ticks where run: "run_queues cfg = Some (frames, ticks)"
    "ring_reach ndebug cfg msgs (rings_init ndebug frames ticks) r"
    by (auto simp: rings_run_def split: option.splits)
  from rings_start [OF run(1), of ndebug] obtain ef et where st: "1 \<le> ef" "ef \<le> 64" "et \<le> 64"
    "rings_ok ef et (rings_init ndebug frames ticks)"
    "flat (rings_init ndebug frames ticks) = pipeline_init ndebug"
    "run_capacities cfg = Some (2 ^ ef - 1, 2 ^ et - 1)" by metis
  from ring_reach_matched [OF run(2) st(4,2,3)] show thesis
    by (intro that [OF st(1-3)]) (auto simp: pipeline_run_def st(5,6) split: sum.splits)
qed

lemma rings_run_inv:
  assumes "rings_run ndebug cfg msgs r" and "pc_analytics_every cfg \<noteq> 0"
  obtains s ef et where "r = Inr s" "1 \<le> ef" "ef \<le> 64" "et \<le> 64" "rings_ok ef et s" "pipe_inv ndebug msgs (flat s)"
proof -
  from rings_run_flat [OF assms(1)] obtain ef et where run: "1 \<le> ef" "ef \<le> 64" "et \<le> 64"
    "case r of Inl e \<Rightarrow> pipeline_run ndebug cfg msgs (Inl e)
     | Inr s \<Rightarrow> rings_ok ef et s \<and> pipeline_run ndebug cfg msgs (Inr (flat s))" .
  with pipeline_run_inv [OF _ assms(2), of ndebug msgs] show thesis
    by (cases r) (force intro: that)+
qed

section \<open>The threads can finish\<close>

text \<open>
  The schedule is that of the pipeline over sequences, and a call in progress has its stages left.
\<close>

definition stages_left :: "rings \<Rightarrow> nat" where
  "stages_left s = push_left (producer (rp_frames s)) + pop_left (consumer (rp_frames s)) +
     push_left (producer (rp_ticks s)) + pop_left (consumer (rp_ticks s))"

definition rings_closer :: "byte list \<Rightarrow> (rings \<times> rings) set" where
  "rings_closer msgs = inv_image (closer msgs <*lex*> less_than) (\<lambda>s. (flat s, stages_left s))"

lemma wf_rings_closer: "wf (rings_closer msgs)"
  unfolding rings_closer_def by (intro wf_inv_image wf_lex_prod wf_closer wf_less_than)

lemma ring_progressI:
  "thread_step ndebug cfg msgs s who (Inr s') \<Longrightarrow> (flat s', flat s) \<in> closer msgs \<Longrightarrow>
     \<exists>s'. ring_step ndebug cfg msgs s (Inr s') \<and> (s', s) \<in> rings_closer msgs"
  by (auto simp: rings_closer_def intro: ring_stepI)

lemma ring_stageI:
  "thread_step ndebug cfg msgs s who (Inr s') \<Longrightarrow> flat s' = flat s \<Longrightarrow> stages_left s' < stages_left s \<Longrightarrow>
     \<exists>s'. ring_step ndebug cfg msgs s (Inr s') \<and> (s', s) \<in> rings_closer msgs"
  by (auto simp: rings_closer_def intro: ring_stepI)

lemma ingest_ring_progress:
  assumes "pipe_inv ndebug msgs (flat s)" and "rings_ok ef et s" and "ef \<le> 64" and "pl_ingest s \<noteq> IExit"
    and "\<And>off fr. pl_ingest s = IPush off fr \<Longrightarrow> length (in_flight (rp_frames s)) < 2 ^ ef - 1"
  shows "\<exists>s'. ring_step ndebug cfg msgs s (Inr s') \<and> (s', s) \<in> rings_closer msgs"
proof (cases "pl_ingest s")
  case (IScan off)
  then have at: "pl_ingest (flat s) = IScan off" by simp
  from i_scan_inv [OF assms(1) at] obtain pc where pc: "ingest_scan msgs off = Inr pc" by blast
  from scan_closer [OF assms(1) at pc] ri_scan [OF IScan, of ndebug cfg msgs] pc show ?thesis
    by (intro ring_progressI) auto
next
  case (IPush off fr)
  from assms(2) have inv: "spsc_inv ef (rp_frames s)" by (simp add: rings_ok_def)
  have "pushing (producer (rp_frames s)) \<in> {None, Some fr}"
    using assms(2) IPush by (cases "pushing (producer (rp_frames s))") (auto simp: rings_ok_def)
  from push_step_exists [OF inv assms(3) this] obtain res q where q:
    "push_step fr (rp_frames s) (Inr (res, q))"
    "res = None \<longrightarrow> push_left (producer q) < push_left (producer (rp_frames s))"
    "res = Some False \<longrightarrow> length (in_flight (rp_frames s)) = 2 ^ ef - 1" by blast
  from q(3) assms(5) [OF IPush] have res: "res \<noteq> Some False" by auto
  from push_step_keeps [OF q(1) inv assms(3)] have keep: "consumer q = consumer (rp_frames s)"
    "if res = Some True then fifo_enq (2 ^ ef - 1) fr (in_flight (rp_frames s)) = Some (in_flight q)
     else in_flight q = in_flight (rp_frames s)" .
  note step = ri_push [OF IPush q(1), of ndebug cfg msgs]
  show ?thesis
  proof (cases res)
    case None
    from step have "thread_step ndebug cfg msgs s Ingest (Inr (s\<lparr>rp_frames := q\<rparr>))" by (simp add: None)
    then show ?thesis by (rule ring_stageI) (use q(2) keep None in \<open>simp_all add: stages_left_def\<close>)
  next
    case (Some b)
    with res have res: "res = Some True" by simp
    with step have go: "thread_step ndebug cfg msgs s Ingest (Inr (s\<lparr>rp_frames := q, pl_ingest := IScan off\<rparr>))" by simp
    have "in_flight q = in_flight (rp_frames s) @ [fr]"
      using keep(2) res by (simp add: fifo_enq_def split: if_splits)
    then show ?thesis by (intro ring_progressI [OF go closerI(1)]) (simp add: ingest_left_def IPush)
  qed
next
  case IDone
  from ri_done [OF IDone] show ?thesis
    by (rule ring_progressI) (rule closerI(1), simp add: left_defs IDone)
qed (use assms in simp)

lemma book_ring_progress:
  assumes "pipe_inv ndebug msgs (flat s)" and "rings_ok ef et s" and "ef \<le> 64" "et \<le> 64"
    and "pc_analytics_every cfg \<noteq> 0" and "pl_book s \<noteq> BExit"
    and "in_flight (rp_frames s) \<noteq> [] \<or> pl_ingest s = IExit"
  shows "\<exists>s'. ring_step ndebug cfg msgs s (Inr s') \<and> (s', s) \<in> rings_closer msgs"
proof -
  from assms(2) have inv: "spsc_inv ef (rp_frames s)" "spsc_inv et (rp_ticks s)"
    by (simp_all add: rings_ok_def)
  show ?thesis
  proof (cases "pl_book s")
    case BPop
    from pop_step_exists [OF inv(1) assms(3)] obtain res q where q: "pop_step (rp_frames s) (Inr (res, q))"
      "res = None \<longrightarrow> pop_left (consumer q) < pop_left (consumer (rp_frames s))"
      "res = Some None \<longrightarrow> in_flight (rp_frames s) = []" by blast
    note keep = pop_step_keeps [OF q(1) inv(1) assms(3)]
    note step = rb_pop [OF BPop q(1), of ndebug cfg msgs]
    consider "res = None" | "res = Some None" | fr where "res = Some (Some fr)" by (metis option.exhaust)
    then show ?thesis
    proof cases
      case 1
      from step have "thread_step ndebug cfg msgs s Book (Inr (s\<lparr>rp_frames := q\<rparr>))" by (simp add: 1)
      then show ?thesis by (rule ring_stageI) (use q(2) keep 1 in \<open>simp_all add: stages_left_def\<close>)
    next
      case 2
      from step have go: "thread_step ndebug cfg msgs s Book (Inr (s\<lparr>rp_frames := q, pl_book := BFlag\<rparr>))"
        by (simp add: 2)
      show ?thesis
        by (rule ring_progressI [OF go closerI(2)]) (use q(3) keep 2 in \<open>simp_all add: left_defs BPop\<close>)
    next
      case (3 fr)
      then have deq: "fifo_deq (pl_frames (flat s)) = Some (fr, in_flight q)" using keep(2) by simp
      have "pl_book (flat s) = BPop" using BPop by simp
      from b_pop_inv [OF assms(1) this deq assms(5)] obtain s2 where s2:
        "book_frame ndebug cfg fr (flat (s\<lparr>rp_frames := q\<rparr>)) = Inr s2" "pl_frames s2 = in_flight q"
        "pl_ingest s2 = pl_ingest s" by auto
      from s2(1) obtain s1 where s1: "book_frame ndebug cfg fr (s\<lparr>rp_frames := q\<rparr>) = Inr s1" "flat s1 = s2"
        unfolding flat_book_frame by (auto simp: ebind_eq_Inr_iff)
      from step have go: "thread_step ndebug cfg msgs s Book (Inr s1)" by (simp add: 3 s1(1))
      from deq have "length (in_flight (rp_frames s)) = Suc (length (in_flight q))"
        by (simp add: fifo_deq_def split: list.splits)
      then show ?thesis
        by (intro ring_progressI [OF go closerI(1)]) (simp add: ingest_left_def s1(2) s2(2,3))
    qed
  next
    case BFlag
    show ?thesis
    proof (cases "in_flight (rp_frames s) = []")
      case True
      with assms(2,7) have fin: "pl_ingest_done s" by (auto simp: rings_ok_def)
      show ?thesis
        by (rule ring_progressI [OF rb_flag [OF BFlag fin] closerI(2)])
          (simp_all add: left_defs BFlag True see_heads_ok [OF inv(1) assms(3)])
    next
      case False
      show ?thesis
        by (rule ring_progressI [OF rb_running [OF BFlag] closerI(2)]) (simp_all add: left_defs BFlag False)
    qed
  next
    case BEmpty
    from empty_step_exists [OF inv(1) assms(3)] obtain b q where q: "empty_step (rp_frames s) (b, q)" by blast
    from assms(2) BEmpty have "c_view (rp_frames s) = length (pushed (rp_frames s))" by (simp add: rings_ok_def)
    with empty_step_ok [OF q inv(1) assms(3)] have
      "b \<longleftrightarrow> in_flight (rp_frames s) = []" "in_flight q = in_flight (rp_frames s)" by simp_all
    then show ?thesis
      by (intro ring_progressI [OF rb_empty [OF BEmpty q] closerI(2)]) (simp_all add: left_defs BEmpty)
  next
    case (BEmit ts final)
    show ?thesis
    proof (cases ts)
      case Nil
      with BEmit have at: "pl_book s = BEmit [] final" by simp
      from assms(1) BEmit show ?thesis
        by (intro ring_progressI [OF rb_emitted [OF at] closerI(2)])
          (auto simp: left_defs at pipe_inv_def book_control_def)
    next
      case (Cons t ts')
      with BEmit have at: "pl_book s = BEmit (t # ts') final" by simp
      have "pushing (producer (rp_ticks s)) \<in> {None, Some t}"
        using assms(2) at by (cases "pushing (producer (rp_ticks s))") (auto simp: rings_ok_def)
      from push_step_exists [OF inv(2) assms(4) this] obtain res q where q:
        "push_step t (rp_ticks s) (Inr (res, q))"
        "res = None \<longrightarrow> push_left (producer q) < push_left (producer (rp_ticks s))" by blast
      note keep = push_step_keeps [OF q(1) inv(2) assms(4)]
      note step = rb_tick [OF at q(1), of ndebug cfg msgs]
      show ?thesis
      proof (cases "res = None")
        case True
        from step have "thread_step ndebug cfg msgs s Book (Inr (s\<lparr>rp_ticks := q\<rparr>))" by (simp add: True)
        then show ?thesis by (rule ring_stageI) (use q(2) keep True in \<open>simp_all add: stages_left_def\<close>)
      next
        case False
        with step have go: "thread_step ndebug cfg msgs s Book (Inr (s\<lparr>rp_ticks := q, pl_book := BEmit ts' final\<rparr>))"
          by simp
        show ?thesis by (rule ring_progressI [OF go closerI(2)]) (simp_all add: left_defs at)
      qed
    qed
  next
    case BFinish
    with assms(1) have "in_flight (rp_frames s) = []" by (simp add: pipe_inv_def book_control_def)
    then show ?thesis
      by (intro ring_progressI [OF rb_finish [OF BFinish] closerI(2)])
        (simp_all add: left_defs BFinish flat_book_finish book_finish_def)
  qed (use assms in simp)
qed

lemma analytics_ring_progress:
  assumes "rings_ok ef et s" and "et \<le> 64" and "pl_book s = BExit" and "pl_analytics s \<noteq> AExit"
  shows "\<exists>s'. ring_step ndebug cfg msgs s (Inr s') \<and> (s', s) \<in> rings_closer msgs"
proof -
  from assms(1,3) have inv: "spsc_inv et (rp_ticks s)" "pl_book_done s" by (simp_all add: rings_ok_def)
  show ?thesis
  proof (cases "pl_analytics s")
    case APop
    from pop_step_exists [OF inv(1) assms(2)] obtain res q where q: "pop_step (rp_ticks s) (Inr (res, q))"
      "res = None \<longrightarrow> pop_left (consumer q) < pop_left (consumer (rp_ticks s))"
      "res = Some None \<longrightarrow> in_flight (rp_ticks s) = []" by blast
    note keep = pop_step_keeps [OF q(1) inv(1) assms(2)]
    note step = ra_pop [OF APop q(1), of ndebug cfg msgs]
    consider "res = None" | "res = Some None" | t where "res = Some (Some t)" by (metis option.exhaust)
    then show ?thesis
    proof cases
      case 1
      from step have "thread_step ndebug cfg msgs s Analytics (Inr (s\<lparr>rp_ticks := q\<rparr>))" by (simp add: 1)
      then show ?thesis by (rule ring_stageI) (use q(2) keep 1 in \<open>simp_all add: stages_left_def\<close>)
    next
      case 2
      from step have go: "thread_step ndebug cfg msgs s Analytics (Inr (s\<lparr>rp_ticks := q, pl_analytics := AFlag\<rparr>))"
        by (simp add: 2)
      show ?thesis
        by (rule ring_progressI [OF go closerI(3)]) (use q(3) keep 2 in \<open>simp_all add: left_defs APop\<close>)
    next
      case (3 t)
      from step have go: "thread_step ndebug cfg msgs s Analytics (Inr (s\<lparr>rp_ticks := q, pl_last_tick := t, pl_result :=
          (pl_result s)\<lparr>pr_analytics_events := pr_analytics_events (pl_result s) + 1\<rparr>\<rparr>))" by (simp add: 3)
      have "in_flight (rp_ticks s) = t # in_flight q"
        using keep(2) 3 by (simp add: fifo_deq_def split: list.splits)
      then show ?thesis
        by (intro ring_progressI [OF go closerI(3)]) (simp_all add: left_defs APop)
    qed
  next
    case AFlag
    show ?thesis
    proof (cases "in_flight (rp_ticks s) = []")
      case True
      show ?thesis
        by (rule ring_progressI [OF ra_flag [OF AFlag inv(2)] closerI(3)])
          (simp_all add: left_defs AFlag True see_heads_ok [OF inv(1) assms(2)])
    next
      case False
      show ?thesis
        by (rule ring_progressI [OF ra_running [OF AFlag] closerI(3)]) (simp_all add: left_defs AFlag False)
    qed
  next
    case AEmpty
    from empty_step_exists [OF inv(1) assms(2)] obtain b q where q: "empty_step (rp_ticks s) (b, q)" by blast
    from assms(1) AEmpty have "c_view (rp_ticks s) = length (pushed (rp_ticks s))" by (simp add: rings_ok_def)
    with empty_step_ok [OF q inv(1) assms(2)] have
      "b \<longleftrightarrow> in_flight (rp_ticks s) = []" "in_flight q = in_flight (rp_ticks s)" by simp_all
    then show ?thesis
      by (intro ring_progressI [OF ra_empty [OF AEmpty q] closerI(3)]) (simp_all add: left_defs AEmpty)
  qed (use assms in simp)
qed

lemma ring_progress:
  assumes "pipe_inv ndebug msgs (flat s)" and "rings_ok ef et s" and "1 \<le> ef" "ef \<le> 64" "et \<le> 64"
    and "pc_analytics_every cfg \<noteq> 0" and "\<not> pipe_finished (flat s)"
  shows "\<exists>s'. ring_step ndebug cfg msgs s (Inr s') \<and> (s', s) \<in> rings_closer msgs"
proof -
  from assms(3) have "1 < (2 :: nat) ^ ef" by (intro one_less_power) auto
  then consider "pl_ingest s \<noteq> IExit"
        "\<And>off fr. pl_ingest s = IPush off fr \<Longrightarrow> length (in_flight (rp_frames s)) < 2 ^ ef - 1"
    | "pl_ingest s \<noteq> IExit" "in_flight (rp_frames s) \<noteq> []" | "pl_ingest s = IExit"
    by (cases "pl_ingest s = IExit"; cases "in_flight (rp_frames s)") auto
  then show ?thesis
  proof cases
    case 1
    with ingest_ring_progress [OF assms(1,2,4)] show ?thesis by blast
  next
    case 2
    with assms(1) have "pl_book s \<noteq> BExit" by (auto simp: pipe_inv_def book_control_def)
    with 2 book_ring_progress [OF assms(1,2,4,5,6)] show ?thesis by blast
  next
    case 3
    with book_ring_progress [OF assms(1,2,4,5,6)] analytics_ring_progress [OF assms(2,5)] assms(7)
    show ?thesis by (cases "pl_book s = BExit") (auto simp: pipe_finished_def)
  qed
qed

lemma ring_reach_trans:
  assumes "ring_reach ndebug cfg msgs s0 (Inr s)"
  shows "ring_reach ndebug cfg msgs s r \<Longrightarrow> ring_reach ndebug cfg msgs s0 r"
  by (induction rule: ring_reach.induct) (use assms in \<open>auto intro: ring_reach.intros\<close>)

lemma ring_reach_finish:
  assumes "1 \<le> ef" "ef \<le> 64" "et \<le> 64" and "pc_analytics_every cfg \<noteq> 0"
  shows "pipe_inv ndebug msgs (flat s) \<Longrightarrow> rings_ok ef et s \<Longrightarrow>
    \<exists>s'. ring_reach ndebug cfg msgs s (Inr s') \<and> pipe_finished (flat s')"
proof (induction s rule: wf_induct_rule [OF wf_rings_closer [of msgs]])
  case (1 s)
  show ?case
  proof (cases "pipe_finished (flat s)")
    case True
    with ring_here show ?thesis by blast
  next
    case False
    from ring_progress [OF 1(2,3) assms False] obtain s1 where s1:
      "ring_step ndebug cfg msgs s (Inr s1)" "(s1, s) \<in> rings_closer msgs" by blast
    from ring_step_matched [OF s1(1) 1(3) assms(2,3)] have m: "rings_ok ef et s1"
      "flat s1 = flat s \<or> pipe_step ndebug cfg (2 ^ ef - 1) (2 ^ et - 1) msgs (flat s) (Inr (flat s1))"
      by (simp_all add: matched_def)
    from m(2) pipe_step_inv [OF _ 1(2) assms(4)] 1(2) have "pipe_inv ndebug msgs (flat s1)" by auto
    from 1(1) [OF s1(2) this m(1)] ring_reach_trans [OF ring_next [OF ring_here s1(1)]]
    show ?thesis by blast
  qed
qed

lemma rings_run_finish:
  assumes "rings_run ndebug cfg msgs (Inr s)" and "pc_analytics_every cfg \<noteq> 0"
  shows "\<exists>s'. ring_reach ndebug cfg msgs s (Inr s') \<and> rings_run ndebug cfg msgs (Inr s') \<and>
    pipe_finished (flat s')"
proof -
  from rings_run_inv [OF assms] obtain ef et where inv: "1 \<le> ef" "ef \<le> 64" "et \<le> 64" "rings_ok ef et s"
    "pipe_inv ndebug msgs (flat s)" by (metis sum.inject(2))
  from ring_reach_finish [OF inv(1-3) assms(2) inv(5,4)] obtain s' where
    s': "ring_reach ndebug cfg msgs s (Inr s')" "pipe_finished (flat s')" by blast
  with assms(1) ring_reach_trans show ?thesis
    by (auto simp: rings_run_def split: option.splits)
qed

text \<open>A run of the default configuration that has only started.\<close>

lemma default_rings: "\<exists>s. rings_run ndebug PipelineConfig_default msgs (Inr s)"
  using default_capacities
  by (auto simp: rings_run_def run_capacities_def split: option.splits intro: ring_here)

section \<open>Properties\<close>

text \<open>C5. The concurrent pipeline computes what the single-threaded path computes: for any bytes and any
  sampling period but zero (which divides by zero), in any interleaving of the loads, stores and
  slot accesses of its three threads, with any stale index reads and any ticks dropped, once the
  book thread is done its fingerprint, symbol count, number of messages and every event counter but
  the malformed one are those of one call of \<open>consume\<close> on the whole input. Its two malformed
  counters, of the result and of the books, agree and lack exactly the \<open>withheld\<close> frames: the
  header of an invalid type that ends ingestion, which the single-threaded path counts, and the
  frames of a wrong size too long for a \<open>Frame\<close>, which ingestion skips.\<close>

theorem rings_equal_sequential:
  assumes "rings_run ndebug cfg msgs (Inr s)" and "pc_analytics_every cfg \<noteq> 0" and "pl_book s = BExit"
  shows "\<exists>f rep. consume (bb_handler ndebug) msgs
      (FeedHandler_init (set_verify False (BookBuilder_init ndebug))) = Inr (f, rep) \<and>
    pl_fingerprint s = book_fingerprint (bb_manager (down f)) \<and>
    pl_symbol_count s = symbol_count (bb_manager (down f)) \<and>
    pl_stats s = (bb_stats (down f))\<lparr>bst_malformed := pr_malformed (pl_result s)\<rparr> \<and>
    pr_messages_parsed (pl_result s) = of_nat (messages rep) \<and>
    bst_malformed (bb_stats (down f)) = of_nat (malformed rep) \<and>
    pr_malformed (pl_result s) + of_nat (withheld msgs) = of_nat (malformed rep)"
proof -
  from rings_run_inv [OF assms(1,2)] have "pipe_inv ndebug msgs (flat s)" by auto
  from published_results [OF this] assms(3) show ?thesis by simp
qed

theorem rings_equal_sequential_witness:
  "\<exists>s f rep. rings_run True PipelineConfig_default (wire sample_messages) (Inr s) \<and>
    consume (bb_handler True) (wire sample_messages)
      (FeedHandler_init (set_verify False (BookBuilder_init True))) = Inr (f, rep) \<and>
    pl_fingerprint s = book_fingerprint (bb_manager (down f))"
proof -
  from default_rings obtain s0 where "rings_run True PipelineConfig_default (wire sample_messages) (Inr s0)"
    by blast
  from rings_run_finish [OF this default_period] obtain s where s:
    "rings_run True PipelineConfig_default (wire sample_messages) (Inr s)" "pipe_finished (flat s)" by blast
  then have "pl_book s = BExit" by (simp add: pipe_finished_def)
  from rings_equal_sequential [OF s(1) default_period this] s(1) show ?thesis by blast
qed

text \<open>C25. Refinement: every run of the pipeline over its two rings is a run of the pipeline over two
  bounded sequences of items, with the same variables of the threads and the items in flight as
  the contents of the queues; it faults only where that one does.\<close>

theorem rings_refine_pipeline:
  assumes "rings_run ndebug cfg msgs r"
  shows "pipeline_run ndebug cfg msgs (case r of Inl e \<Rightarrow> Inl e | Inr s \<Rightarrow> Inr (flat s))"
  by (rule rings_run_flat [OF assms]) (cases r; simp)

theorem rings_refine_pipeline_witness:
  "\<exists>s. rings_run True PipelineConfig_default (wire sample_messages) (Inr s) \<and>
    pipeline_run True PipelineConfig_default (wire sample_messages) (Inr (flat s))"
proof -
  from default_rings obtain s where s: "rings_run True PipelineConfig_default (wire sample_messages) (Inr s)"
    by blast
  from rings_refine_pipeline [OF s] s show ?thesis by auto
qed

text \<open>C31. No run of the pipeline faults, for every nonzero sampling period: whatever the bytes, the
  interleaving and the build, no slot of a ring is accessed out of range, every step gives a state,
  and in it the books still represent live orders. A period of zero divides by zero at the first
  frame (\<open>zero_period_faults\<close>).\<close>

theorem rings_safe:
  assumes "rings_run ndebug cfg msgs r" and "pc_analytics_every cfg \<noteq> 0"
  shows "\<exists>s. r = Inr s \<and> builder_ok (down (pl_feed s))"
proof -
  from rings_run_inv [OF assms] obtain s where "r = Inr s" "pipe_inv ndebug msgs (flat s)" by metis
  then show ?thesis by (auto simp: pipe_inv_def builder_inv_def)
qed

theorem rings_safe_witness:
  "\<exists>s. rings_run False PipelineConfig_default (wire sample_messages) (Inr s) \<and> pl_book s = BExit \<and>
    builder_ok (down (pl_feed s))"
proof -
  from default_rings obtain s0 where "rings_run False PipelineConfig_default (wire sample_messages) (Inr s0)"
    by blast
  from rings_run_finish [OF this default_period] obtain s where s:
    "rings_run False PipelineConfig_default (wire sample_messages) (Inr s)" "pipe_finished (flat s)" by blast
  with rings_safe [OF s(1) default_period] show ?thesis by (auto simp: pipe_finished_def)
qed

text \<open>The shutdown protocol never gets stuck: from every state a run can reach, however full the
  queues and in whatever stage of a queue operation the threads are, they can go on to a state in
  which all three have ended.\<close>

theorem rings_can_finish:
  assumes "rings_run ndebug cfg msgs (Inr s)" and "pc_analytics_every cfg \<noteq> 0"
  shows "\<exists>s'. ring_reach ndebug cfg msgs s (Inr s') \<and>
    pl_ingest s' = IExit \<and> pl_book s' = BExit \<and> pl_analytics s' = AExit"
  using rings_run_finish [OF assms] by (auto simp: pipe_finished_def)

theorem rings_can_finish_witness:
  "\<exists>s s'. rings_run True PipelineConfig_default (wire sample_messages) (Inr s) \<and>
    ring_reach True PipelineConfig_default (wire sample_messages) s (Inr s') \<and> pl_analytics s' = AExit"
proof -
  from default_rings obtain s where s: "rings_run True PipelineConfig_default (wire sample_messages) (Inr s)"
    by blast
  from rings_can_finish [OF s default_period] s show ?thesis by blast
qed

end
