(* ===== verification/Pipeline_Spinning.thy ===== *)
theory Pipeline_Spinning
  imports Pipeline_Rings
begin

text \<open>
  The loops of the pipeline of theory \<open>Pipeline_Rings\<close>. Every step of a thread leaves less to do
  (\<open>effort\<close>) or goes round the loop in which the thread waits for another one and changes nothing the
  others can see (\<open>thread_settles\<close>). A sequence of steps therefore comes to a point behind which all
  threads only wait (\<open>measures_settle\<close>); there a consumer that sees what is stored finds its queue
  empty, or ends when it sees the flag too, and a producer finds its queue full.
\<close>

section \<open>The effort left\<close>

fun book_stage :: "book_pc \<Rightarrow> nat" where
  "book_stage (BEmit ts final) = (if final then 2 else 4)"
| "book_stage BFinish = 1"
| "book_stage BExit = 0"
| "book_stage _ = 3"

fun emits_left :: "book_pc \<Rightarrow> nat" where
  "emits_left (BEmit ts final) = length ts"
| "emits_left _ = 0"

text \<open>What is left, the first difference decides: bytes to scan and frames to push or pop, the stages
  of a push and of a pop of a frame, the book thread's way, its ticks to emit, the stages of their
  push, ticks to pop, the stages of that, the end of analytics.\<close>

definition effort :: "byte list \<Rightarrow> (rings \<Rightarrow> nat) list" where
  "effort msgs =
     [\<lambda>s. ingest_left msgs (flat s), \<lambda>s. min 3 (push_left (producer (rp_frames s))),
      \<lambda>s. min 3 (pop_left (consumer (rp_frames s))), \<lambda>s. book_stage (pl_book s),
      \<lambda>s. emits_left (pl_book s), \<lambda>s. push_left (producer (rp_ticks s)),
      \<lambda>s. length (in_flight (rp_ticks s)), \<lambda>s. min 3 (pop_left (consumer (rp_ticks s))),
      \<lambda>s. if pl_analytics s = AExit then 0 else 1]"

text \<open>Where a thread is in its loop around a queue: about to call, to load the other thread's index,
  to read the flag, to test for empty. \<open>Away\<close> is every place it cannot go back to.\<close>

datatype loop_phase = Begin | Load | Flag | Test | Away

fun push_phase :: "'a producer \<Rightarrow> loop_phase" where
  "push_phase PIdle = Begin"
| "push_phase (PLoad item) = Load"
| "push_phase _ = Away"

fun pop_phase :: "'a consumer \<Rightarrow> loop_phase" where
  "pop_phase CIdle = Begin"
| "pop_phase CLoad = Load"
| "pop_phase _ = Away"

fun ingest_place :: "ingest_pc \<Rightarrow> loop_phase \<Rightarrow> loop_phase" where
  "ingest_place (IPush off fr) p = p"
| "ingest_place _ p = Away"

fun book_place :: "book_pc \<Rightarrow> loop_phase \<Rightarrow> loop_phase" where
  "book_place BPop p = p"
| "book_place BFlag p = Flag"
| "book_place BEmpty p = Test"
| "book_place _ p = Away"

fun analytics_place :: "analytics_pc \<Rightarrow> loop_phase \<Rightarrow> loop_phase" where
  "analytics_place APop p = p"
| "analytics_place AFlag p = Flag"
| "analytics_place AEmpty p = Test"
| "analytics_place AExit p = Away"

fun phase :: "thread \<Rightarrow> rings \<Rightarrow> loop_phase" where
  "phase Ingest s = ingest_place (pl_ingest s) (push_phase (producer (rp_frames s)))"
| "phase Book s = book_place (pl_book s) (pop_phase (consumer (rp_frames s)))"
| "phase Analytics s = analytics_place (pl_analytics s) (pop_phase (consumer (rp_ticks s)))"

text \<open>A step of a consumer that gets it nowhere.\<close>

definition drain_step :: "loop_phase \<Rightarrow> loop_phase \<Rightarrow> 'a spsc \<Rightarrow> 'a spsc \<Rightarrow> bool" where
  "drain_step p p' q q' \<longleftrightarrow> (case p of
       Begin \<Rightarrow> p' = Load
     | Load \<Rightarrow> p' = Flag \<and> pop_empty (c_view q') (ring q)
     | Flag \<Rightarrow> p' \<noteq> Flag
     | Test \<Rightarrow> p' \<noteq> Flag \<and> p' \<noteq> Test \<and> in_flight q \<noteq> []
     | Away \<Rightarrow> False)"

text \<open>What the threads share.\<close>

definition shared :: "rings \<Rightarrow> ingest_pc \<times> bool \<times> bool \<times> (Frame ring \<times> Frame list \<times> Frame list) \<times>
    (Tick ring \<times> Tick list \<times> Tick list)" where
  "shared s = (pl_ingest s, pl_ingest_done s, pl_book_done s,
     (ring (rp_frames s), pushed (rp_frames s), popped (rp_frames s)),
     (ring (rp_ticks s), pushed (rp_ticks s), popped (rp_ticks s)))"

text \<open>A step of a thread that goes round its loop, and what every step does: less is left to do, or
  the thread spins.\<close>

fun spins :: "thread \<Rightarrow> rings \<Rightarrow> rings \<Rightarrow> bool" where
  "spins Ingest s s' \<longleftrightarrow> shared s' = shared s \<and> phase Book s' = phase Book s \<and>
     phase Analytics s' = phase Analytics s \<and> (case phase Ingest s of
         Begin \<Rightarrow> phase Ingest s' = Load
       | Load \<Rightarrow> phase Ingest s' = Begin \<and> push_full (p_view (rp_frames s')) (ring (rp_frames s))
       | _ \<Rightarrow> False)"
| "spins Book s s' \<longleftrightarrow> shared s' = shared s \<and> phase Ingest s' = phase Ingest s \<and>
     phase Analytics s' = phase Analytics s \<and>
     drain_step (phase Book s) (phase Book s') (rp_frames s) (rp_frames s')"
| "spins Analytics s s' \<longleftrightarrow> shared s' = shared s \<and> phase Ingest s' = phase Ingest s \<and>
     phase Book s' = phase Book s \<and>
     drain_step (phase Analytics s) (phase Analytics s') (rp_ticks s) (rp_ticks s')"

definition settles :: "byte list \<Rightarrow> thread \<Rightarrow> rings \<Rightarrow> rings \<Rightarrow> bool" where
  "settles msgs who s s' \<longleftrightarrow>
     (s', s) \<in> measures (effort msgs) \<or> spins who s s' \<and> (\<forall>f \<in> set (effort msgs). f s' = f s)"

section \<open>Every step settles\<close>

lemma in_flight_updates [simp]:
  "in_flight (q\<lparr>producer := p\<rparr>) = in_flight q" "in_flight (q\<lparr>consumer := c\<rparr>) = in_flight q"
  "in_flight (q\<lparr>p_view := k\<rparr>) = in_flight q" "in_flight (q\<lparr>c_view := k\<rparr>) = in_flight q"
  "in_flight (q\<lparr>ring := r\<rparr>) = in_flight q"
  by (simp_all add: in_flight_def)

lemmas spins_defs = shared_def drain_step_def

lemma settles_less: "(s', s) \<in> measures (effort msgs) \<Longrightarrow> settles msgs who s s'"
  by (simp add: settles_def)

lemma settles_spin: "spins who s s' \<Longrightarrow> (\<forall>f \<in> set (effort msgs). f s' = f s) \<Longrightarrow> settles msgs who s s'"
  by (simp add: settles_def)

lemma push_step_kinds:
  assumes "push_step item q (Inr (res, q'))" and "spsc_inv e q" and "e \<le> 64"
  obtains (starts) "res = None" "producer q = PIdle" "q' = q\<lparr>producer := PLoad item\<rparr>"
  | (refused) k where "res = Some False" "producer q = PLoad item" "push_full k (ring q)"
      "q' = q\<lparr>producer := PIdle, p_view := k\<rparr>"
  | (goes) "res = None" "min 3 (push_left (producer q')) < min 3 (push_left (producer q))" "in_flight q' = in_flight q"
  | (ends) "res = Some True" "length (in_flight q') = Suc (length (in_flight q))"
  using assms(1)
proof cases
  case push_true
  with push_step_keeps(2) [OF assms] have "in_flight q' = in_flight q @ [item]"
    by (simp only: fifo_enq_def) (simp split: if_splits)
  with push_true(1) show thesis by (intro ends) simp_all
qed (auto simp: Inr_eq_ebind_iff intro: starts refused goes)

lemma pop_step_kinds:
  assumes "pop_step q (Inr (res, q'))" and "spsc_inv e q" and "e \<le> 64"
  obtains (starts) "res = None" "consumer q = CIdle" "q' = q\<lparr>consumer := CLoad\<rparr>"
  | (refused) k where "res = Some None" "consumer q = CLoad" "pop_empty k (ring q)"
      "q' = q\<lparr>consumer := CIdle, c_view := k\<rparr>"
  | (goes) "res = None" "min 3 (pop_left (consumer q')) < min 3 (pop_left (consumer q))" "in_flight q' = in_flight q"
  | (ends) item where "res = Some (Some item)" "length (in_flight q) = Suc (length (in_flight q'))"
  using assms(1)
proof cases
  case (pop_true out)
  with pop_step_keeps(2) [OF assms] have "fifo_deq (in_flight q) = Some (out, in_flight q')" by simp
  then have "in_flight q = out # in_flight q'" by (simp only: fifo_deq_def) (simp split: list.splits)
  with pop_true(1) show thesis by (intro ends [of out]) simp_all
qed (auto simp: Inr_eq_ebind_iff intro: starts refused goes)

lemma phase_pop [simp]: "pop_phase c \<noteq> Flag" "pop_phase c \<noteq> Test"
  by (cases c; simp)+

lemma push_settles:
  assumes "pl_ingest s = IPush off fr" and "push_step fr (rp_frames s) (Inr (res, q))"
    and "spsc_inv ef (rp_frames s)" and "ef \<le> 64"
  shows "settles msgs Ingest s (if res = Some True then s\<lparr>rp_frames := q, pl_ingest := IScan off\<rparr>
                              else s\<lparr>rp_frames := q\<rparr>)"
  using assms(2-4)
proof (cases rule: push_step_kinds)
  case starts
  with assms(1) show ?thesis by (intro settles_spin) (simp_all add: spins_defs effort_def ingest_left_def)
next
  case (refused k)
  with assms(1) show ?thesis by (intro settles_spin) (simp_all add: spins_defs effort_def ingest_left_def)
next
  case goes
  with assms(1) show ?thesis by (intro settles_less) (simp add: effort_def ingest_left_def)
next
  case ends
  with assms(1) show ?thesis by (intro settles_less) (simp add: effort_def ingest_left_def)
qed

lemma ingest_settles:
  assumes "thread_step ndebug cfg msgs s Ingest (Inr s')" and "pipe_inv ndebug msgs (flat s)"
    and "rings_ok ef et s" and "ef \<le> 64"
  shows "settles msgs Ingest s s'"
  using assms(1)
proof cases
  case (ri_scan off)
  then obtain pc where pc: "ingest_scan msgs off = Inr pc" "s' = s\<lparr>pl_ingest := pc\<rparr>"
    by (auto simp: Inr_eq_ebind_iff)
  with ri_scan scan_left [OF assms(2), of off pc] show ?thesis
    by (intro settles_less) (simp add: effort_def)
next
  case (ri_push off fr x)
  then obtain res q where "x = Inr (res, q)" by (auto simp: Inr_eq_ebind_iff)
  with ri_push push_settles [OF ri_push(2), of res q ef msgs] assms(3,4) show ?thesis
    by (simp add: rings_ok_def)
next
  case ri_done
  then show ?thesis by (intro settles_less) (simp add: effort_def ingest_left_def)
qed

lemma book_pop_settles:
  assumes "pl_book s = BPop" and "pop_step (rp_frames s) (Inr (res, q))"
    and "spsc_inv ef (rp_frames s)" and "ef \<le> 64"
    and "(case res of None \<Rightarrow> Inr (s\<lparr>rp_frames := q\<rparr>)
     | Some None \<Rightarrow> Inr (s\<lparr>rp_frames := q, pl_book := BFlag\<rparr>)
     | Some (Some fr) \<Rightarrow> book_frame ndebug cfg fr (s\<lparr>rp_frames := q\<rparr>)) = Inr s'"
  shows "settles msgs Book s s'"
  using assms(2-4)
proof (cases rule: pop_step_kinds)
  case starts
  with assms(1,5) have s': "s' = s\<lparr>rp_frames := (rp_frames s)\<lparr>consumer := CLoad\<rparr>\<rparr>" by simp
  show ?thesis unfolding s' using starts assms(1)
    by (intro settles_spin) (simp_all add: spins_defs effort_def ingest_left_def)
next
  case (refused k)
  with assms(1,5) have s': "s' = s\<lparr>rp_frames := (rp_frames s)\<lparr>consumer := CIdle, c_view := k\<rparr>, pl_book := BFlag\<rparr>"
    by simp
  show ?thesis unfolding s' using refused assms(1)
    by (intro settles_spin) (simp_all add: spins_defs effort_def ingest_left_def)
next
  case goes
  with assms(5) have s': "s' = s\<lparr>rp_frames := q\<rparr>" by simp
  from pop_step_keeps(1) [OF assms(2-4)] have "producer q = producer (rp_frames s)" .
  with goes show ?thesis unfolding s'
    by (intro settles_less) (simp add: effort_def ingest_left_def)
next
  case (ends fr)
  with assms(5) have "book_frame ndebug cfg fr (s\<lparr>rp_frames := q\<rparr>) = Inr s'" by simp
  note keep = book_frame_keeps(1,3) [OF this]
  from ends keep show ?thesis by (intro settles_less) (simp add: effort_def ingest_left_def)
qed

lemma tick_settles:
  assumes "pl_book s = BEmit (t # ts) final" and "push_step t (rp_ticks s) (Inr (res, q))"
  shows "settles msgs Book s (if res = None then s\<lparr>rp_ticks := q\<rparr>
                              else s\<lparr>rp_ticks := q, pl_book := BEmit ts final\<rparr>)"
proof (cases "res = None")
  case True
  with assms(2) have "push_left (producer q) < push_left (producer (rp_ticks s))"
    by cases (auto simp: Inr_eq_ebind_iff)
  with True assms(1) show ?thesis by (intro settles_less) (simp add: effort_def ingest_left_def)
next
  case False
  then obtain b where "res = Some b" by blast
  with assms(1) show ?thesis by (intro settles_less) (simp add: effort_def ingest_left_def)
qed

lemma book_settles:
  assumes "thread_step ndebug cfg msgs s Book (Inr s')" and "rings_ok ef et s" and "ef \<le> 64"
  shows "settles msgs Book s s'"
  using assms(1)
proof cases
  case (rb_pop x)
  then obtain res q where "x = Inr (res, q)" by (auto simp: Inr_eq_ebind_iff)
  with rb_pop assms(2,3) show ?thesis
    by (intro book_pop_settles [of s res q ef]) (simp_all add: rings_ok_def)
next
  case rb_running
  then show ?thesis by (intro settles_spin) (simp_all add: spins_defs effort_def ingest_left_def)
next
  case rb_flag
  then show ?thesis
    by (intro settles_spin) (simp_all add: spins_defs effort_def ingest_left_def see_heads_def)
next
  case (rb_empty b q)
  from assms(2) rb_empty(2) have inv: "spsc_inv ef (rp_frames s)"
    "c_view (rp_frames s) = length (pushed (rp_frames s))" by (auto simp: rings_ok_def)
  from rb_empty(3) obtain k where q: "q = (rp_frames s)\<lparr>c_view := k\<rparr>" by cases simp
  show ?thesis
  proof (cases b)
    case True
    with rb_empty(1,2) q show ?thesis by (intro settles_less) (simp add: effort_def ingest_left_def)
  next
    case False
    with empty_step_ok(5) [OF rb_empty(3) inv(1) assms(3) inv(2)] have "in_flight (rp_frames s) \<noteq> []" by simp
    with False rb_empty(1,2) q show ?thesis
      by (intro settles_spin) (simp_all add: spins_defs effort_def ingest_left_def)
  qed
next
  case (rb_tick t ts final x)
  then obtain res q where "x = Inr (res, q)" by (auto simp: Inr_eq_ebind_iff)
  with rb_tick tick_settles [OF rb_tick(2), of res q msgs] show ?thesis by simp
next
  case (rb_emitted final)
  then show ?thesis by (intro settles_less) (simp add: effort_def ingest_left_def)
next
  case rb_finish
  then show ?thesis by (intro settles_less) (simp add: effort_def ingest_left_def book_finish_def)
qed

lemma analytics_pop_settles:
  assumes "pl_analytics s = APop" and "pop_step (rp_ticks s) (Inr (res, q))"
    and "spsc_inv et (rp_ticks s)" and "et \<le> 64"
  shows "settles msgs Analytics s (case res of
       None \<Rightarrow> s\<lparr>rp_ticks := q\<rparr>
     | Some None \<Rightarrow> s\<lparr>rp_ticks := q, pl_analytics := AFlag\<rparr>
     | Some (Some t) \<Rightarrow> s\<lparr>rp_ticks := q, pl_last_tick := t, pl_result := r\<rparr>)"
  using assms(2-4)
proof (cases rule: pop_step_kinds)
  case starts
  with assms(1) show ?thesis by (intro settles_spin) (simp_all add: spins_defs effort_def ingest_left_def)
next
  case (refused k)
  with assms(1) show ?thesis by (intro settles_spin) (simp_all add: spins_defs effort_def ingest_left_def)
next
  case goes
  with assms(1) pop_step_keeps(1) [OF assms(2-4)] show ?thesis
    by (intro settles_less) (simp add: effort_def ingest_left_def)
next
  case (ends t)
  with assms(1) pop_step_keeps(1) [OF assms(2-4)] show ?thesis
    by (intro settles_less) (simp add: effort_def ingest_left_def)
qed

lemma analytics_settles:
  assumes "thread_step ndebug cfg msgs s Analytics (Inr s')" and "rings_ok ef et s" and "et \<le> 64"
  shows "settles msgs Analytics s s'"
  using assms(1)
proof cases
  case (ra_pop x)
  then obtain res q where x: "x = Inr (res, q)" by (auto simp: Inr_eq_ebind_iff)
  have "spsc_inv et (rp_ticks s)" using assms(2) by (simp add: rings_ok_def)
  from analytics_pop_settles [OF ra_pop(2) ra_pop(3) [unfolded x] this assms(3)] ra_pop(1) show ?thesis
    by (simp add: x)
next
  case ra_running
  then show ?thesis by (intro settles_spin) (simp_all add: spins_defs effort_def ingest_left_def)
next
  case ra_flag
  then show ?thesis
    by (intro settles_spin) (simp_all add: spins_defs effort_def ingest_left_def see_heads_def)
next
  case (ra_empty b q)
  from assms(2) ra_empty(2) have inv: "spsc_inv et (rp_ticks s)"
    "c_view (rp_ticks s) = length (pushed (rp_ticks s))" by (auto simp: rings_ok_def)
  from ra_empty(3) obtain k where q: "q = (rp_ticks s)\<lparr>c_view := k\<rparr>" by cases simp
  show ?thesis
  proof (cases b)
    case True
    with ra_empty(1,2) q show ?thesis by (intro settles_less) (simp add: effort_def ingest_left_def)
  next
    case False
    with empty_step_ok(5) [OF ra_empty(3) inv(1) assms(3) inv(2)] have "in_flight (rp_ticks s) \<noteq> []" by simp
    with False ra_empty(1,2) q show ?thesis
      by (intro settles_spin) (simp_all add: spins_defs effort_def ingest_left_def)
  qed
qed

lemma thread_settles:
  assumes "thread_step ndebug cfg msgs s who (Inr s')" and "pipe_inv ndebug msgs (flat s)"
    and "rings_ok ef et s" and "ef \<le> 64" "et \<le> 64"
  shows "settles msgs who s s'"
  using assms ingest_settles book_settles [of ndebug cfg msgs s s'] analytics_settles [of ndebug cfg msgs s s']
  by (cases who) simp_all

lemma spins_others: "spins who s s' \<Longrightarrow> t \<noteq> who \<Longrightarrow> phase t s' = phase t s"
  by (cases who; cases t) simp_all

lemma spins_stored: "spins who s s' \<Longrightarrow> shared s' = shared s"
  by (cases who) simp_all

section \<open>Sequences that settle\<close>

lemma measures_cong: "\<forall>f \<in> set fs. f y = f z \<Longrightarrow> (x, y) \<in> measures fs \<longleftrightarrow> (x, z) \<in> measures fs"
  by (induction fs) auto

lemma measures_settle:
  assumes "\<And>k. (\<sigma> (Suc k), \<sigma> k) \<in> measures fs \<or> (\<forall>f \<in> set fs. f (\<sigma> (Suc k)) = f (\<sigma> k))"
  obtains N where "\<And>k. N \<le> k \<Longrightarrow> (\<sigma> (Suc k), \<sigma> k) \<notin> measures fs"
proof -
  have "\<sigma> 0 \<in> range \<sigma>" by simp
  from wfE_min [OF wf_measures this, of fs] obtain N where N: "(\<sigma> k, \<sigma> N) \<notin> measures fs" for k
    by (metis rangeE rangeI)
  have same: "\<forall>f \<in> set fs. f (\<sigma> k) = f (\<sigma> N)" if "N \<le> k" for k
    using that
  proof (induction k rule: dec_induct)
    case (step k)
    with measures_cong [OF step.IH] N assms [of k] show ?case by metis
  qed simp
  show thesis
    by (rule that [of N]) (use measures_cong [OF same] N in blast)
qed

text \<open>The last load of the other thread's index returned nothing older than what \<open>past\<close> holds.\<close>

definition tails_seen :: "'a spsc \<Rightarrow> 'a spsc \<Rightarrow> bool" where
  "tails_seen past q \<longleftrightarrow> length (tails (ring past)) \<le> Suc (p_view q)"

definition heads_seen :: "'a spsc \<Rightarrow> 'a spsc \<Rightarrow> bool" where
  "heads_seen past q \<longleftrightarrow> length (heads (ring past)) \<le> Suc (c_view q)"

text \<open>A loop: its thread moves again and again, its place changes with its moves only.\<close>

definition loops :: "nat \<Rightarrow> (nat \<Rightarrow> bool) \<Rightarrow> (nat \<Rightarrow> loop_phase) \<Rightarrow> bool" where
  "loops N mv ph \<longleftrightarrow> (\<forall>i. \<exists>j\<ge>i. mv j) \<and> (\<forall>k\<ge>N. \<not> mv k \<longrightarrow> ph (Suc k) = ph k)"

lemma next_move:
  assumes "loops N mv ph" and "N \<le> i"
  obtains j where "i \<le> j" and "mv j" and "ph j = ph i"
proof -
  define j where "j = (LEAST j. i \<le> j \<and> mv j)"
  from assms(1) have "\<exists>j. i \<le> j \<and> mv j" by (simp add: loops_def)
  then have j: "i \<le> j" "mv j" unfolding j_def by (metis (mono_tags, lifting) LeastI)+
  have before: "\<not> mv k" if "i \<le> k" "k < j" for k
    using not_less_Least [of k "\<lambda>j. i \<le> j \<and> mv j"] that unfolding j_def by blast
  have "ph j = ph i"
    using j(1)
  proof (induction rule: inc_induct)
    case (step k)
    with before [of k] assms have "ph (Suc k) = ph k" by (simp add: loops_def)
    with step.IH show ?case by simp
  qed simp
  with j show thesis by (rule that)
qed

text \<open>The loop of a consumer around a queue \<open>q\<close> in which nothing more is stored, \<open>p\<close>, once all
  that is stored is seen.\<close>

definition drains ::
  "nat \<Rightarrow> (nat \<Rightarrow> bool) \<Rightarrow> (nat \<Rightarrow> loop_phase) \<Rightarrow> nat \<Rightarrow> 'a spsc \<Rightarrow> (nat \<Rightarrow> 'a spsc) \<Rightarrow> bool" where
  "drains N mv ph e p q \<longleftrightarrow> loops N mv ph \<and> e \<le> 64 \<and> (\<forall>k\<ge>N.
     spsc_inv e (q k) \<and> ring (q k) = ring p \<and> pushed (q k) = pushed p \<and> popped (q k) = popped p \<and>
     (mv k \<longrightarrow> drain_step (ph k) (ph (Suc k)) (q k) (q (Suc k)) \<and>
        (ph k = Load \<longrightarrow> heads_seen p (q (Suc k)))))"

lemma drains_loops: "drains N mv ph e p q \<Longrightarrow> loops N mv ph"
  by (simp add: drains_def)

lemma drains_move: "drains N mv ph e p q \<Longrightarrow> N \<le> k \<Longrightarrow> mv k \<Longrightarrow> drain_step (ph k) (ph (Suc k)) (q k) (q (Suc k))"
  by (simp add: drains_def)

lemma drains_loads:
  assumes "drains N mv ph e p q" and "N \<le> i"
  obtains j where "i \<le> j" and "mv j" and "ph j = Load"
proof -
  note loop = drains_loops [OF assms(1)] and move = drains_move [OF assms(1)]
  have now: "\<exists>j\<ge>i. mv j \<and> ph j = ph i" if "N \<le> i" for i
    using next_move [OF loop that] by blast
  have load: "\<exists>j\<ge>i. mv j \<and> ph j = Load" if "N \<le> i" "ph i = Load" for i using now [OF that(1)] that by auto
  have away: "ph i \<noteq> Away" if "N \<le> i" for i
  proof
    assume "ph i = Away"
    with now [OF that] obtain j where "i \<le> j" "mv j" "ph j = Away" by auto
    with move [of j] that show False by (simp add: drain_step_def)
  qed
  have begins: "\<exists>j\<ge>i. mv j \<and> ph j = Load" if "N \<le> i" "ph i = Begin" for i
  proof -
    from now [OF that(1)] that(2) obtain j where j: "i \<le> j" "mv j" "ph j = Begin" by auto
    with move [of j] that(1) have "ph (Suc j) = Load" by (simp add: drain_step_def)
    with load [of "Suc j"] j(1) that(1) show ?thesis by (meson le_SucI order_trans)
  qed
  have tests: "\<exists>j\<ge>i. mv j \<and> ph j = Load" if "N \<le> i" "ph i = Test" for i
  proof -
    from now [OF that(1)] that(2) obtain j where j: "i \<le> j" "mv j" "ph j = Test" by auto
    with move [of j] that(1) away [of "Suc j"] have "ph (Suc j) = Begin \<or> ph (Suc j) = Load"
      by (cases "ph (Suc j)") (simp_all add: drain_step_def)
    with load [of "Suc j"] begins [of "Suc j"] j(1) that(1) show ?thesis by (meson le_SucI order_trans)
  qed
  have flags: "\<exists>j\<ge>i. mv j \<and> ph j = Load" if "N \<le> i" "ph i = Flag" for i
  proof -
    from now [OF that(1)] that(2) obtain j where j: "i \<le> j" "mv j" "ph j = Flag" by auto
    with move [of j] that(1) away [of "Suc j"] have "ph (Suc j) = Begin \<or> ph (Suc j) = Load \<or> ph (Suc j) = Test"
      by (cases "ph (Suc j)") (simp_all add: drain_step_def)
    with load [of "Suc j"] begins [of "Suc j"] tests [of "Suc j"] j(1) that(1) have "\<exists>j'\<ge>Suc j. mv j' \<and> ph j' = Load"
      by auto
    with j(1) show ?thesis by (meson Suc_leD order_trans)
  qed
  have "\<exists>j\<ge>i. mv j \<and> ph j = Load"
    using begins [OF assms(2)] load [OF assms(2)] flags [OF assms(2)] tests [OF assms(2)] away [OF assms(2)]
    by (cases "ph i") simp_all
  with that show thesis by blast
qed

text \<open>A loop that loads the last head stored finds its queue empty.\<close>

lemma drains_empty:
  assumes "drains N mv ph e p q"
  shows "in_flight p = []"
proof -
  let ?np = "length (pushed p)" and ?nc = "length (popped p)"
  from drains_loads [OF assms order_refl] obtain j where j: "N \<le> j" "mv j" "ph j = Load" .
  let ?q = "q (Suc j)"
  from assms j have q: "spsc_inv e ?q" "e \<le> 64" "ring ?q = ring p" "pushed ?q = pushed p" "popped ?q = popped p"
    "heads_seen p ?q" "pop_empty (c_view ?q) (ring p)" by (auto simp: drains_def drain_step_def)
  from q(1,3-5) have inv: "ring_counts e ?np ?nc (ring p)" "?nc \<le> ?np" "?np < ?nc + 2 ^ e" "c_view ?q \<le> ?np"
    by (auto simp: spsc_inv_def Let_def)
  note counts = ring_counts_simps [OF inv(1) q(2)]
  from q(6) inv(4) counts(3) have "c_view ?q = ?np" by (simp add: heads_seen_def)
  with q(7) counts(9) [of ?np] have "?nc mod 2 ^ e = ?np mod 2 ^ e" by simp
  with inv(2,3) slots_differ [of ?nc ?np "2 ^ e"] have "?nc = ?np" by (metis le_neq_implies_less)
  then show ?thesis by (simp add: in_flight_def)
qed

text \<open>One that also sees the flag of its producer ends.\<close>

lemma drains_ends:
  assumes "drains N mv ph e p q" and flag: "\<And>k. N \<le> k \<Longrightarrow> mv k \<Longrightarrow> ph k = Flag \<Longrightarrow> ph (Suc k) = Test"
  shows False
proof -
  note next_move = next_move [OF drains_loops [OF assms(1)]] and move = drains_move [OF assms(1)]
  from drains_loads [OF assms(1) order_refl] obtain i where i: "N \<le> i" "mv i" "ph i = Load" .
  with move [of i] have "N \<le> Suc i" "ph (Suc i) = Flag" by (simp_all add: drain_step_def)
  with next_move [of "Suc i"] obtain j where j: "N \<le> j" "mv j" "ph j = Flag" by (metis order_trans)
  with flag [of j] have "N \<le> Suc j" "ph (Suc j) = Test" by simp_all
  with next_move [of "Suc j"] obtain k where k: "N \<le> k" "mv k" "ph k = Test" by (metis order_trans)
  with move [of k] have "in_flight (q k) \<noteq> []" by (simp add: drain_step_def)
  with k(1) assms(1) have "in_flight p \<noteq> []" by (simp add: drains_def in_flight_def)
  with drains_empty [OF assms(1)] show False by contradiction
qed

text \<open>The loop of a producer around such a queue finds it full.\<close>

definition refuses ::
  "nat \<Rightarrow> (nat \<Rightarrow> bool) \<Rightarrow> (nat \<Rightarrow> loop_phase) \<Rightarrow> nat \<Rightarrow> 'a spsc \<Rightarrow> (nat \<Rightarrow> 'a spsc) \<Rightarrow> bool" where
  "refuses N mv ph e p q \<longleftrightarrow> loops N mv ph \<and> e \<le> 64 \<and> (\<forall>k\<ge>N.
     spsc_inv e (q k) \<and> ring (q k) = ring p \<and> pushed (q k) = pushed p \<and> popped (q k) = popped p \<and>
     (mv k \<longrightarrow> (case ph k of
        Begin \<Rightarrow> ph (Suc k) = Load
      | Load \<Rightarrow> tails_seen p (q (Suc k)) \<and> push_full (p_view (q (Suc k))) (ring (q k))
      | _ \<Rightarrow> False)))"

lemma refuses_full:
  assumes "refuses N mv ph e p q"
  shows "length (in_flight p) = 2 ^ e - 1"
proof -
  let ?np = "length (pushed p)" and ?nc = "length (popped p)"
  from assms have loop: "loops N mv ph" by (simp add: refuses_def)
  obtain j where j: "N \<le> j" "mv j" "ph j = Load"
  proof -
    from next_move [OF loop order_refl] obtain i where i: "N \<le> i" "mv i" .
    show thesis
    proof (cases "ph i")
      case Begin
      from assms i have "case ph i of Begin \<Rightarrow> ph (Suc i) = Load | _ \<Rightarrow> True"
        by (auto simp: refuses_def split: loop_phase.splits)
      with Begin i(1) have "N \<le> Suc i" "ph (Suc i) = Load" by simp_all
      with next_move [OF loop, of "Suc i"] that show thesis by (metis order_trans)
    qed (use assms i that in \<open>auto simp: refuses_def\<close>)
  qed
  let ?q = "q (Suc j)"
  from assms j have q: "spsc_inv e ?q" "e \<le> 64" "ring ?q = ring p" "pushed ?q = pushed p" "popped ?q = popped p"
    "tails_seen p ?q" "push_full (p_view ?q) (ring p)" by (auto simp: refuses_def)
  from q(1,3-5) have inv: "ring_counts e ?np ?nc (ring p)" "?nc \<le> ?np" "?np < ?nc + 2 ^ e" "p_view ?q \<le> ?nc"
    by (auto simp: spsc_inv_def Let_def)
  note counts = ring_counts_simps [OF inv(1) q(2)]
  from q(6) inv(4) counts(4) have "p_view ?q = ?nc" by (simp add: tails_seen_def)
  with q(7) counts(8) [of ?nc] have "Suc ?np mod 2 ^ e = ?nc mod 2 ^ e" by simp
  with inv(2,3) slots_differ [of ?nc "Suc ?np" "2 ^ e"] show ?thesis
    by (cases "Suc ?np = ?nc + 2 ^ e") (auto simp: in_flight_def)
qed

end
