(* ===== verification/Pipeline_Fairness.thy ===== *)
theory Pipeline_Fairness
  imports Pipeline_Spinning
begin

text \<open>
  Runs of the pipeline of \<^verbatim>\<open>ConcurrentPipeline::run\<close> under a scheduler. Two things are taken from the
  C++ standard ([intro.progress]): a thread that has not returned is scheduled again and again
  (\<open>fair\<close>), and what a thread stores becomes visible to the loads of the others after finitely many
  steps (\<open>eventually_visible\<close>). Under them \<^verbatim>\<open>run\<close> returns, with the result of the single-threaded path.
\<close>

section \<open>Schedules\<close>

text \<open>A thread that has returned.\<close>

fun ended :: "thread \<Rightarrow> rings \<Rightarrow> bool" where
  "ended Ingest s = (pl_ingest s = IExit)"
| "ended Book s = (pl_book s = BExit)"
| "ended Analytics s = (pl_analytics s = AExit)"

text \<open>A run of the pipeline in which \<open>\<tau> k\<close> is the thread that takes step \<open>k\<close>; one that has returned does
  nothing.\<close>

definition scheduled_run ::
  "bool \<Rightarrow> PipelineConfig \<Rightarrow> byte list \<Rightarrow> (nat \<Rightarrow> thread) \<Rightarrow> (nat \<Rightarrow> rings) \<Rightarrow> bool" where
  "scheduled_run ndebug cfg msgs \<tau> \<sigma> \<longleftrightarrow> (case run_queues cfg of
       None \<Rightarrow> False
     | Some (frames, ticks) \<Rightarrow> \<sigma> 0 = rings_init ndebug frames ticks \<and>
         (\<forall>k. if ended (\<tau> k) (\<sigma> k) then \<sigma> (Suc k) = \<sigma> k
              else thread_step ndebug cfg msgs (\<sigma> k) (\<tau> k) (Inr (\<sigma> (Suc k)))))"

definition fair :: "(nat \<Rightarrow> thread) \<Rightarrow> bool" where
  "fair \<tau> \<longleftrightarrow> (\<forall>t i. \<exists>j\<ge>i. \<tau> j = t)"

text \<open>The loads of the thread's step from \<open>s\<close> to \<open>s'\<close> return nothing older than what is stored in \<open>past\<close>:
  the tail in a push, the head in a pop and in the test for empty, the flag of the thread before.\<close>

fun sees :: "thread \<Rightarrow> rings \<Rightarrow> rings \<Rightarrow> rings \<Rightarrow> bool" where
  "sees Ingest past s s' \<longleftrightarrow>
     (\<forall>fr. producer (rp_frames s) = PLoad fr \<longrightarrow> tails_seen (rp_frames past) (rp_frames s'))"
| "sees Book past s s' \<longleftrightarrow>
     (pl_book s = BPop \<and> consumer (rp_frames s) = CLoad \<or> pl_book s = BEmpty \<longrightarrow>
        heads_seen (rp_frames past) (rp_frames s')) \<and>
     (pl_book s = BFlag \<and> pl_ingest_done past \<longrightarrow> pl_book s' = BEmpty) \<and>
     (\<forall>t. producer (rp_ticks s) = PLoad t \<longrightarrow> tails_seen (rp_ticks past) (rp_ticks s'))"
| "sees Analytics past s s' \<longleftrightarrow>
     (pl_analytics s = APop \<and> consumer (rp_ticks s) = CLoad \<or> pl_analytics s = AEmpty \<longrightarrow>
        heads_seen (rp_ticks past) (rp_ticks s')) \<and>
     (pl_analytics s = AFlag \<and> pl_book_done past \<longrightarrow> pl_analytics s' = AEmpty)"

definition eventually_visible :: "(nat \<Rightarrow> thread) \<Rightarrow> (nat \<Rightarrow> rings) \<Rightarrow> bool" where
  "eventually_visible \<tau> \<sigma> \<longleftrightarrow> (\<forall>i. \<exists>j. \<forall>k\<ge>j. sees (\<tau> k) (\<sigma> i) (\<sigma> k) (\<sigma> (Suc k)))"

section \<open>Fair runs end\<close>

lemma scheduled_step:
  assumes "scheduled_run ndebug cfg msgs \<tau> \<sigma>" and "\<not> ended (\<tau> k) (\<sigma> k)"
  shows "thread_step ndebug cfg msgs (\<sigma> k) (\<tau> k) (Inr (\<sigma> (Suc k)))"
  using assms by (auto simp: scheduled_run_def split: option.splits dest: spec [of _ k])

lemma scheduled_stay:
  "scheduled_run ndebug cfg msgs \<tau> \<sigma> \<Longrightarrow> ended (\<tau> k) (\<sigma> k) \<Longrightarrow> \<sigma> (Suc k) = \<sigma> k"
  by (auto simp: scheduled_run_def split: option.splits dest: spec [of _ k])

lemma scheduled_inv:
  assumes "scheduled_run ndebug cfg msgs \<tau> \<sigma>" and "pc_analytics_every cfg \<noteq> 0"
  obtains ef et where "1 \<le> ef" "ef \<le> 64" "et \<le> 64"
    and "\<And>k. rings_ok ef et (\<sigma> k)" and "\<And>k. pipe_inv ndebug msgs (flat (\<sigma> k))"
proof -
  from assms(1) obtain frames ticks where start: "run_queues cfg = Some (frames, ticks)"
    "\<sigma> 0 = rings_init ndebug frames ticks" by (auto simp: scheduled_run_def split: option.splits)
  from rings_start [OF start(1), of ndebug] obtain ef et where e: "1 \<le> ef" "ef \<le> 64" "et \<le> 64"
    "rings_ok ef et (\<sigma> 0)" "flat (\<sigma> 0) = pipeline_init ndebug" unfolding start(2) .
  have "rings_ok ef et (\<sigma> k) \<and> pipe_inv ndebug msgs (flat (\<sigma> k))" for k
  proof (induction k)
    case 0
    from e(4,5) pipe_inv_init show ?case by simp
  next
    case (Suc k)
    show ?case
    proof (cases "ended (\<tau> k) (\<sigma> k)")
      case True
      with Suc scheduled_stay [OF assms(1)] show ?thesis by simp
    next
      case False
      from thread_step_matched [OF scheduled_step [OF assms(1) False] _ e(2,3)] Suc have
        "rings_ok ef et (\<sigma> (Suc k))" "flat (\<sigma> (Suc k)) = flat (\<sigma> k) \<or>
           pipe_step ndebug cfg (2 ^ ef - 1) (2 ^ et - 1) msgs (flat (\<sigma> k)) (Inr (flat (\<sigma> (Suc k))))"
        by (simp_all add: matched_def)
      with Suc pipe_step_inv [OF _ _ assms(2)] show ?thesis by fastforce
    qed
  qed
  with that [OF e(1-3)] show thesis by blast
qed

text \<open>From some step on the threads only spin.\<close>

lemma scheduled_settles:
  assumes "scheduled_run ndebug cfg msgs \<tau> \<sigma>" and "ef \<le> 64" "et \<le> 64"
    and "\<And>k. rings_ok ef et (\<sigma> k)" and "\<And>k. pipe_inv ndebug msgs (flat (\<sigma> k))"
  obtains N where "\<And>k. N \<le> k \<Longrightarrow> ended (\<tau> k) (\<sigma> k) \<and> \<sigma> (Suc k) = \<sigma> k \<or> \<not> ended (\<tau> k) (\<sigma> k) \<and> spins (\<tau> k) (\<sigma> k) (\<sigma> (Suc k))"
proof -
  have step: "settles msgs (\<tau> k) (\<sigma> k) (\<sigma> (Suc k))" if "\<not> ended (\<tau> k) (\<sigma> k)" for k
    by (rule thread_settles [OF scheduled_step [OF assms(1) that] assms(5,4,2,3)])
  have "(\<sigma> (Suc k), \<sigma> k) \<in> measures (effort msgs) \<or> (\<forall>f \<in> set (effort msgs). f (\<sigma> (Suc k)) = f (\<sigma> k))" for k
    using step [of k] scheduled_stay [OF assms(1), of k] by (cases "ended (\<tau> k) (\<sigma> k)") (auto simp: settles_def)
  from measures_settle [of \<sigma>, OF this] obtain N where
    N: "\<And>k. N \<le> k \<Longrightarrow> (\<sigma> (Suc k), \<sigma> k) \<notin> measures (effort msgs)" by blast
  show thesis
    by (rule that [of N]) (use N step scheduled_stay [OF assms(1)] in \<open>auto simp: settles_def\<close>)
qed

lemma shared_iff:
  "shared s' = shared s \<longleftrightarrow> pl_ingest s' = pl_ingest s \<and> pl_ingest_done s' = pl_ingest_done s \<and>
     pl_book_done s' = pl_book_done s \<and> ring (rp_frames s') = ring (rp_frames s) \<and>
     pushed (rp_frames s') = pushed (rp_frames s) \<and> popped (rp_frames s') = popped (rp_frames s) \<and>
     ring (rp_ticks s') = ring (rp_ticks s) \<and> pushed (rp_ticks s') = pushed (rp_ticks s) \<and>
     popped (rp_ticks s') = popped (rp_ticks s)"
  by (auto simp: shared_def)

text \<open>A run in which nothing more is stored and all that is stored, as in \<open>p\<close>, is seen.\<close>

definition spinning ::
  "nat \<Rightarrow> nat \<Rightarrow> rings \<Rightarrow> nat \<Rightarrow> (nat \<Rightarrow> thread) \<Rightarrow> (nat \<Rightarrow> rings) \<Rightarrow> bool" where
  "spinning ef et p M \<tau> \<sigma> \<longleftrightarrow> fair \<tau> \<and> 1 \<le> ef \<and> ef \<le> 64 \<and> et \<le> 64 \<and> (\<forall>k\<ge>M.
     rings_ok ef et (\<sigma> k) \<and> shared (\<sigma> k) = shared p \<and> sees (\<tau> k) p (\<sigma> k) (\<sigma> (Suc k)) \<and>
     (if ended (\<tau> k) (\<sigma> k) then \<sigma> (Suc k) = \<sigma> k else spins (\<tau> k) (\<sigma> k) (\<sigma> (Suc k))))"

lemma spinningD:
  assumes "spinning ef et p M \<tau> \<sigma>" and "M \<le> k"
  shows "rings_ok ef et (\<sigma> k)" and "shared (\<sigma> k) = shared p" and "sees (\<tau> k) p (\<sigma> k) (\<sigma> (Suc k))"
    and "ended (\<tau> k) (\<sigma> k) \<Longrightarrow> \<sigma> (Suc k) = \<sigma> k" and "\<not> ended (\<tau> k) (\<sigma> k) \<Longrightarrow> spins (\<tau> k) (\<sigma> k) (\<sigma> (Suc k))"
  using assms by (auto simp: spinning_def)

lemma fair_run_spins:
  assumes run: "scheduled_run ndebug cfg msgs \<tau> \<sigma>" and period: "pc_analytics_every cfg \<noteq> 0"
    and fair: "fair \<tau>" and visible: "eventually_visible \<tau> \<sigma>"
  obtains ef et N M where "spinning ef et (\<sigma> N) M \<tau> \<sigma>" and "pipe_inv ndebug msgs (flat (\<sigma> N))"
    and "rings_ok ef et (\<sigma> N)"
proof -
  from scheduled_inv [OF run period] obtain ef et where e: "1 \<le> ef" "ef \<le> 64" "et \<le> 64"
    and ok: "\<And>k. rings_ok ef et (\<sigma> k)" and inv: "\<And>k. pipe_inv ndebug msgs (flat (\<sigma> k))" by blast
  from scheduled_settles [OF run e(2,3) ok inv] obtain N where
    N: "\<And>k. N \<le> k \<Longrightarrow> ended (\<tau> k) (\<sigma> k) \<and> \<sigma> (Suc k) = \<sigma> k \<or> \<not> ended (\<tau> k) (\<sigma> k) \<and> spins (\<tau> k) (\<sigma> k) (\<sigma> (Suc k))"
    by blast
  from visible obtain J where J: "\<And>k. J \<le> k \<Longrightarrow> sees (\<tau> k) (\<sigma> N) (\<sigma> k) (\<sigma> (Suc k))"
    by (auto simp: eventually_visible_def)
  have stored: "shared (\<sigma> k) = shared (\<sigma> N)" if "N \<le> k" for k
    using that
  proof (induction k rule: dec_induct)
    case (step k)
    with N [of k] spins_stored [of "\<tau> k" "\<sigma> k" "\<sigma> (Suc k)"] show ?case by auto
  qed simp
  have "spinning ef et (\<sigma> N) (max N J) \<tau> \<sigma>"
    unfolding spinning_def
  proof (intro conjI allI impI)
    fix k assume "max N J \<le> k"
    then have k: "N \<le> k" "J \<le> k" by simp_all
    show "rings_ok ef et (\<sigma> k)" by (rule ok)
    show "shared (\<sigma> k) = shared (\<sigma> N)" by (rule stored [OF k(1)])
    show "sees (\<tau> k) (\<sigma> N) (\<sigma> k) (\<sigma> (Suc k))" by (rule J [OF k(2)])
    show "if ended (\<tau> k) (\<sigma> k) then \<sigma> (Suc k) = \<sigma> k else spins (\<tau> k) (\<sigma> k) (\<sigma> (Suc k))"
      using N [OF k(1)] by auto
  qed (fact fair e)+
  then show thesis by (rule that [OF _ inv ok])
qed

lemma spinning_loops:
  assumes "spinning ef et p M \<tau> \<sigma>"
  shows "loops M (\<lambda>k. \<tau> k = t) (\<lambda>k. phase t (\<sigma> k))"
proof -
  have "phase t (\<sigma> (Suc k)) = phase t (\<sigma> k)" if "M \<le> k" "\<tau> k \<noteq> t" for k
    using spinningD(4,5) [OF assms that(1)] spins_others [of "\<tau> k" "\<sigma> k" "\<sigma> (Suc k)" t] that(2)
    by (cases "ended (\<tau> k) (\<sigma> k)") auto
  with assms show ?thesis by (simp add: loops_def spinning_def fair_def)
qed

lemma book_phase_iff: "phase Book s = Load \<longleftrightarrow> pl_book s = BPop \<and> consumer (rp_frames s) = CLoad"
    "phase Book s = Flag \<longleftrightarrow> pl_book s = BFlag" "phase Book s = Test \<longleftrightarrow> pl_book s = BEmpty"
  by (cases "pl_book s"; cases "consumer (rp_frames s)"; simp)+

lemma analytics_phase_iff: "phase Analytics s = Load \<longleftrightarrow> pl_analytics s = APop \<and> consumer (rp_ticks s) = CLoad"
    "phase Analytics s = Flag \<longleftrightarrow> pl_analytics s = AFlag" "phase Analytics s = Test \<longleftrightarrow> pl_analytics s = AEmpty"
  by (cases "pl_analytics s"; cases "consumer (rp_ticks s)"; simp)+

lemma ingest_load: "phase Ingest s = Load \<Longrightarrow> \<exists>fr. producer (rp_frames s) = PLoad fr"
  by (cases "pl_ingest s"; cases "producer (rp_frames s)"; simp)

lemma book_drains:
  assumes "spinning ef et p M \<tau> \<sigma>" and "\<And>k. M \<le> k \<Longrightarrow> pl_book (\<sigma> k) \<noteq> BExit"
  shows "drains M (\<lambda>k. \<tau> k = Book) (\<lambda>k. phase Book (\<sigma> k)) ef (rp_frames p) (\<lambda>k. rp_frames (\<sigma> k))"
proof -
  have "spsc_inv ef (rp_frames (\<sigma> k)) \<and> ring (rp_frames (\<sigma> k)) = ring (rp_frames p) \<and>
      pushed (rp_frames (\<sigma> k)) = pushed (rp_frames p) \<and> popped (rp_frames (\<sigma> k)) = popped (rp_frames p)"
    if "M \<le> k" for k
    using spinningD(1,2) [OF assms(1) that] by (simp add: rings_ok_def shared_iff)
  moreover have "drain_step (phase Book (\<sigma> k)) (phase Book (\<sigma> (Suc k))) (rp_frames (\<sigma> k)) (rp_frames (\<sigma> (Suc k)))"
    "phase Book (\<sigma> k) = Load \<Longrightarrow> heads_seen (rp_frames p) (rp_frames (\<sigma> (Suc k)))"
    if "M \<le> k" "\<tau> k = Book" for k
    using spinningD(3,5) [OF assms(1) that(1)] assms(2) [OF that(1)] that(2)
    by (simp_all add: book_phase_iff del: phase.simps)
  ultimately show ?thesis
    using spinning_loops [OF assms(1), of Book] assms(1) unfolding drains_def
    by (simp add: spinning_def del: phase.simps)
qed

lemma analytics_drains:
  assumes "spinning ef et p M \<tau> \<sigma>" and "\<And>k. M \<le> k \<Longrightarrow> pl_analytics (\<sigma> k) \<noteq> AExit"
  shows "drains M (\<lambda>k. \<tau> k = Analytics) (\<lambda>k. phase Analytics (\<sigma> k)) et (rp_ticks p) (\<lambda>k. rp_ticks (\<sigma> k))"
proof -
  have "spsc_inv et (rp_ticks (\<sigma> k)) \<and> ring (rp_ticks (\<sigma> k)) = ring (rp_ticks p) \<and>
      pushed (rp_ticks (\<sigma> k)) = pushed (rp_ticks p) \<and> popped (rp_ticks (\<sigma> k)) = popped (rp_ticks p)"
    if "M \<le> k" for k
    using spinningD(1,2) [OF assms(1) that] by (simp add: rings_ok_def shared_iff)
  moreover have "drain_step (phase Analytics (\<sigma> k)) (phase Analytics (\<sigma> (Suc k))) (rp_ticks (\<sigma> k)) (rp_ticks (\<sigma> (Suc k)))"
    "phase Analytics (\<sigma> k) = Load \<Longrightarrow> heads_seen (rp_ticks p) (rp_ticks (\<sigma> (Suc k)))"
    if "M \<le> k" "\<tau> k = Analytics" for k
    using spinningD(3,5) [OF assms(1) that(1)] assms(2) [OF that(1)] that(2)
    by (simp_all add: analytics_phase_iff del: phase.simps)
  ultimately show ?thesis
    using spinning_loops [OF assms(1), of Analytics] assms(1) unfolding drains_def
    by (simp add: spinning_def del: phase.simps)
qed

lemma ingest_refuses:
  assumes "spinning ef et p M \<tau> \<sigma>" and "pl_ingest p \<noteq> IExit"
  shows "refuses M (\<lambda>k. \<tau> k = Ingest) (\<lambda>k. phase Ingest (\<sigma> k)) ef (rp_frames p) (\<lambda>k. rp_frames (\<sigma> k))"
proof -
  have same: "spsc_inv ef (rp_frames (\<sigma> k)) \<and> ring (rp_frames (\<sigma> k)) = ring (rp_frames p) \<and>
      pushed (rp_frames (\<sigma> k)) = pushed (rp_frames p) \<and> popped (rp_frames (\<sigma> k)) = popped (rp_frames p)"
    "pl_ingest (\<sigma> k) \<noteq> IExit" if "M \<le> k" for k
    using spinningD(1,2) [OF assms(1) that] assms(2) by (simp_all add: rings_ok_def shared_iff)
  moreover have "case phase Ingest (\<sigma> k) of
        Begin \<Rightarrow> phase Ingest (\<sigma> (Suc k)) = Load
      | Load \<Rightarrow> tails_seen (rp_frames p) (rp_frames (\<sigma> (Suc k))) \<and>
          push_full (p_view (rp_frames (\<sigma> (Suc k)))) (ring (rp_frames (\<sigma> k)))
      | _ \<Rightarrow> False" if "M \<le> k" "\<tau> k = Ingest" for k
    using spinningD(3,5) [OF assms(1) that(1)] same(2) [OF that(1)] that(2) ingest_load [of "\<sigma> k"]
    by (cases "phase Ingest (\<sigma> k)") (auto simp del: phase.simps)
  ultimately show ?thesis
    using spinning_loops [OF assms(1), of Ingest] assms(1) unfolding refuses_def
    by (simp add: spinning_def del: phase.simps)
qed

lemma spinning_finished:
  assumes "spinning ef et p M \<tau> \<sigma>" and "pipe_inv ndebug msgs (flat p)" and "rings_ok ef et p"
  shows "\<exists>n. pipe_finished (flat (\<sigma> n))"
proof -
  have kept: "pl_ingest (\<sigma> k) = pl_ingest p" "pl_book (\<sigma> k) = BExit \<longleftrightarrow> pl_book p = BExit" if "M \<le> k" for k
    using spinningD(1,2) [OF assms(1) that] assms(3) by (auto simp: rings_ok_def shared_iff)
  have ingest: "pl_ingest p = IExit"
  proof (rule ccontr)
    assume live: "pl_ingest p \<noteq> IExit"
    from assms(1) have "1 < (2 :: nat) ^ ef" by (intro one_less_power) (auto simp: spinning_def)
    with refuses_full [OF ingest_refuses [OF assms(1) live]] have "in_flight (rp_frames p) \<noteq> []" by auto
    moreover have "pl_book p \<noteq> BExit"
      using assms(2) live by (auto simp: pipe_inv_def book_control_def)
    with drains_empty [OF book_drains [OF assms(1)]] kept have "in_flight (rp_frames p) = []" by blast
    ultimately show False by contradiction
  qed
  have book: "pl_book p = BExit"
  proof (rule ccontr)
    assume live: "pl_book p \<noteq> BExit"
    show False
    proof (rule drains_ends [OF book_drains [OF assms(1)]])
      fix k assume k: "M \<le> k" "\<tau> k = Book" "phase Book (\<sigma> k) = Flag"
      have "pl_ingest_done p" using assms(3) ingest by (simp add: rings_ok_def)
      with spinningD(3) [OF assms(1) k(1)] k(2,3) show "phase Book (\<sigma> (Suc k)) = Test"
        by (simp add: book_phase_iff del: phase.simps)
    qed (use kept live in blast)
  qed
  have "\<exists>n\<ge>M. pl_analytics (\<sigma> n) = AExit"
  proof (rule ccontr)
    assume live: "\<not> (\<exists>n\<ge>M. pl_analytics (\<sigma> n) = AExit)"
    show False
    proof (rule drains_ends [OF analytics_drains [OF assms(1)]])
      fix k assume k: "M \<le> k" "\<tau> k = Analytics" "phase Analytics (\<sigma> k) = Flag"
      have "pl_book_done p" using assms(3) book by (simp add: rings_ok_def)
      with spinningD(3) [OF assms(1) k(1)] k(2,3) show "phase Analytics (\<sigma> (Suc k)) = Test"
        by (simp add: analytics_phase_iff del: phase.simps)
    qed (use live in blast)
  qed
  with kept ingest book show ?thesis by (auto simp: pipe_finished_def)
qed

lemma fair_run_finishes:
  assumes "scheduled_run ndebug cfg msgs \<tau> \<sigma>" and "pc_analytics_every cfg \<noteq> 0"
    and "fair \<tau>" and "eventually_visible \<tau> \<sigma>"
  shows "\<exists>n. \<forall>k\<ge>n. pipe_finished (flat (\<sigma> k))"
proof -
  from fair_run_spins [OF assms] spinning_finished obtain n where n: "pipe_finished (flat (\<sigma> n))" by metis
  have "pipe_finished (flat (\<sigma> k))" if "n \<le> k" for k
    using that
  proof (induction k rule: dec_induct)
    case (step k)
    then have "ended (\<tau> k) (\<sigma> k)" by (cases "\<tau> k") (simp_all add: pipe_finished_def)
    with scheduled_stay [OF assms(1)] step.IH show ?case by simp
  qed (rule n)
  then show ?thesis by blast
qed

section \<open>There are fair runs\<close>

lemma step_not_ended: "thread_step ndebug cfg msgs s who r \<Longrightarrow> \<not> ended who s"
  by (induction rule: thread_step.induct) simp_all

lemma ring_reach_path:
  assumes "ring_reach ndebug cfg msgs s0 r"
  shows "r = Inr s \<Longrightarrow> \<exists>n \<tau> \<sigma>. \<sigma> 0 = s0 \<and> (\<forall>k\<ge>n. \<sigma> k = s) \<and>
    (\<forall>k<n. thread_step ndebug cfg msgs (\<sigma> k) (\<tau> k) (Inr (\<sigma> (Suc k))))"
  using assms
proof (induction arbitrary: s)
  case ring_here
  then show ?case by (intro exI [of _ 0] exI [of _ "\<lambda>_. Ingest"] exI [of _ "\<lambda>_. s0"]) simp
next
  case (ring_next s1 r)
  from ring_next.IH [OF refl] obtain n \<tau> \<sigma> where path: "\<sigma> 0 = s0" "\<And>k. n \<le> k \<Longrightarrow> \<sigma> k = s1"
    "\<And>k. k < n \<Longrightarrow> thread_step ndebug cfg msgs (\<sigma> k) (\<tau> k) (Inr (\<sigma> (Suc k)))" by blast
  from ring_next.hyps(2) ring_next.prems obtain who where who: "thread_step ndebug cfg msgs s1 who (Inr s)"
    by (auto simp: ring_step_def)
  define \<sigma>' where "\<sigma>' k = (if k \<le> n then \<sigma> k else s)" for k
  have "thread_step ndebug cfg msgs (\<sigma>' k) ((\<tau>(n := who)) k) (Inr (\<sigma>' (Suc k)))" if "k < Suc n" for k
    using that path who by (cases "k = n") (auto simp: \<sigma>'_def)
  moreover have "\<sigma>' 0 = s0" "\<And>k. Suc n \<le> k \<Longrightarrow> \<sigma>' k = s" using path by (auto simp: \<sigma>'_def)
  ultimately show ?case by blast
qed

definition in_turn :: "nat \<Rightarrow> thread" where
  "in_turn k = [Ingest, Book, Analytics] ! (k mod 3)"

lemma in_turn_fair: "\<exists>j\<ge>i. in_turn j = t"
proof -
  have "3 * i mod 3 = 0" "(3 * i + 1) mod 3 = 1" "(3 * i + 2) mod 3 = 2" by presburger+
  then have "in_turn (3 * i) = Ingest" "in_turn (3 * i + 1) = Book" "in_turn (3 * i + 2) = Analytics"
    by (simp_all only: in_turn_def) simp_all
  then show ?thesis by (cases t) (metis le_add1 le_trans mult_le_mono1 mult_1 one_le_numeral)+
qed

lemma finished_sees: "rings_ok ef et s \<Longrightarrow> pipe_finished (flat s) \<Longrightarrow> sees t past s s"
  by (cases t) (force simp: rings_ok_def pipe_finished_def)+

lemma fair_run_exists:
  assumes "rings_run ndebug cfg msgs (Inr s0)" and "pc_analytics_every cfg \<noteq> 0"
  shows "\<exists>\<tau> \<sigma>. scheduled_run ndebug cfg msgs \<tau> \<sigma> \<and> fair \<tau> \<and> eventually_visible \<tau> \<sigma>"
proof -
  from rings_run_finish [OF assms] obtain s where s: "rings_run ndebug cfg msgs (Inr s)" "pipe_finished (flat s)"
    by blast
  from s(1) obtain frames ticks where queues: "run_queues cfg = Some (frames, ticks)"
    "ring_reach ndebug cfg msgs (rings_init ndebug frames ticks) (Inr s)"
    by (auto simp: rings_run_def split: option.splits)
  from ring_reach_path [OF queues(2) refl] obtain n \<tau> \<sigma> where path: "\<sigma> 0 = rings_init ndebug frames ticks"
    "\<And>k. n \<le> k \<Longrightarrow> \<sigma> k = s"
    "\<And>k. k < n \<Longrightarrow> thread_step ndebug cfg msgs (\<sigma> k) (\<tau> k) (Inr (\<sigma> (Suc k)))" by blast
  define \<tau>' where "\<tau>' k = (if k < n then \<tau> k else in_turn k)" for k
  have "ended t s" for t using s(2) by (cases t) (simp_all add: pipe_finished_def)
  then have run: "scheduled_run ndebug cfg msgs \<tau>' \<sigma>"
    using queues(1) path step_not_ended [OF path(3)] by (auto simp: scheduled_run_def \<tau>'_def not_less)
  have "fair \<tau>'"
    unfolding fair_def
  proof (intro allI)
    fix t i
    from in_turn_fair obtain j where "max i n \<le> j" "in_turn j = t" by blast
    then show "\<exists>j\<ge>i. \<tau>' j = t" by (intro exI [of _ j]) (simp add: \<tau>'_def)
  qed
  moreover have "eventually_visible \<tau>' \<sigma>"
  proof -
    from scheduled_inv [OF run assms(2)] obtain ef et where "rings_ok ef et (\<sigma> n)" by metis
    then have "rings_ok ef et s" by (simp only: path(2) order_refl)
    note sees = finished_sees [OF this s(2)]
    show ?thesis
      unfolding eventually_visible_def by (intro allI exI [of _ n] impI) (simp only: path(2) le_SucI sees)
  qed
  ultimately show ?thesis using run by blast
qed

section \<open>Properties\<close>

text \<open>C6. Every fair run of the pipeline with a nonzero sampling period ends, and ends right: when each of
  the three threads is scheduled again and again and what a thread stores is at last visible to the
  others, ingestion, the book thread and analytics all return, whatever the bytes, the capacities of
  the queues and the order of the steps, and the fingerprint that is left is that of the
  single-threaded path.\<close>

theorem rings_terminate:
  assumes "scheduled_run ndebug cfg msgs \<tau> \<sigma>" and "pc_analytics_every cfg \<noteq> 0"
    and "fair \<tau>" and "eventually_visible \<tau> \<sigma>"
  shows "\<exists>n f rep. consume (bb_handler ndebug) msgs
      (FeedHandler_init (set_verify False (BookBuilder_init ndebug))) = Inr (f, rep) \<and>
    (\<forall>k\<ge>n. pl_ingest (\<sigma> k) = IExit \<and> pl_book (\<sigma> k) = BExit \<and> pl_analytics (\<sigma> k) = AExit \<and>
       pl_fingerprint (\<sigma> k) = book_fingerprint (bb_manager (down f)))"
proof -
  from fair_run_finishes [OF assms] obtain n where n: "\<And>k. n \<le> k \<Longrightarrow> pipe_finished (flat (\<sigma> k))" by blast
  have inv: "pipe_inv ndebug msgs (flat (\<sigma> k))" for k by (rule scheduled_inv [OF assms(1,2)])
  have result: "\<exists>f rep. consume (bb_handler ndebug) msgs
      (FeedHandler_init (set_verify False (BookBuilder_init ndebug))) = Inr (f, rep) \<and>
      pl_fingerprint (\<sigma> k) = book_fingerprint (bb_manager (down f))" if "n \<le> k" for k
    using finished_books [OF inv [of k]] n [OF that]
    by (fastforce simp: pipe_feed_def same_results_def published_def pipe_finished_def)
  from result [OF order_refl] obtain f rep where f: "consume (bb_handler ndebug) msgs
      (FeedHandler_init (set_verify False (BookBuilder_init ndebug))) = Inr (f, rep)" by blast
  have "pl_fingerprint (\<sigma> k) = book_fingerprint (bb_manager (down f))" if "n \<le> k" for k
    using result [OF that] f by auto
  with n f show ?thesis by (intro exI [of _ n]) (auto simp: pipe_finished_def)
qed

theorem rings_terminate_witness:
  "\<exists>\<tau> \<sigma> n. scheduled_run True PipelineConfig_default (wire sample_messages) \<tau> \<sigma> \<and> fair \<tau> \<and>
    eventually_visible \<tau> \<sigma> \<and> pl_analytics (\<sigma> n) = AExit"
proof -
  from default_rings obtain s where "rings_run True PipelineConfig_default (wire sample_messages) (Inr s)"
    by blast
  from fair_run_exists [OF this default_period] obtain \<tau> \<sigma> where
    run: "scheduled_run True PipelineConfig_default (wire sample_messages) \<tau> \<sigma>" "fair \<tau>" "eventually_visible \<tau> \<sigma>"
    by blast
  from rings_terminate [OF run(1) default_period run(2,3)] run show ?thesis by blast
qed

end
