(* ===== verification/Transport.thy ===== *)
theory Transport
  imports Feed_To_Books
begin

text \<open>
  Model of the loops around the socket calls: \<open>send_all\<close> and \<open>recv_some\<close> of
  \<^verbatim>\<open>src/net/socket.cpp\<close>, the streaming callback of \<^verbatim>\<open>src/apps/feedsim.cpp\<close> and the two receive
  loops of \<^verbatim>\<open>src/apps/feedhandler.cpp\<close>. The calls themselves are parameters: a function of the
  kernel's state that gives the result of \<^verbatim>\<open>::send\<close> or \<^verbatim>\<open>::recv\<close> and the next state. A loop that
  is interrupted for ever has the value \<open>None\<close>. What POSIX says of \<^verbatim>\<open>::send\<close> is \<open>send_contract\<close>;
  what a receiver gets is the sequence of results its calls return.
\<close>

section \<open>Sending\<close>

text \<open>\<^verbatim>\<open>n >= 0\<close>, \<^verbatim>\<open>n < 0\<close> with \<^verbatim>\<open>EINTR\<close>, \<^verbatim>\<open>n < 0\<close> with another error.\<close>

datatype send_result = Sent nat | SendInterrupted | SendFailed

type_synonym 'k send = "'k \<Rightarrow> byte list \<Rightarrow> send_result \<times> 'k"

partial_function (option) send_all :: "'k send \<Rightarrow> byte list \<Rightarrow> 'k \<Rightarrow> (bool \<times> 'k) option" where
  "send_all send data k =
     (if data = [] then Some (True, k)
      else case send k data of (r, k) \<Rightarrow>
        (case r of
           SendInterrupted \<Rightarrow> send_all send data k
         | SendFailed \<Rightarrow> Some (False, k)
         | Sent n \<Rightarrow> if n = 0 then Some (False, k) else send_all send (drop n data) k))"

text \<open>
  The streaming callback over the messages the simulator hands it: after a failure nothing is
  sent, but the run goes on.
\<close>

fun stream_feed ::
  "'k send \<Rightarrow> message list \<Rightarrow> bool \<Rightarrow> u64 \<Rightarrow> 'k \<Rightarrow> ((bool \<times> u64 \<times> 'k) exec) option" where
  "stream_feed send [] ok n k = Some (Inr (ok, n, k))"
| "stream_feed send ((seq, ts, body) # msgs) ok n k =
     (if \<not> ok then stream_feed send msgs ok n k
      else case ebind (encode_message (replicate kMaxMessageSize 0) seq ts body)
                  (\<lambda>(buf, len). subspan buf 0 len) of
             Inl e \<Rightarrow> Some (Inl e)
           | Inr bytes \<Rightarrow>
               (case send_all send bytes k of
                  None \<Rightarrow> None
                | Some (ok, k) \<Rightarrow> stream_feed send msgs ok (n + 1) k))"

section \<open>Receiving\<close>

text \<open>\<^verbatim>\<open>n >= 0\<close> with the bytes (none when the peer has closed), and the two kinds of errors.\<close>

datatype recv_result = Received "byte list" | RecvInterrupted | RecvFailed

type_synonym 'k recv = "'k \<Rightarrow> recv_result \<times> 'k"

partial_function (option) recv_some :: "'k recv \<Rightarrow> 'k \<Rightarrow> (recv_result \<times> 'k) option" where
  "recv_some recv k =
     (case recv k of (r, k) \<Rightarrow> if r = RecvInterrupted then recv_some recv k else Some (r, k))"

text \<open>\<^verbatim>\<open>feedhandler --tcp\<close>: segments into \<open>consume\<close> until the peer closes or an error.\<close>

partial_function (option) tcp_loop ::
  "'k recv \<Rightarrow> 'd Handler \<Rightarrow> 'd FeedHandler \<Rightarrow> 'k \<Rightarrow> (('d FeedHandler \<times> 'k) exec) option" where
  "tcp_loop recv H f k =
     (case recv_some recv k of
        None \<Rightarrow> None
      | Some (r, k) \<Rightarrow>
          (case r of
             Received bytes \<Rightarrow>
               if bytes = [] then Some (Inr (f, k))
               else (case consume H bytes f of
                       Inl e \<Rightarrow> Some (Inl e)
                     | Inr (f, _) \<Rightarrow> tcp_loop recv H f k)
           | _ \<Rightarrow> Some (Inr (f, k))))"

text \<open>\<^verbatim>\<open>feedhandler --udp\<close>: here an interrupted call ends the feed like any other error.\<close>

partial_function (option) udp_loop ::
  "'k recv \<Rightarrow> 'd Handler \<Rightarrow> 'd FeedHandler \<Rightarrow> 'k \<Rightarrow> (('d FeedHandler \<times> 'k) exec) option" where
  "udp_loop recv H f k =
     (case recv k of (r, k) \<Rightarrow>
        (case r of
           Received bytes \<Rightarrow>
             if bytes = [] then Some (Inr (f, k))
             else (case consume_datagram H bytes f of
                     Inl e \<Rightarrow> Some (Inl e)
                   | Inr (f, _) \<Rightarrow> udp_loop recv H f k)
         | _ \<Rightarrow> Some (Inr (f, k))))"

section \<open>What the sender puts on the wire\<close>

text \<open>
  POSIX: a successful call takes over a prefix of the data, a failed or interrupted one nothing.
  \<open>sent k\<close> are all the bytes taken over so far.
\<close>

definition send_contract :: "'k send \<Rightarrow> ('k \<Rightarrow> byte list) \<Rightarrow> bool" where
  "send_contract send sent \<longleftrightarrow> (\<forall>k data. case send k data of
       (Sent n, k') \<Rightarrow> n \<le> length data \<and> sent k' = sent k @ take n data
     | (_, k') \<Rightarrow> sent k' = sent k)"

lemma send_contractD:
  assumes "send_contract send sent" and "send k data = (r, k')"
  shows "case r of Sent n \<Rightarrow> n \<le> length data \<and> sent k' = sent k @ take n data | _ \<Rightarrow> sent k' = sent k"
  using spec [OF spec [OF assms(1) [unfolded send_contract_def], of k], of data] assms(2)
  by (simp split: send_result.splits)

lemma send_all_sends:
  "send_all send data k = Some r \<Longrightarrow> send_contract send sent \<Longrightarrow>
    \<exists>n. sent (snd r) = sent k @ take n data \<and> n \<le> length data \<and> (fst r \<longleftrightarrow> n = length data)"
proof (induction rule: send_all.raw_induct [rotated, consumes 1])
  case (1 send_all send data k r)
  obtain sr k1 where call: "send k data = (sr, k1)" by fastforce
  note law = send_contractD [OF "1.prems" call]
  show ?case
  proof (cases "data = []")
    case True
    with 1(2) show ?thesis by auto
  next
    case False
    show ?thesis
    proof (cases sr)
      case (Sent n)
      show ?thesis
      proof (cases "n = 0")
        case True
        with 1(2) False call Sent law show ?thesis by auto
      next
        case n: False
        with 1(2) False call Sent have "send_all send (drop n data) k1 = Some r" by simp
        from 1(1) [OF this "1.prems"] obtain i where "sent (snd r) = sent k1 @ take i (drop n data)"
          "i \<le> length (drop n data)" "fst r \<longleftrightarrow> i = length (drop n data)" by blast
        with law Sent show ?thesis
          by (intro exI [of _ "n + i"]) (auto simp: take_add)
      qed
    next
      case SendInterrupted
      with 1(2) False call have "send_all send data k1 = Some r" by simp
      from 1(1) [OF this "1.prems"] law SendInterrupted show ?thesis by simp
    next
      case SendFailed
      with 1(2) False call law show ?thesis by auto
    qed
  qed
qed

text \<open>The loop ends unless the calls are interrupted for ever.\<close>

lemma send_all_returns:
  assumes "wf R" and "\<And>k data k'. send k data = (SendInterrupted, k') \<Longrightarrow> (k', k) \<in> R"
  shows "\<exists>r. send_all send data k = Some r"
proof (induction "length data" arbitrary: data k rule: less_induct)
  case less
  show ?case
  proof (induction k rule: wf_induct_rule [OF assms(1)])
    case (1 k)
    obtain sr k1 where call: "send k data = (sr, k1)" by fastforce
    show ?case
    proof (cases sr)
      case (Sent n)
      with less [of "drop n data" k1] call show ?thesis
        by (cases "data = []"; cases "n = 0")
          (auto simp add: send_all.simps [of send data k] send_all.simps [of send "[]" k])
    next
      case SendInterrupted
      with 1 [OF assms(2)] call show ?thesis by (subst send_all.simps) auto
    next
      case SendFailed
      with call show ?thesis by (subst send_all.simps) auto
    qed
  qed
qed

text \<open>The whole feed: a prefix of its bytes, all of them when no call failed.\<close>

lemma encoded_message:
  assumes "body_ok body"
  shows "ebind (encode_message (replicate kMaxMessageSize 0) seq ts body) (\<lambda>(buf, len). subspan buf 0 len) =
    Inr (message_bytes (seq, ts, body))"
proof -
  let ?frame = "frame_bytes seq ts body"
  have "length ?frame \<le> kMaxMessageSize"
    using body_size_for_bounds [of "msg_type_of body"] assms by (simp add: length_frame_bytes)
  with encode_message_bytes [OF assms, of "replicate kMaxMessageSize 0" seq ts]
    body_size_for_bounds [of "msg_type_of body"]
  have "\<exists>buf. encode_message (replicate kMaxMessageSize 0) seq ts body = Inr (buf, length ?frame) \<and>
      subspan buf 0 (length ?frame) = Inr ?frame"
    by (simp add: subspan_def)
  then show ?thesis by auto
qed

lemma stream_feed_step:
  "body_ok body \<Longrightarrow> stream_feed send ((seq, ts, body) # msgs) True n k =
     (case send_all send (message_bytes (seq, ts, body)) k of
        None \<Rightarrow> None
      | Some (ok, k) \<Rightarrow> stream_feed send msgs ok (n + 1) k)"
  by (simp add: encoded_message del: message_bytes.simps)

lemma stream_feed_stopped: "stream_feed send msgs False n k = Some (Inr (False, n, k))"
  by (induction msgs) auto

lemma stream_feed_sends:
  assumes "send_contract send sent"
  shows "list_all message_ok msgs \<Longrightarrow> stream_feed send msgs True n k = Some r \<Longrightarrow>
    \<exists>ok' n' k' j. r = Inr (ok', n', k') \<and> sent k' = sent k @ take j (wire msgs) \<and>
      (ok' \<longrightarrow> length (wire msgs) \<le> j \<and> n' = n + of_nat (length msgs))"
proof (induction msgs arbitrary: n k)
  case (Cons m msgs)
  obtain seq ts body where m: "m = (seq, ts, body)" by (cases m)
  from Cons.prems(1) have ok: "body_ok body" "list_all message_ok msgs" by (simp_all add: m)
  from Cons.prems(2) obtain b k1 where one: "send_all send (message_bytes m) k = Some (b, k1)"
    "stream_feed send msgs b (n + 1) k1 = Some r"
    by (auto simp: m stream_feed_step [OF ok(1)] simp del: message_bytes.simps stream_feed.simps(2)
        split: option.splits)
  from send_all_sends [OF one(1) assms] obtain i where i: "sent k1 = sent k @ take i (message_bytes m)"
    "i \<le> length (message_bytes m)" "b \<longleftrightarrow> i = length (message_bytes m)" by auto
  show ?case
  proof (cases b)
    case False
    with one(2) have "r = Inr (False, n + 1, k1)" by (simp add: stream_feed_stopped)
    with i(1,2) show ?thesis by (intro exI [of _ False] exI [of _ "n + 1"] exI [of _ k1] exI [of _ i]) simp
  next
    case True
    with one(2) have "stream_feed send msgs True (n + 1) k1 = Some r" by simp
    from Cons.IH [OF ok(2) this] obtain ok' n' k' j where
      "r = Inr (ok', n', k')" "sent k' = sent k1 @ take j (wire msgs)"
      "ok' \<longrightarrow> length (wire msgs) \<le> j \<and> n' = n + 1 + of_nat (length msgs)" by blast
    with i True show ?thesis
      by (intro exI [of _ ok'] exI [of _ n'] exI [of _ k'] exI [of _ "length (message_bytes m) + j"])
        (simp add: add.assoc)
  qed
qed auto

section \<open>What the receiver hands to the feed handler\<close>

text \<open>
  The non-empty chunks a sequence of receive calls returns before the end: the peer's close, or an
  error.
\<close>

inductive delivers :: "('k \<Rightarrow> (recv_result \<times> 'k) option) \<Rightarrow> 'k \<Rightarrow> byte list list \<Rightarrow> 'k \<Rightarrow> bool"
  for recv where
  ended: "recv k = Some (r, k') \<Longrightarrow> \<forall>bytes. r = Received bytes \<longrightarrow> bytes = [] \<Longrightarrow> delivers recv k [] k'"
| chunk: "recv k = Some (Received bytes, k1) \<Longrightarrow> bytes \<noteq> [] \<Longrightarrow> delivers recv k1 chunks k' \<Longrightarrow>
    delivers recv k (bytes # chunks) k'"

lemma tcp_loop_delivers:
  "delivers (recv_some recv) k segs k' \<Longrightarrow>
    tcp_loop recv H f k = Some (ebind (consume_all H segs f) (\<lambda>f. Inr (f, k')))"
proof (induction arbitrary: f rule: delivers.induct)
  case (ended k r k')
  then show ?case by (subst tcp_loop.simps) (auto split: recv_result.splits)
next
  case (chunk k bytes k1 chunks k')
  then show ?case by (subst tcp_loop.simps) (auto split: sum.splits)
qed

fun consume_datagrams :: "'d Handler \<Rightarrow> byte list list \<Rightarrow> 'd FeedHandler \<Rightarrow> 'd FeedHandler exec" where
  "consume_datagrams H [] f = Inr f"
| "consume_datagrams H (d # ds) f =
     ebind (consume_datagram H d f) (\<lambda>(f, r). consume_datagrams H ds f)"

lemma udp_loop_delivers:
  "delivers (\<lambda>k. Some (recv k)) k ds k' \<Longrightarrow>
    udp_loop recv H f k = Some (ebind (consume_datagrams H ds f) (\<lambda>f. Inr (f, k')))"
proof (induction arbitrary: f rule: delivers.induct)
  case (ended k r k')
  then show ?case by (subst udp_loop.simps) (auto split: recv_result.splits)
next
  case (chunk k bytes k1 chunks k')
  then show ?case by (subst udp_loop.simps) (auto split: sum.splits)
qed

text \<open>Datagrams of whole messages are handled message by message.\<close>

lemma consume_datagrams_wire:
  "list_all (list_all message_ok) mss \<Longrightarrow>
     consume_datagrams H (map wire mss) f = run_items (fh_handler H) (map message_item (concat mss)) f"
proof (induction mss arbitrary: f)
  case (Cons ms mss)
  then have "scan 0 (wire ms) = (map message_item ms, length (wire ms), AtEnd)"
    by (simp add: scan_wire_end)
  from consume_datagram_eq [OF this, of H f] Cons show ?case
    by (simp add: run_items_append ebind_assoc)
qed simp

section \<open>Sessions\<close>

text \<open>A prefix of a stream of messages is the stream, or some whole messages and a cut one.\<close>

lemma take_wire:
  "length (wire msgs) \<le> n \<or>
   (\<exists>ms m ms' k. msgs = ms @ m # ms' \<and> k < length (message_bytes m) \<and> n = length (wire ms) + k)"
proof (induction msgs arbitrary: n)
  case (Cons m msgs)
  show ?case
  proof (cases "n < length (message_bytes m)")
    case True
    then show ?thesis by (intro disjI2 exI [of _ "[]"] exI [of _ m] exI [of _ msgs] exI [of _ n]) simp
  next
    case False
    from Cons.IH [of "n - length (message_bytes m)"] show ?thesis
    proof (elim disjE exE conjE)
      assume "length (wire msgs) \<le> n - length (message_bytes m)"
      with False have "length (wire (m # msgs)) \<le> n" by simp
      then show ?thesis by (rule disjI1)
    next
      fix ms m' ms' k
      assume "msgs = ms @ m' # ms'" "k < length (message_bytes m')"
        "n - length (message_bytes m) = length (wire ms) + k"
      with False show ?thesis
        by (intro disjI2 exI [of _ "m # ms"] exI [of _ m'] exI [of _ ms'] exI [of _ k]) simp
    qed
  qed
qed simp

text \<open>The messages that arrived whole when a stream is cut after \<open>n\<close> bytes.\<close>

definition whole :: "nat \<Rightarrow> message list \<Rightarrow> message list \<Rightarrow> bool" where
  "whole n msgs ms \<longleftrightarrow> length (wire ms) \<le> n \<and>
     (ms = msgs \<or> (\<exists>m ms'. msgs = ms @ m # ms' \<and> n < length (wire (ms @ [m]))))"

lemma scan_prefix:
  assumes "list_all message_ok msgs"
  shows "\<exists>ms st. whole n msgs ms \<and> st \<noteq> AtBadHeader \<and>
    scan 0 (take n (wire msgs)) = (map message_item ms, length (wire ms), st)"
proof (cases "length (wire msgs) \<le> n")
  case True
  with scan_wire_end [OF assms] show ?thesis
    by (intro exI [of _ msgs] exI [of _ AtEnd]) (simp add: whole_def)
next
  case False
  with take_wire [of msgs n] obtain ms m ms' k where cut: "msgs = ms @ m # ms'"
    "k < length (message_bytes m)" "n = length (wire ms) + k" by blast
  have "list_all message_ok ms" "message_ok m" using assms by (simp_all add: cut(1))
  from scan_cut_stream [OF this cut(2)] cut(2) show ?thesis
    by (intro exI [of _ ms] exI [of _ "if k < kHeaderWireSize then AtEnd else AtPartial"])
      (auto simp: whole_def cut(1,3))
qed

lemma whole_prefix: "whole n msgs ms \<Longrightarrow> ms = take (length ms) msgs"
  by (auto simp: whole_def)

text \<open>A scripted kernel, for the witnesses: the results of the calls in order, and what was sent.\<close>

fun script_send :: "(send_result list \<times> byte list) send" where
  "script_send ([], out) data = (SendFailed, [], out)"
| "script_send (Sent n # rs, out) data = (Sent (min n (length data)), rs, out @ take n data)"
| "script_send (r # rs, out) data = (r, rs, out)"

fun script_recv :: "(recv_result list) recv" where
  "script_recv [] = (RecvFailed, [])"
| "script_recv (r # rs) = (r, rs)"

lemma script_send_contract: "send_contract script_send snd"
  unfolding send_contract_def
proof (intro allI)
  fix k data
  show "case script_send k data of (Sent n, k') \<Rightarrow> n \<le> length data \<and> snd k' = snd k @ take n data
     | (_, k') \<Rightarrow> snd k' = snd k"
    by (cases "(k, data)" rule: script_send.cases) (auto simp: min_def)
qed

lemma script_send_all:
  "0 < length data \<Longrightarrow> length data \<le> n \<Longrightarrow>
     send_all script_send data (Sent n # rs, out) = Some (True, rs, out @ data)"
  by (simp add: send_all.simps [of script_send data] send_all.simps [of script_send "[]"])

lemma script_send_interrupted: "script_send k data = (SendInterrupted, k') \<Longrightarrow> (k', k) \<in> measure (length \<circ> fst)"
  by (cases "(k, data)" rule: script_send.cases) auto

lemma script_recv_delivers:
  "[] \<notin> set segs \<Longrightarrow> delivers (\<lambda>k. Some (script_recv k)) (map Received segs) segs []"
  by (induction segs) (auto intro: delivers.intros)

lemma script_recv_some: "[] \<notin> set segs \<Longrightarrow> delivers (recv_some script_recv) (map Received segs) segs []"
  by (induction segs) (auto intro!: delivers.intros simp: recv_some.simps)

section \<open>Properties\<close>

text \<open>C38. Under the contract of \<^verbatim>\<open>::send\<close> and if its calls are not interrupted for ever (interruptions descend
  in a well-founded relation), \<open>send_all\<close> ends, whatever partial writes they make, and reports
  success exactly when all bytes were taken over, in order; otherwise those taken over are a
  proper prefix.\<close>

theorem send_all_complete:
  assumes "send_contract send sent" and "wf R"
    and "\<And>k data k'. send k data = (SendInterrupted, k') \<Longrightarrow> (k', k) \<in> R"
  shows "\<exists>ok k' n. send_all send data k = Some (ok, k') \<and> sent k' = sent k @ take n data \<and>
    n \<le> length data \<and> (ok \<longleftrightarrow> n = length data)"
proof -
  obtain r where r: "send_all send data k = Some r"
    using send_all_returns [of R send data k, OF assms(2)] assms(3) by blast
  from send_all_sends [OF r assms(1)] r show ?thesis by (cases r) auto
qed

theorem send_all_complete_witness:
  "\<exists>ok k' n. send_all script_send [1, 2, 3] ([Sent 2, SendInterrupted, Sent 0], []) = Some (ok, k') \<and>
    snd k' = take n [1, 2, 3] \<and> n \<le> 3 \<and> (ok \<longleftrightarrow> n = 3)"
  using send_all_complete [of script_send snd "measure (length \<circ> fst)" "[1, 2, 3]"
      "([Sent 2, SendInterrupted, Sent 0], [])", OF script_send_contract wf_measure]
    script_send_interrupted
  by (simp add: eval_nat_numeral)

text \<open>C4. A TCP session from end to end, with a release build: a numbered feed is streamed with any
  partial writes and interruptions that POSIX allows (\<open>send_contract\<close>), the connection may fail at
  any byte on either side, and the receiver gets what arrived in chunks of any size: its books are
  those of the messages that arrived whole, and nothing is reported malformed.\<close>

theorem tcp_session_books:
  assumes "send_contract send sent" and "list_all message_ok msgs"
    and "map fst msgs = map (\<lambda>i. s + of_nat i) [0..<length msgs]"
    and "stream_feed send msgs True 0 ks = Some (Inr (ok, n, ks'))"
    and "delivers (recv_some recv) kr segs kr'" and "sent ks' = sent ks @ concat segs @ lost"
  shows "\<exists>ms f. whole (length (concat segs)) msgs ms \<and>
    tcp_loop recv (bb_handler True) (FeedHandler_init (BookBuilder_init True)) kr = Some (Inr (f, kr')) \<and>
    forwarded f = of_nat (length ms) \<and> fh_malformed f = 0 \<and>
    builder_rep (down f) (snd (ab_run (map message_item ms) Map.empty))"
proof -
  from stream_feed_sends [OF assms(1,2,4)] assms(6) obtain j where
    "concat segs @ lost = take j (wire msgs)" by auto
  then have "take (length (concat segs)) (wire msgs) = concat segs"
    by (metis append_eq_conv_conj append_take_drop_id take_take min.commute)
  with scan_prefix [OF assms(2), of "length (concat segs)"] obtain ms st where ms:
    "whole (length (concat segs)) msgs ms" "st \<noteq> AtBadHeader"
    "scan 0 (concat segs) = (map message_item ms, length (wire ms), st)" by auto
  from whole_prefix [OF ms(1)] have "map fst ms = take (length ms) (map fst msgs)"
    by (metis take_map)
  also have "\<dots> = map (\<lambda>i. s + of_nat i) [0..<length ms]"
  proof -
    have "length ms \<le> length msgs" by (metis whole_prefix [OF ms(1)] length_take min.cobounded1)
    then show ?thesis by (simp add: assms(3) take_map)
  qed
  finally have "accepted ms SequenceTracker_init = ms" by (rule accepted_contiguous)
  with consume_all_cut [OF ms(3,2)] obtain f where
    "consume_all (bb_handler True) segs (FeedHandler_init (BookBuilder_init True)) = Inr f"
    "fh_malformed f = 0" "forwarded f = of_nat (length ms)"
    "builder_rep (down f) (snd (ab_run (map message_item ms) Map.empty))" by auto
  with tcp_loop_delivers [OF assms(5), of "bb_handler True" "FeedHandler_init (BookBuilder_init True)"] ms(1)
  show ?thesis by auto
qed

theorem tcp_session_books_witness:
  "\<exists>ms f. whole 50 sample_messages ms \<and>
    tcp_loop script_recv (bb_handler True) (FeedHandler_init (BookBuilder_init True))
      [Received (take 20 (wire sample_messages)), Received (take 30 (drop 20 (wire sample_messages)))] =
      Some (Inr (f, [])) \<and>
    forwarded f = of_nat (length ms)"
proof -
  let ?w = "wire sample_messages"
  let ?segs = "[take 20 ?w, take 30 (drop 20 ?w)]"
  have len: "length ?w = 57"
    by (simp add: sample_messages_def length_frame_bytes wire_size_defs)
  have cat: "concat ?segs = take 50 ?w" by (simp add: take_add [of 20 30, simplified])
  have "[] \<notin> set ?segs" using len by auto
  from script_recv_some [OF this] have recv: "delivers (recv_some script_recv) (map Received ?segs) ?segs []" .
  have sent: "stream_feed script_send sample_messages True 0 ([Sent 100, Sent 100], []) =
      Some (Inr (True, 2, [], ?w))"
    by (simp add: sample_messages_def stream_feed_step script_send_all length_frame_bytes wire_size_defs
        del: stream_feed.simps(2))
  have ok: "list_all message_ok sample_messages"
    "map fst sample_messages = map (\<lambda>i. 1 + of_nat i) [0..<length sample_messages]"
    by (simp_all add: sample_messages_def)
  have "snd ([] :: send_result list, ?w) = snd ([Sent 100, Sent 100], []) @ concat ?segs @ drop 50 ?w"
    by (simp add: cat)
  from tcp_session_books [OF script_send_contract ok sent recv this] cat len show ?thesis
    by auto
qed

text \<open>C16. A UDP session of a release build: datagrams of whole messages arrive lost, repeated and in any
  order; the books are those of the messages that are newer than everything that arrived before
  them. As for the stream, no message is numbered \<open>2 ^ 32 - 1\<close>, at which the tracker's next
  expected number wraps to 0.\<close>

theorem udp_session_books:
  assumes "list_all (list_all message_ok) mss" and "- 1 \<notin> fst ` set (concat mss)"
    and "delivers (\<lambda>k. Some (recv k)) kr (map wire mss) kr'"
  shows "\<exists>f. udp_loop recv (bb_handler True) (FeedHandler_init (BookBuilder_init True)) kr = Some (Inr (f, kr')) \<and>
    forwarded f = of_nat (length (fresh 0 (concat mss))) \<and> fh_malformed f = 0 \<and>
    builder_rep (down f) (snd (ab_run (map message_item (fresh 0 (concat mss))) Map.empty))"
proof -
  have "accepted (concat mss) SequenceTracker_init = fresh 0 (concat mss)"
    by (rule accepted_fresh [OF assms(2)]) (simp add: SequenceTracker_init_def)
  with run_feed_messages [of "concat mss"] obtain f where
    "consume_datagrams (bb_handler True) (map wire mss) (FeedHandler_init (BookBuilder_init True)) = Inr f"
    "fh_malformed f = 0" "forwarded f = of_nat (length (fresh 0 (concat mss)))"
    "builder_rep (down f) (snd (ab_run (map message_item (fresh 0 (concat mss))) Map.empty))"
    by (auto simp: consume_datagrams_wire [OF assms(1)])
  with udp_loop_delivers [OF assms(3), of "bb_handler True" "FeedHandler_init (BookBuilder_init True)"]
  show ?thesis by auto
qed

theorem udp_session_books_witness:
  "\<exists>f. udp_loop script_recv (bb_handler True) (FeedHandler_init (BookBuilder_init True))
      [Received (wire [(5, 10, BodyHeartbeat), (6, 20, BodyAdd sample_add)]),
       Received (wire [(5, 10, BodyHeartbeat)])] = Some (Inr (f, [])) \<and>
    forwarded f = 2 \<and> builder_rep (down f) [7 \<mapsto> [\<lparr>bo_id = 42, bo_side = Sell, bo_price = - 1, bo_qty = 300\<rparr>]]"
proof -
  let ?mss = "[[(5, 10, BodyHeartbeat), (6, 20, BodyAdd sample_add)], [(5, 10, BodyHeartbeat)]] :: message list list"
  have ok: "list_all (list_all message_ok) ?mss" "- 1 \<notin> fst ` set (concat ?mss)" by simp_all
  have "[] \<notin> set (map wire ?mss)" by (auto simp: length_frame_bytes wire_size_defs dest!: arg_cong [where f = length])
  from script_recv_delivers [OF this]
  have recv: "delivers (\<lambda>k. Some (script_recv k)) (map Received (map wire ?mss)) (map wire ?mss) []" .
  have new: "fresh 0 (concat ?mss) = [(5, 10, BodyHeartbeat), (6, 20, BodyAdd sample_add)]" by simp
  have books: "snd (ab_run (map message_item (fresh 0 (concat ?mss))) Map.empty) =
      [7 \<mapsto> [\<lparr>bo_id = 42, bo_side = Sell, bo_price = - 1, bo_qty = 300\<rparr>]]"
    unfolding new by (simp add: sample_add_def ab_on_def ab_add_def ab_lookup_def)
  from udp_session_books [OF ok recv, unfolded books] show ?thesis
    by (auto simp: new simp del: wire_simps')
qed

end
