(* ===== verification/Latency_Stats.thy ===== *)
theory Latency_Stats
  imports Doubles "HOL-Library.Multiset"
begin

text \<open>
  Model of \<^verbatim>\<open>include/mdfh/stats.hpp\<close>. The rank of a percentile is computed in \<^verbatim>\<open>double\<close>; the
  product of two doubles is the exact product rounded to 53 significant bits, ties to even, and a
  scaling by a power of two does not change that, so the arithmetic is done on natural numbers:
  a quantile is its 53-bit significand over \<open>2 ^ 53\<close>. \<^verbatim>\<open>std::nth_element\<close> is a parameter, of which
  the standard promises \<open>nth_element_ok\<close>. The mean is a double of theory \<open>Doubles\<close>.
\<close>

section \<open>Doubles\<close>

text \<open>The bits of a number beyond the 53 that a double keeps.\<close>

fun excess_bits :: "nat \<Rightarrow> nat" where
  "excess_bits n = (if n < 2 ^ 53 then 0 else Suc (excess_bits (n div 2)))"

declare excess_bits.simps [simp del]

definition round_double :: "nat \<Rightarrow> nat" where
  "round_double n =
     (let s = excess_bits n; q = n div 2 ^ s; r = n mod 2 ^ s
      in if 2 * r > 2 ^ s \<or> 2 * r = 2 ^ s \<and> odd q then (q + 1) * 2 ^ s else q * 2 ^ s)"

section \<open>The histogram\<close>

record LatencySummary =
  ls_count :: u64
  ls_mean_ns :: f64
  ls_min_ns :: u64
  ls_p50_ns :: u64
  ls_p95_ns :: u64
  ls_p99_ns :: u64
  ls_max_ns :: u64

definition LatencySummary_init :: LatencySummary where
  "LatencySummary_init =
     \<lparr>ls_count = 0, ls_mean_ns = Number 0, ls_min_ns = 0, ls_p50_ns = 0, ls_p95_ns = 0, ls_p99_ns = 0, ls_max_ns = 0\<rparr>"

record LatencyHistogram =
  lh_samples :: "u64 list"
  lh_sum :: u64

definition LatencyHistogram_init :: LatencyHistogram where
  "LatencyHistogram_init = \<lparr>lh_samples = [], lh_sum = 0\<rparr>"

definition lh_add :: "u64 \<Rightarrow> LatencyHistogram \<Rightarrow> LatencyHistogram" where
  "lh_add ns h = h\<lparr>lh_samples := lh_samples h @ [ns], lh_sum := lh_sum h + ns\<rparr>"

definition lh_count :: "LatencyHistogram \<Rightarrow> nat" where
  "lh_count h = length (lh_samples h)"

text \<open>The significands of the doubles 0.50, 0.95 and 0.99 over \<open>2 ^ 53\<close>.\<close>

definition q50 :: nat where "q50 = 2 ^ 52"
definition q95 :: nat where "q95 = 8556839292003942"
definition q99 :: nat where "q99 = 8917127262193582"

definition rank :: "nat \<Rightarrow> nat \<Rightarrow> nat" where
  "rank q n = round_double (q * round_double (n - 1)) div 2 ^ 53"

definition percentile ::
  "(nat \<Rightarrow> u64 list \<Rightarrow> u64 list) \<Rightarrow> nat \<Rightarrow> LatencyHistogram \<Rightarrow> (u64 \<times> LatencyHistogram) exec" where
  "percentile nth_element q h =
     (if lh_samples h = [] then Inr (0, h)
      else
        (let idx = rank q (length (lh_samples h))
         in if idx \<le> length (lh_samples h)
            then let h = h\<lparr>lh_samples := nth_element idx (lh_samples h)\<rparr>
                 in ebind (rd (lh_samples h) idx) (\<lambda>v. Inr (v, h))
            else Inl OutOfBounds))"

definition summarize ::
  "(nat \<Rightarrow> u64 list \<Rightarrow> u64 list) \<Rightarrow> LatencyHistogram \<Rightarrow> (LatencySummary \<times> LatencyHistogram) exec" where
  "summarize nth_element h =
     (let s = LatencySummary_init\<lparr>ls_count := of_nat (length (lh_samples h))\<rparr>
      in if lh_samples h = [] then Inr (s, h)
         else
           let s = s\<lparr>ls_mean_ns := f64_div (f64_of_int (uint (lh_sum h))) (f64_of_int (uint (ls_count s))),
                      ls_min_ns := Min (set (lh_samples h)), ls_max_ns := Max (set (lh_samples h))\<rparr>
           in ebind (percentile nth_element q50 h) (\<lambda>(v, h).
              let s = s\<lparr>ls_p50_ns := v\<rparr>
              in ebind (percentile nth_element q95 h) (\<lambda>(v, h).
                 let s = s\<lparr>ls_p95_ns := v\<rparr>
                 in ebind (percentile nth_element q99 h) (\<lambda>(v, h).
                    Inr (s\<lparr>ls_p99_ns := v\<rparr>, h)))))"

section \<open>Rounding\<close>

lemma excess_bits_bounds: "n div 2 ^ excess_bits n < 2 ^ 53 \<and> (excess_bits n = 0 \<or> 2 ^ 52 \<le> n div 2 ^ excess_bits n)"
proof (induction n rule: excess_bits.induct)
  case (1 n)
  show ?case
  proof (cases "n < 2 ^ 53")
    case True
    then show ?thesis by (simp add: excess_bits.simps [of n])
  next
    case False
    with 1 have IH: "n div 2 div 2 ^ excess_bits (n div 2) < 2 ^ 53"
      "excess_bits (n div 2) = 0 \<or> 2 ^ 52 \<le> n div 2 div 2 ^ excess_bits (n div 2)" by blast+
    moreover have "2 ^ 52 \<le> n div 2 div 2 ^ excess_bits (n div 2)"
      using IH(2) False by auto
    ultimately show ?thesis using False by (simp add: excess_bits.simps [of n] div_mult2_eq)
  qed
qed

text \<open>The error is at most half a unit in the last place.\<close>

lemma round_double_error:
  "round_double n * 2 ^ 53 \<le> n * (2 ^ 53 + 1) \<and> n * 2 ^ 53 \<le> round_double n * 2 ^ 53 + n"
proof (cases "excess_bits n = 0")
  case True
  then show ?thesis by (simp add: round_double_def Let_def)
next
  case False
  let ?s = "excess_bits n" let ?q = "n div 2 ^ ?s" and ?r = "n mod 2 ^ ?s"
  have n: "n = ?q * 2 ^ ?s + ?r" by (rule div_mult_mod_eq [symmetric])
  from False excess_bits_bounds [of n] have "2 ^ 52 \<le> ?q" by simp
  then have "2 ^ 52 * 2 ^ ?s \<le> ?q * 2 ^ ?s" by (rule mult_le_mono1)
  with n have low: "2 ^ 52 * 2 ^ ?s \<le> n" by linarith
  have "?r < 2 ^ ?s" by simp
  have round: "round_double n = (if 2 * ?r > 2 ^ ?s \<or> 2 * ?r = 2 ^ ?s \<and> odd ?q then ?q * 2 ^ ?s + 2 ^ ?s else ?q * 2 ^ ?s)"
    by (simp add: round_double_def Let_def)
  then consider (up) "round_double n = ?q * 2 ^ ?s + 2 ^ ?s" "2 ^ ?s \<le> 2 * ?r"
    | (down) "round_double n = ?q * 2 ^ ?s" "2 * ?r \<le> 2 ^ ?s"
    by (metis less_imp_le_nat not_less order_refl)
  then have "2 * round_double n \<le> 2 * n + 2 ^ ?s \<and> 2 * n \<le> 2 * round_double n + 2 ^ ?s"
  proof cases
    case up
    with n \<open>?r < 2 ^ ?s\<close> show ?thesis by linarith
  next
    case down
    with n show ?thesis by linarith
  qed
  with low show ?thesis by simp
qed

lemma round_double_within:
  assumes "x \<le> 2 ^ 53 * m"
  shows "round_double x \<le> x + m" and "x \<le> round_double x + m"
proof -
  from round_double_error [of x] assms have "round_double x * 2 ^ 53 \<le> (x + m) * 2 ^ 53"
    "x * 2 ^ 53 \<le> (round_double x + m) * 2 ^ 53" by simp_all
  then show "round_double x \<le> x + m" "x \<le> round_double x + m" by simp_all
qed

lemma round_double_exact: "n < 2 ^ 53 \<Longrightarrow> round_double n = n"
  by (simp add: round_double_def Let_def excess_bits.simps [of n])

lemma excess_bits_scale: "x < 2 ^ 53 \<Longrightarrow> excess_bits (x * 2 ^ k) \<le> k"
proof (induction k)
  case 0
  then show ?case by (simp add: excess_bits.simps [of x])
next
  case (Suc k)
  have "x * 2 ^ Suc k div 2 = x * 2 ^ k" by simp
  with Suc show ?case by (subst excess_bits.simps) (simp del: power_Suc)
qed

lemma round_double_scale:
  assumes "x < 2 ^ 53"
  shows "round_double (x * 2 ^ k) = x * 2 ^ k"
proof -
  let ?n = "x * 2 ^ k"
  from excess_bits_scale [OF assms, of k] have "2 ^ excess_bits ?n dvd ?n"
    by (metis dvd_mult le_imp_power_dvd)
  then show ?thesis by (auto simp: round_double_def Let_def)
qed

section \<open>Ranks\<close>

lemma rank_bounds:
  assumes "0 < n" and "n \<le> 2 ^ 53" and "q < 2 ^ 53"
  shows "rank q n * 2 ^ 53 \<le> q * (n - 1) + (n - 1)" and "q * (n - 1) < rank q n * 2 ^ 53 + 2 ^ 53 + (n - 1)"
proof -
  let ?p = "q * (n - 1)" and ?m = "n - 1"
  have "?p \<le> 2 ^ 53 * ?m" using assms(3) by (intro mult_le_mono1) simp
  note within = round_double_within [OF this]
  have rank: "rank q n = round_double ?p div 2 ^ 53"
    using assms by (simp add: rank_def round_double_exact)
  have "rank q n * 2 ^ 53 \<le> round_double ?p" unfolding rank by (rule div_times_less_eq_dividend)
  with within(1) show "rank q n * 2 ^ 53 \<le> ?p + ?m" by (rule order_trans [rotated])
  have "round_double ?p < rank q n * 2 ^ 53 + 2 ^ 53" unfolding rank
    by (subst add.commute) (rule dividend_less_div_times, simp)
  with within(2) show "?p < rank q n * 2 ^ 53 + 2 ^ 53 + ?m" by linarith
qed

text \<open>\<open>round_double\<close> is the rounding of theory \<open>Doubles\<close>.\<close>

lemma rounded_nat: "rounded (of_nat n) = of_nat (round_double n)"
proof (cases "n < 2 ^ 53")
  case True
  then show ?thesis using rounded_int [of "int n"] by (simp add: round_double_exact)
next
  case False
  let ?s = "excess_bits n" let ?q = "n div 2 ^ ?s" and ?r = "n mod 2 ^ ?s" and ?u = "2 ^ ?s :: rat"
  have "?s \<noteq> 0" using False by (simp add: excess_bits.simps [of n])
  with excess_bits_bounds [of n] have q: "2 ^ 52 \<le> ?q" "?q < 2 ^ 53" by simp_all
  have n: "n = ?q * 2 ^ ?s + ?r" by (rule div_mult_mod_eq [symmetric])
  have r: "?r < 2 ^ ?s" by simp
  from q(1) have "2 ^ 52 * 2 ^ ?s \<le> ?q * 2 ^ ?s" by (rule mult_le_mono1)
  then have low: "2 ^ (52 + ?s) \<le> n" using n unfolding power_add by linarith
  have "n < (?q + 1) * 2 ^ ?s" using n r unfolding add_mult_distrib by linarith
  also have "\<dots> \<le> 2 ^ 53 * 2 ^ ?s" using q(2) by (intro mult_le_mono1) simp
  finally have high: "n < 2 ^ (53 + ?s)" unfolding power_add .
  have "of_nat (2 ^ (52 + ?s)) \<le> (of_nat n :: rat)" "(of_nat n :: rat) < of_nat (2 ^ (53 + ?s))"
    using low high by (simp_all only: of_nat_le_iff of_nat_less_iff)
  then have "2 powi int (52 + ?s) \<le> \<bar>of_nat n :: rat\<bar>" "\<bar>of_nat n :: rat\<bar> < 2 powi (int (52 + ?s) + 1)"
    by (simp_all add: power_int_def nat_add_distrib)
  from ulp_exp_at [OF this] have u: "ulp_exp (of_nat n) = int ?s" by simp
  have floor: "\<lfloor>of_nat n / ?u\<rfloor> = int ?q"
    using floor_divide_of_nat_eq [of n "2 ^ ?s", where 'a = rat] by simp
  have "of_nat n = (of_nat ?q * ?u + of_nat ?r :: rat)" using n by (metis of_nat_add of_nat_mult of_nat_numeral of_nat_power)
  then have rest: "of_nat n / ?u - of_int (int ?q) = of_nat ?r / ?u" by (simp add: field_simps)
  have half: "of_nat ?r / ?u < 1 / 2 \<longleftrightarrow> 2 * ?r < 2 ^ ?s" "1 / 2 < of_nat ?r / ?u \<longleftrightarrow> 2 ^ ?s < 2 * ?r"
  proof -
    have "of_nat ?r / ?u < 1 / 2 \<longleftrightarrow> of_nat (2 * ?r) < (of_nat (2 ^ ?s) :: rat)" by (simp add: field_simps)
    then show "of_nat ?r / ?u < 1 / 2 \<longleftrightarrow> 2 * ?r < 2 ^ ?s" by (simp only: of_nat_less_iff)
    have "1 / 2 < of_nat ?r / ?u \<longleftrightarrow> (of_nat (2 ^ ?s) :: rat) < of_nat (2 * ?r)" by (simp add: field_simps)
    then show "1 / 2 < of_nat ?r / ?u \<longleftrightarrow> 2 ^ ?s < 2 * ?r" by (simp only: of_nat_less_iff)
  qed
  have "nearest_even (of_nat n / ?u) = int (if 2 * ?r > 2 ^ ?s \<or> 2 * ?r = 2 ^ ?s \<and> odd ?q then ?q + 1 else ?q)"
    unfolding nearest_even_def Let_def floor rest half by auto
  then show ?thesis by (simp add: rounded_def u round_double_def Let_def algebra_simps)
qed

lemma toward_zero_nat_div: "toward_zero (of_nat a / of_nat b) = int (a div b)"
  using floor_divide_of_nat_eq [of a b, where 'a = rat] by (simp add: toward_zero_def)

text \<open>The quantiles are the doubles of the decimal literals.\<close>

lemma quantile_doubles:
  "round_f64 (50 / 100) = Number (of_nat q50 / 2 ^ 53)"
  "round_f64 (95 / 100) = Number (of_nat q95 / 2 ^ 53)"
  "round_f64 (99 / 100) = Number (of_nat q99 / 2 ^ 53)"
proof -
  have "round_f64 x = Number (of_int (nearest_even (x * 2 ^ 53)) / 2 ^ 53)" if "1 / 2 \<le> x" "x < 1" for x
  proof -
    have pow: "(2 :: rat) powi (- 1) = 1 / 2" "(2 :: rat) powi (- 1 + 1) = 1" "(2 :: rat) powi (- 53) = 1 / 2 ^ 53"
      by (simp_all add: power_int_def power_one_over)
    have "2 powi (- 1) \<le> \<bar>x\<bar>" unfolding pow(1) using that by simp
    moreover have "\<bar>x\<bar> < 2 powi (- 1 + 1)" unfolding pow(2) using that by simp
    ultimately have "ulp_exp x = max (- 1074) (- 1 - 52)" by (rule ulp_exp_at)
    then have "rounded x = of_int (nearest_even (x * 2 ^ 53)) / 2 ^ 53"
      by (simp add: rounded_def pow(3) del: power_int_minus)
    moreover have "\<bar>x\<bar> < 2 ^ 100" using that by simp
    ultimately show ?thesis by (simp add: round_f64_moderate)
  qed
  note at = this
  have floors: "\<lfloor>42784196460019712 / 5 :: rat\<rfloor> = 8556839292003942"
    "\<lfloor>222928181554839552 / 25 :: rat\<rfloor> = 8917127262193582" by (rule floor_unique; simp)+
  show "round_f64 (50 / 100) = Number (of_nat q50 / 2 ^ 53)"
    "round_f64 (95 / 100) = Number (of_nat q95 / 2 ^ 53)"
    "round_f64 (99 / 100) = Number (of_nat q99 / 2 ^ 53)"
    by (simp_all add: at nearest_even_def floors q50_def q95_def q99_def)
qed

text \<open>The rank is the truncated product of doubles that the code computes.\<close>

lemma rank_of_doubles:
  assumes "0 < n" and "n \<le> 2 ^ 53" and "0 < q" and "q < 2 ^ 53"
  obtains y where "f64_mult (Number (of_nat q / 2 ^ 53)) (f64_of_int (int (n - 1))) = Number y"
    and "toward_zero y = int (rank q n)"
proof -
  let ?p = "q * (n - 1)" and ?x = "of_nat (q * (n - 1)) * 2 powi (- 53) :: rat"
  have m: "n - 1 < 2 ^ 53" using assms by simp
  have "?p < 2 ^ 53 * 2 ^ 53" using assms(3,4) m by (intro mult_strict_mono) simp_all
  then have "(of_nat ?p :: rat) < of_nat (2 ^ 53 * 2 ^ 53)" by (simp only: of_nat_less_iff)
  then have below: "\<bar>?x\<bar> < 2 ^ 100" by (simp add: power_int_def field_simps)
  have "(of_nat q / 2 ^ 53) * of_int (int (n - 1)) = ?x" by (simp add: power_int_def field_simps)
  then have prod: "f64_mult (Number (of_nat q / 2 ^ 53)) (f64_of_int (int (n - 1))) = Number (rounded ?x)"
    using m f64_of_int_exact [of "int (n - 1)"] round_f64_moderate [OF below] by simp
  have "rounded ?x = of_nat (round_double ?p) * 2 powi (- 53)"
  proof (cases "?p = 0")
    case True
    then show ?thesis unfolding True by (simp add: round_double_exact)
  next
    case False
    then have "1 \<le> ?p" by linarith
    then have "(of_nat 1 :: rat) \<le> of_nat ?p" by (rule of_nat_mono)
    then have "(1 :: rat) \<le> of_nat ?p" by (simp only: of_nat_1)
    have small: "(2 :: rat) powi (- 1022) \<le> 2 powi 0" "(2 :: rat) powi (- 1022) \<le> 2 powi (- 53)"
      by (rule powi_mono, simp)+
    have "2 powi (- 53) \<le> ?x"
      using mult_right_mono [OF \<open>1 \<le> of_nat ?p\<close>, of "2 powi (- 53)"] by (simp only: mult_1_left powi_positive less_imp_le)
    with small \<open>1 \<le> of_nat ?p\<close> have "2 powi (- 1022) \<le> \<bar>of_nat ?p :: rat\<bar>" "2 powi (- 1022) \<le> \<bar>?x\<bar>"
      unfolding power_int_0_right by linarith+
    from rounded_scale [OF this] show ?thesis by (simp only: rounded_nat)
  qed
  moreover have "toward_zero (of_nat (round_double ?p) * 2 powi (- 53)) = int (round_double ?p div 2 ^ 53)"
  proof -
    have "(2 :: rat) powi (- 53) = 1 / of_nat (2 ^ 53)" by (simp add: power_int_def power_one_over)
    then have "of_nat (round_double ?p) * (2 :: rat) powi (- 53) = of_nat (round_double ?p) / of_nat (2 ^ 53)" by simp
    then show ?thesis by (simp only: toward_zero_nat_div)
  qed
  moreover have "rank q n = round_double ?p div 2 ^ 53" by (simp only: rank_def round_double_exact [OF m])
  ultimately have "toward_zero (rounded ?x) = int (rank q n)" by (simp only:)
  with prod show thesis by (rule that)
qed

lemma rank_less:
  assumes "0 < n" and "n \<le> 2 ^ 53" and "q < 2 ^ 53"
  shows "rank q n < n"
proof -
  have "q * (n - 1) + (n - 1) = Suc q * (n - 1)" by simp
  also have "\<dots> \<le> 2 ^ 53 * (n - 1)" using assms(3) by (intro mult_le_mono1) simp
  finally have "rank q n * 2 ^ 53 \<le> 2 ^ 53 * (n - 1)"
    by (rule order_trans [OF rank_bounds(1) [OF assms]])
  then have "rank q n \<le> n - 1" by simp
  with assms(1) show ?thesis by simp
qed

text \<open>The median is exact.\<close>

lemma rank_median:
  assumes "0 < n" and "n \<le> 2 ^ 53"
  shows "rank q50 n = (n - 1) div 2"
proof -
  have "n - 1 < 2 ^ 53" using assms by simp
  from round_double_scale [OF this, of 52] have "round_double (q50 * round_double (n - 1)) = (n - 1) * 2 ^ 52"
    using round_double_exact [OF \<open>n - 1 < 2 ^ 53\<close>] by (simp add: q50_def mult.commute)
  moreover have "(n - 1) * 2 ^ 52 div (2 ^ 52 * 2) = (n - 1) div 2"
    by (subst div_mult2_eq) simp
  ultimately show ?thesis by (simp add: rank_def)
qed

lemma rank_less_rank:
  assumes "0 < n" and "n \<le> 2 ^ 53" and "q' < 2 ^ 53" and "q + 2 \<le> q'"
  shows "rank q n \<le> rank q' n"
proof -
  have "round_double (q * (n - 1)) \<le> round_double (q' * (n - 1))"
  proof -
    let ?p = "q * (n - 1)" and ?p' = "q' * (n - 1)" and ?m = "n - 1"
    have "(q + 2) * ?m \<le> ?p'" using assms(4) by (intro mult_le_mono1)
    then have "?p + 2 * ?m \<le> ?p'" by (simp add: distrib_right)
    moreover have "?p \<le> 2 ^ 53 * ?m" "?p' \<le> 2 ^ 53 * ?m"
      using assms(3,4) by (intro mult_le_mono1; simp)+
    moreover note round_double_within(1) [OF this(1)] round_double_within(2) [OF this(2)]
    ultimately show ?thesis by linarith
  qed
  then show ?thesis using assms by (simp add: rank_def round_double_exact div_le_mono)
qed

section \<open>Properties\<close>

text \<open>What the standard promises of \<^verbatim>\<open>std::nth_element\<close>.\<close>

definition nth_element_ok :: "(nat \<Rightarrow> u64 list \<Rightarrow> u64 list) \<Rightarrow> bool" where
  "nth_element_ok nth_element \<longleftrightarrow> (\<forall>k xs. k < length xs \<longrightarrow>
     mset (nth_element k xs) = mset xs \<and> nth_element k xs ! k = sort xs ! k)"

lemma percentile_rank:
  assumes "nth_element_ok nth_element" and "lh_samples h \<noteq> []" and "length (lh_samples h) \<le> 2 ^ 53"
    and "q < 2 ^ 53"
  shows "\<exists>h'. percentile nth_element q h =
      Inr (sort (lh_samples h) ! rank q (length (lh_samples h)), h') \<and>
    mset (lh_samples h') = mset (lh_samples h) \<and> lh_sum h' = lh_sum h"
proof -
  let ?xs = "lh_samples h"
  from rank_less [of "length ?xs" q] assms(2-4) have less: "rank q (length ?xs) < length ?xs" by simp
  with assms(1) have nth: "mset (nth_element (rank q (length ?xs)) ?xs) = mset ?xs"
    "nth_element (rank q (length ?xs)) ?xs ! rank q (length ?xs) = sort ?xs ! rank q (length ?xs)"
    by (simp_all add: nth_element_ok_def)
  from nth(1) have "length (nth_element (rank q (length ?xs)) ?xs) = length ?xs" by (metis size_mset)
  with nth less assms(2) show ?thesis by (simp add: percentile_def Let_def rd_def)
qed

lemma min_max_sorted:
  fixes xs :: "u64 list"
  assumes "xs \<noteq> []"
  shows "Min (set xs) = sort xs ! 0" and "Max (set xs) = sort xs ! (length xs - 1)"
proof -
  have "sort xs \<noteq> []" using assms by (metis length_0_conv length_sort)
  moreover have "set xs = set (sort xs)" by simp
  moreover have "sort xs ! 0 \<le> y \<and> y \<le> sort xs ! (length xs - 1)" if "y \<in> set (sort xs)" for y
    using that by (auto simp: in_set_conv_nth intro!: sorted_nth_mono simp del: set_sort)
  ultimately show "Min (set xs) = sort xs ! 0" "Max (set xs) = sort xs ! (length xs - 1)"
    using assms by (auto intro!: Min_eqI Max_eqI simp del: set_sort)
qed

lemma same_samples:
  fixes xs :: "u64 list"
  assumes "mset ys = mset xs"
  shows "sort ys = sort xs" and "length ys = length xs" and "ys = [] \<longleftrightarrow> xs = []"
  using assms properties_for_sort [of "sort xs" ys] mset_eq_length [OF assms] by auto

text \<open>The running sum is that of the samples, modulo \<open>2 ^ 64\<close>.\<close>

definition histogram_ok :: "LatencyHistogram \<Rightarrow> bool" where
  "histogram_ok h \<longleftrightarrow> lh_sum h = sum_list (lh_samples h)"

lemma histogram_init_ok: "histogram_ok LatencyHistogram_init"
  by (simp add: histogram_ok_def LatencyHistogram_init_def)

lemma lh_add_ok: "histogram_ok h \<Longrightarrow> histogram_ok (lh_add ns h)"
  by (simp add: histogram_ok_def lh_add_def)

lemma uint_sum_list:
  "sum_list (map uint xs) < 2 ^ 64 \<Longrightarrow> uint (sum_list xs :: u64) = sum_list (map uint xs)"
proof (induction xs)
  case (Cons x xs)
  have x: "0 \<le> uint x" by simp
  have rest: "0 \<le> sum_list (map uint xs)" by (auto intro!: sum_list_nonneg)
  have total: "uint x + sum_list (map uint xs) < 2 ^ 64" using Cons.prems by simp
  with x have "uint (sum_list xs) = sum_list (map uint xs)" by (intro Cons.IH) linarith
  moreover have "(uint x + sum_list (map uint xs)) mod 2 ^ 64 = uint x + sum_list (map uint xs)"
    using x rest total by (intro mod_pos_pos_trivial) linarith+
  ultimately show ?case by (simp add: uint_word_ariths)
qed simp

text \<open>The mean is the exact one up to one part in \<open>2 ^ 53\<close> as long as the sum stays below \<open>2 ^ 53\<close>.\<close>

lemma mean_close:
  assumes "histogram_ok h" and "sum_list (map uint (lh_samples h)) = t" and "t < 2 ^ 53"
    and "0 < n" and "n < 2 ^ 53"
  obtains m where "f64_div (f64_of_int (uint (lh_sum h))) (f64_of_int n) = Number m"
    and "\<bar>m - of_int t / of_int n\<bar> \<le> of_int t / of_int n / 2 ^ 53"
proof -
  let ?x = "of_int t / of_int n :: rat"
  have t: "0 \<le> t" unfolding assms(2) [symmetric] by (auto intro!: sum_list_nonneg)
  have sum: "uint (lh_sum h) = t"
    using assms(1-3) uint_sum_list [of "lh_samples h"] by (simp add: histogram_ok_def)
  have "(of_int t :: rat) < of_int (2 ^ 53)" "(of_int n :: rat) < of_int (2 ^ 53)"
    using assms(3,5) by (simp_all only: of_int_less_iff)
  then have bounds: "(of_int t :: rat) < 2 ^ 53" "(of_int n :: rat) < 2 ^ 53" "(1 :: rat) \<le> of_int n"
    "(0 :: rat) \<le> of_int t" using assms(4) t by simp_all
  have "?x \<le> of_int t" using bounds by (simp add: divide_le_eq mult_le_cancel_left1)
  with bounds have "\<bar>?x\<bar> < 2 ^ 100" by simp
  then have val: "f64_div (f64_of_int t) (f64_of_int n) = Number (rounded ?x)"
    using assms(3-5) t by (simp add: f64_of_int_exact round_f64_moderate)
  have "?x = 0 \<or> 2 powi (- 1022) \<le> \<bar>?x\<bar>"
  proof (cases "t = 0")
    case False
    with t have "(1 :: rat) \<le> of_int t" by simp
    then have "1 / 2 ^ 53 \<le> ?x" using bounds by (intro frac_le) simp_all
    moreover have "(2 :: rat) powi (- 1022) \<le> 2 powi (- 53)" by (rule powi_mono) simp
    moreover have "(2 :: rat) powi (- 53) = 1 / 2 ^ 53" by (simp add: power_int_def field_simps)
    ultimately show ?thesis by linarith
  qed simp
  from rounded_error [OF this] have "\<bar>rounded ?x - ?x\<bar> \<le> ?x / 2 ^ 53" using bounds by simp
  with val sum show thesis by (intro that) simp_all
qed

lemma summarize_value:
  assumes "nth_element_ok nth_element" and "lh_samples h \<noteq> []" and "length (lh_samples h) \<le> 2 ^ 53"
  defines "xs \<equiv> sort (lh_samples h)" and "n \<equiv> length (lh_samples h)"
  shows "\<exists>h'. summarize nth_element h = Inr
      (\<lparr>ls_count = of_nat n, ls_mean_ns = f64_div (f64_of_int (uint (lh_sum h))) (f64_of_int (int n)),
        ls_min_ns = xs ! 0, ls_p50_ns = xs ! rank q50 n, ls_p95_ns = xs ! rank q95 n, ls_p99_ns = xs ! rank q99 n,
        ls_max_ns = xs ! (n - 1)\<rparr>, h') \<and> mset (lh_samples h') = mset (lh_samples h)"
proof -
  have q: "q50 < 2 ^ 53" "q95 < 2 ^ 53" "q99 < 2 ^ 53" by (simp_all add: q50_def q95_def q99_def)
  from percentile_rank [OF assms(1-3) q(1)] obtain h1 where h1:
    "percentile nth_element q50 h = Inr (xs ! rank q50 n, h1)" "mset (lh_samples h1) = mset (lh_samples h)"
    unfolding xs_def n_def by blast
  note same1 = same_samples [OF h1(2)]
  from percentile_rank [OF assms(1) _ _ q(2), of h1] assms(2,3) same1 obtain h2 where h2:
    "percentile nth_element q95 h1 = Inr (xs ! rank q95 n, h2)" "mset (lh_samples h2) = mset (lh_samples h)"
    unfolding xs_def n_def using h1(2) by auto
  note same2 = same_samples [OF h2(2)]
  from percentile_rank [OF assms(1) _ _ q(3), of h2] assms(2,3) same2 obtain h3 where h3:
    "percentile nth_element q99 h2 = Inr (xs ! rank q99 n, h3)" "mset (lh_samples h3) = mset (lh_samples h)"
    unfolding xs_def n_def using h2(2) by auto
  have "uint (of_nat n :: u64) = int n"
    using assms(3) by (simp add: n_def unsigned_of_nat take_bit_nat_eq_self)
  then show ?thesis using h1(1) h2(1) h3 assms(2)
    by (simp add: summarize_def Let_def LatencySummary_init_def min_max_sorted [OF assms(2)] xs_def n_def)
qed

text \<open>C39. For at least one and at most \<open>2 ^ 53\<close> samples, and any \<^verbatim>\<open>std::nth_element\<close> that does what the standard
  says, the summary holds the exact order statistics: the extremes, the lower median, and for the
  95th and 99th percentile the sample whose rank is the product of quantile and largest index in
  double precision, which is always in range; the samples are only permuted.\<close>

theorem summary_order_statistics:
  assumes "nth_element_ok nth_element" and "lh_samples h \<noteq> []" and "length (lh_samples h) \<le> 2 ^ 53"
  shows "let xs = sort (lh_samples h); n = length (lh_samples h) in
    \<exists>s h'. summarize nth_element h = Inr (s, h') \<and> mset (lh_samples h') = mset (lh_samples h) \<and>
      s = \<lparr>ls_count = of_nat n, ls_mean_ns = f64_div (f64_of_int (uint (lh_sum h))) (f64_of_int (int n)), ls_min_ns = xs ! 0, ls_p50_ns = xs ! ((n - 1) div 2),
           ls_p95_ns = xs ! rank q95 n, ls_p99_ns = xs ! rank q99 n, ls_max_ns = xs ! (n - 1)\<rparr> \<and>
      (n - 1) div 2 \<le> rank q95 n \<and> rank q95 n \<le> rank q99 n \<and> rank q99 n < n"
proof -
  let ?n = "length (lh_samples h)"
  have q: "q95 < 2 ^ 53" "q99 < 2 ^ 53" "q50 + 2 \<le> q95" "q95 + 2 \<le> q99"
    by (simp_all add: q50_def q95_def q99_def)
  have pos: "0 < ?n" using assms(2) by simp
  have "rank q50 ?n \<le> rank q95 ?n" "rank q95 ?n \<le> rank q99 ?n" "rank q99 ?n < ?n"
    using rank_less_rank [OF pos assms(3) q(1,3)] rank_less_rank [OF pos assms(3) q(2,4)]
      rank_less [OF pos assms(3) q(2)] by simp_all
  with summarize_value [OF assms] show ?thesis
    by (auto simp: Let_def rank_median [OF pos assms(3)])
qed

theorem summary_order_statistics_witness:
  "\<exists>s h'. summarize (\<lambda>k. sort) \<lparr>lh_samples = [30, 10, 20], lh_sum = 60\<rparr> = Inr (s, h') \<and>
    ls_min_ns s = 10 \<and> ls_p50_ns s = 20 \<and> ls_max_ns s = 30"
proof -
  have "nth_element_ok (\<lambda>k. sort)" by (simp add: nth_element_ok_def)
  from summary_order_statistics [OF this, of "\<lparr>lh_samples = [30, 10, 20], lh_sum = 60\<rparr>"] show ?thesis
    by (auto simp: Let_def)
qed

end
