(* ===== verification/Sockets.thy ===== *)
theory Sockets
  imports Prelude "HOL-Library.Signed_Division"
begin

text \<open>
  Model of the descriptor wrapper of \<^verbatim>\<open>include/mdfh/net/socket.hpp\<close> and of the set-up calls of
  \<^verbatim>\<open>src/net/tcp.cpp\<close> and \<^verbatim>\<open>src/net/udp.cpp\<close>. The results of the system calls are parameters, one record
  of them per function call; what is modelled is which descriptors are open. A close of a
  descriptor that is not open is counted. The timeout of the UDP
  receiver is modelled with its arithmetic; \<^verbatim>\<open>SO_REUSEADDR\<close> and \<^verbatim>\<open>TCP_NODELAY\<close>, which are set without a
  look at the result, are left out.
\<close>

section \<open>Descriptors\<close>

record net =
  n_open :: "int set"
  n_bad_close :: nat

definition sys_open :: "int \<Rightarrow> net \<Rightarrow> net" where
  "sys_open fd n = (if 0 \<le> fd then n\<lparr>n_open := insert fd (n_open n)\<rparr> else n)"

definition sys_close :: "int \<Rightarrow> net \<Rightarrow> net" where
  "sys_close fd n =
     (if fd \<in> n_open n then n\<lparr>n_open := n_open n - {fd}\<rparr> else n\<lparr>n_bad_close := n_bad_close n + 1\<rparr>)"

record Socket =
  sk_fd :: int

definition Socket_init :: Socket where
  "Socket_init = \<lparr>sk_fd = - 1\<rparr>"

definition socket_valid :: "Socket \<Rightarrow> bool" where
  "socket_valid s \<longleftrightarrow> 0 \<le> sk_fd s"

definition socket_close :: "Socket \<Rightarrow> net \<Rightarrow> Socket \<times> net" where
  "socket_close s n = (if 0 \<le> sk_fd s then (s\<lparr>sk_fd := - 1\<rparr>, sys_close (sk_fd s) n) else (s, n))"

definition socket_release :: "Socket \<Rightarrow> int \<times> Socket" where
  "socket_release s = (sk_fd s, s\<lparr>sk_fd := - 1\<rparr>)"

text \<open>The move constructor, and the move assignment between two objects.\<close>

definition socket_move :: "Socket \<Rightarrow> Socket \<times> Socket" where
  "socket_move s = (\<lparr>sk_fd = sk_fd s\<rparr>, s\<lparr>sk_fd := - 1\<rparr>)"

definition socket_assign :: "Socket \<Rightarrow> Socket \<Rightarrow> net \<Rightarrow> Socket \<times> Socket \<times> net" where
  "socket_assign dst src n =
     (let (dst, n) = socket_close dst n in (dst\<lparr>sk_fd := sk_fd src\<rparr>, src\<lparr>sk_fd := - 1\<rparr>, n))"

section \<open>The set-up calls\<close>

text \<open>What the system calls of one function return; \<open>sc_port\<close> is the result of \<^verbatim>\<open>getsockname\<close>.\<close>

record calls =
  sc_socket :: int
  sc_bind :: int
  sc_listen :: int
  sc_accept :: int
  sc_pton :: "u32 option"
  sc_connect :: int
  sc_port :: "u16 option"

definition local_port :: "calls \<Rightarrow> u16" where
  "local_port c = (case sc_port c of None \<Rightarrow> 0 | Some p \<Rightarrow> p)"

text \<open>The local \<open>Socket\<close> that a failing path destroys, and that a succeeding one moves out of.\<close>

definition give_up :: "Socket \<Rightarrow> net \<Rightarrow> net" where
  "give_up s n = snd (socket_close s n)"

definition adopt :: "Socket \<Rightarrow> Socket \<Rightarrow> net \<Rightarrow> Socket \<times> net" where
  "adopt dst s n = (let (dst, s, n) = socket_assign dst s n in (dst, give_up s n))"

record TcpServer =
  ts_listen :: Socket
  ts_port :: u16

definition tcp_listen :: "calls \<Rightarrow> TcpServer \<Rightarrow> net \<Rightarrow> bool \<times> TcpServer \<times> net" where
  "tcp_listen c srv n =
     (let fd = sc_socket c; n = sys_open fd n
      in if fd < 0 then (False, srv, n)
         else
           let s = \<lparr>sk_fd = fd\<rparr>
           in if sc_bind c \<noteq> 0 then (False, srv, give_up s n)
              else if sc_listen c \<noteq> 0 then (False, srv, give_up s n)
              else
                let srv = srv\<lparr>ts_port := local_port c\<rparr>;
                    (l, n) = adopt (ts_listen srv) s n
                in (True, srv\<lparr>ts_listen := l\<rparr>, n))"

definition tcp_accept :: "calls \<Rightarrow> net \<Rightarrow> Socket option \<times> net" where
  "tcp_accept c n =
     (let fd = sc_accept c; n = sys_open fd n in if fd < 0 then (None, n) else (Some \<lparr>sk_fd = fd\<rparr>, n))"

record TcpClient =
  tc_sock :: Socket

definition tcp_connect :: "calls \<Rightarrow> TcpClient \<Rightarrow> net \<Rightarrow> bool \<times> TcpClient \<times> net" where
  "tcp_connect c cl n =
     (let fd = sc_socket c; n = sys_open fd n
      in if fd < 0 then (False, cl, n)
         else
           let s = \<lparr>sk_fd = fd\<rparr>
           in if sc_pton c = None then (False, cl, give_up s n)
              else if sc_connect c \<noteq> 0 then (False, cl, give_up s n)
              else let (k, n) = adopt (tc_sock cl) s n in (True, cl\<lparr>tc_sock := k\<rparr>, n))"

record UdpSender =
  us_sock :: Socket
  us_dst_addr :: u32
  us_dst_port :: u16

text \<open>\<^verbatim>\<open>htons\<close> on the little-endian machines the program is built for.\<close>

definition htons :: "u16 \<Rightarrow> u16" where
  "htons p = or (push_bit 8 p) (drop_bit 8 p)"

definition udp_open :: "calls \<Rightarrow> u16 \<Rightarrow> UdpSender \<Rightarrow> net \<Rightarrow> bool \<times> UdpSender \<times> net" where
  "udp_open c port us n =
     (let fd = sc_socket c; n = sys_open fd n
      in if fd < 0 then (False, us, n)
         else
           let s = \<lparr>sk_fd = fd\<rparr>
           in case sc_pton c of
                None \<Rightarrow> (False, us, give_up s n)
              | Some a \<Rightarrow>
                  let us = us\<lparr>us_dst_addr := a, us_dst_port := htons port\<rparr>;
                      (k, n) = adopt (us_sock us) s n
                  in (True, us\<lparr>us_sock := k\<rparr>, n))"

text \<open>\<open>sent\<close> is the result of \<^verbatim>\<open>::sendto\<close>.\<close>

definition udp_send :: "int \<Rightarrow> byte list \<Rightarrow> bool" where
  "udp_send sent data \<longleftrightarrow> sent = int (length data)"

record UdpReceiver =
  ur_sock :: Socket
  ur_port :: u16

definition udp_bind :: "calls \<Rightarrow> UdpReceiver \<Rightarrow> net \<Rightarrow> bool \<times> UdpReceiver \<times> net" where
  "udp_bind c ur n =
     (let fd = sc_socket c; n = sys_open fd n
      in if fd < 0 then (False, ur, n)
         else
           let s = \<lparr>sk_fd = fd\<rparr>
           in if sc_bind c \<noteq> 0 then (False, ur, give_up s n)
              else
                let ur = ur\<lparr>ur_port := local_port c\<rparr>;
                    (k, n) = adopt (ur_sock ur) s n
                in (True, ur\<lparr>ur_sock := k\<rparr>, n))"

text \<open>The receive timeout; \<open>setsockopt\<close> is the system call, with the state behind it.\<close>

record timeval =
  tv_sec :: int
  tv_usec :: int

definition timeval_of_ms :: "int \<Rightarrow> timeval" where
  "timeval_of_ms ms = \<lparr>tv_sec = ms sdiv 1000, tv_usec = (ms smod 1000) * 1000\<rparr>"

definition set_recv_timeout_ms :: "(timeval \<Rightarrow> 'k \<Rightarrow> int \<times> 'k) \<Rightarrow> int \<Rightarrow> 'k \<Rightarrow> bool \<times> 'k" where
  "set_recv_timeout_ms setsockopt ms k = (let (r, k) = setsockopt (timeval_of_ms ms) k in (r = 0, k))"

text \<open>The time is exact, it is a proper \<^verbatim>\<open>timeval\<close> exactly when it is not negative, and zero, which
  stands for no timeout at all, exactly when it is zero.\<close>

lemma timeval_exact:
  "1000000 * tv_sec (timeval_of_ms ms) + tv_usec (timeval_of_ms ms) = 1000 * ms"
  "\<bar>tv_usec (timeval_of_ms ms)\<bar> < 1000000"
  "0 \<le> tv_sec (timeval_of_ms ms) \<and> 0 \<le> tv_usec (timeval_of_ms ms) \<longleftrightarrow> 0 \<le> ms"
  "timeval_of_ms ms = \<lparr>tv_sec = 0, tv_usec = 0\<rparr> \<longleftrightarrow> ms = 0"
proof -
  let ?q = "ms sdiv 1000" and ?r = "ms smod 1000"
  have split: "?q * 1000 + ?r = ms" by (rule sdiv_mult_smod_eq)
  have r: "\<bar>?r\<bar> < 1000" and sign: "0 \<le> ms \<Longrightarrow> 0 \<le> ?r" "ms \<le> 0 \<Longrightarrow> ?r \<le> 0"
    by (auto simp: signed_modulo_int_def sgn_if abs_if)
  show "1000000 * tv_sec (timeval_of_ms ms) + tv_usec (timeval_of_ms ms) = 1000 * ms"
    using split by (simp add: timeval_of_ms_def)
  show "\<bar>tv_usec (timeval_of_ms ms)\<bar> < 1000000" using r by (simp add: timeval_of_ms_def)
  show "0 \<le> tv_sec (timeval_of_ms ms) \<and> 0 \<le> tv_usec (timeval_of_ms ms) \<longleftrightarrow> 0 \<le> ms"
    using split r sign by (auto simp: timeval_of_ms_def)
  show "timeval_of_ms ms = \<lparr>tv_sec = 0, tv_usec = 0\<rparr> \<longleftrightarrow> ms = 0"
    using split r sign by (auto simp: timeval_of_ms_def)
qed

section \<open>Ownership\<close>

text \<open>The descriptors that are open are those of \<open>rest\<close> and the one the object holds, if any.\<close>

definition holds :: "Socket \<Rightarrow> int set \<Rightarrow> net \<Rightarrow> bool" where
  "holds s rest n \<longleftrightarrow> (0 \<le> sk_fd s \<longrightarrow> sk_fd s \<notin> rest) \<and>
     n_open n = (if 0 \<le> sk_fd s then insert (sk_fd s) rest else rest)"

text \<open>A new descriptor is one that is not open.\<close>

definition fresh_fd :: "int \<Rightarrow> net \<Rightarrow> bool" where
  "fresh_fd fd n \<longleftrightarrow> fd < 0 \<or> fd \<notin> n_open n"

lemma give_up_new: "0 \<le> fd \<Longrightarrow> fresh_fd fd n \<Longrightarrow> give_up \<lparr>sk_fd = fd\<rparr> (sys_open fd n) = n"
  by (auto simp: give_up_def socket_close_def sys_open_def sys_close_def fresh_fd_def)

lemma adopt_holds:
  assumes "holds dst rest n" and "0 \<le> fd" and "fresh_fd fd n"
  shows "\<exists>n'. adopt dst \<lparr>sk_fd = fd\<rparr> (sys_open fd n) = (\<lparr>sk_fd = fd\<rparr>, n') \<and> holds \<lparr>sk_fd = fd\<rparr> rest n' \<and>
    n_bad_close n' = n_bad_close n"
proof (cases "0 \<le> sk_fd dst")
  case True
  then have "n_open n = insert (sk_fd dst) rest" "sk_fd dst \<notin> rest" "fd \<noteq> sk_fd dst" "fd \<notin> rest"
    using assms by (auto simp: holds_def fresh_fd_def)
  moreover from this have "insert fd (insert (sk_fd dst) rest) - {sk_fd dst} = insert fd rest" by blast
  ultimately show ?thesis
    using True assms(2)
    by (simp add: adopt_def give_up_def socket_assign_def socket_close_def sys_open_def sys_close_def holds_def)
next
  case False
  then have "n_open n = rest" "fd \<notin> rest" using assms by (auto simp: holds_def fresh_fd_def)
  with False assms(2) show ?thesis
    by (simp add: adopt_def give_up_def socket_assign_def socket_close_def sys_open_def holds_def)
qed

lemmas setup_defs = tcp_listen_def tcp_connect_def udp_open_def udp_bind_def Let_def

lemma close_frees: "holds s rest n \<Longrightarrow> holds (fst (socket_close s n)) rest (snd (socket_close s n)) \<and>
    n_open (snd (socket_close s n)) = rest \<and> n_bad_close (snd (socket_close s n)) = n_bad_close n"
  by (auto simp: holds_def socket_close_def sys_close_def)

text \<open>
  Each set-up call either fails and leaves the object and the open descriptors as they were, or
  succeeds with the new descriptor in the object and the object's old one closed. No descriptor
  leaks and none is closed twice.
\<close>

definition setup_ok :: "bool \<Rightarrow> int \<Rightarrow> Socket \<Rightarrow> net \<Rightarrow> Socket \<Rightarrow> net \<Rightarrow> int set \<Rightarrow> bool" where
  "setup_ok ok fd s n s' n' rest \<longleftrightarrow> holds s' rest n' \<and> n_bad_close n' = n_bad_close n \<and>
     (if ok then socket_valid s' \<and> sk_fd s' = fd else s' = s \<and> n' = n)"

lemma setup_owns:
  assumes "fresh_fd (sc_socket c) n"
  shows "holds (ts_listen srv) rest n \<Longrightarrow> tcp_listen c srv n = (ok, srv', n') \<Longrightarrow>
      setup_ok ok (sc_socket c) (ts_listen srv) n (ts_listen srv') n' rest"
    and "holds (tc_sock cl) rest n \<Longrightarrow> tcp_connect c cl n = (ok, cl', n') \<Longrightarrow>
      setup_ok ok (sc_socket c) (tc_sock cl) n (tc_sock cl') n' rest"
    and "holds (us_sock us) rest n \<Longrightarrow> udp_open c port us n = (ok, us', n') \<Longrightarrow>
      setup_ok ok (sc_socket c) (us_sock us) n (us_sock us') n' rest"
    and "holds (ur_sock ur) rest n \<Longrightarrow> udp_bind c ur n = (ok, ur', n') \<Longrightarrow>
      setup_ok ok (sc_socket c) (ur_sock ur) n (ur_sock ur') n' rest"
proof -
  have fail: "sc_socket c < 0 \<Longrightarrow> sys_open (sc_socket c) n = n" by (simp add: sys_open_def)
  have new: "\<exists>n1. adopt dst \<lparr>sk_fd = sc_socket c\<rparr> (sys_open (sc_socket c) n) = (\<lparr>sk_fd = sc_socket c\<rparr>, n1) \<and>
      setup_ok True (sc_socket c) dst n \<lparr>sk_fd = sc_socket c\<rparr> n1 rest \<and>
      give_up \<lparr>sk_fd = sc_socket c\<rparr> (sys_open (sc_socket c) n) = n"
    if "holds dst rest n" "\<not> sc_socket c < 0" for dst
    using adopt_holds [OF that(1) _ assms] give_up_new [OF _ assms] that(2)
    by (auto simp: setup_ok_def socket_valid_def)
  have old: "setup_ok False fd s n s n rest" if "holds s rest n" for fd s
    using that by (simp add: setup_ok_def)
  show "setup_ok ok (sc_socket c) (ts_listen srv) n (ts_listen srv') n' rest"
    if "holds (ts_listen srv) rest n" and "tcp_listen c srv n = (ok, srv', n')"
  proof (cases "sc_socket c < 0")
    case True
    with that fail old show ?thesis by (auto simp: setup_defs)
  next
    case False
    from new [OF that(1) this] obtain n1 where
      "adopt (ts_listen srv) \<lparr>sk_fd = sc_socket c\<rparr> (sys_open (sc_socket c) n) = (\<lparr>sk_fd = sc_socket c\<rparr>, n1)"
      "setup_ok True (sc_socket c) (ts_listen srv) n \<lparr>sk_fd = sc_socket c\<rparr> n1 rest"
      "give_up \<lparr>sk_fd = sc_socket c\<rparr> (sys_open (sc_socket c) n) = n" by blast
    with that old [OF that(1)] False show ?thesis
      by (auto simp: setup_defs split: if_splits option.splits)
  qed
  show "setup_ok ok (sc_socket c) (tc_sock cl) n (tc_sock cl') n' rest"
    if "holds (tc_sock cl) rest n" and "tcp_connect c cl n = (ok, cl', n')"
  proof (cases "sc_socket c < 0")
    case True
    with that fail old show ?thesis by (auto simp: setup_defs)
  next
    case False
    from new [OF that(1) this] obtain n1 where
      "adopt (tc_sock cl) \<lparr>sk_fd = sc_socket c\<rparr> (sys_open (sc_socket c) n) = (\<lparr>sk_fd = sc_socket c\<rparr>, n1)"
      "setup_ok True (sc_socket c) (tc_sock cl) n \<lparr>sk_fd = sc_socket c\<rparr> n1 rest"
      "give_up \<lparr>sk_fd = sc_socket c\<rparr> (sys_open (sc_socket c) n) = n" by blast
    with that old [OF that(1)] False show ?thesis
      by (auto simp: setup_defs split: if_splits option.splits)
  qed
  show "setup_ok ok (sc_socket c) (us_sock us) n (us_sock us') n' rest"
    if "holds (us_sock us) rest n" and "udp_open c port us n = (ok, us', n')"
  proof (cases "sc_socket c < 0")
    case True
    with that fail old show ?thesis by (auto simp: setup_defs)
  next
    case False
    from new [OF that(1) this] obtain n1 where
      "adopt (us_sock us) \<lparr>sk_fd = sc_socket c\<rparr> (sys_open (sc_socket c) n) = (\<lparr>sk_fd = sc_socket c\<rparr>, n1)"
      "setup_ok True (sc_socket c) (us_sock us) n \<lparr>sk_fd = sc_socket c\<rparr> n1 rest"
      "give_up \<lparr>sk_fd = sc_socket c\<rparr> (sys_open (sc_socket c) n) = n" by blast
    with that old [OF that(1)] False show ?thesis
      by (auto simp: setup_defs split: if_splits option.splits)
  qed
  show "setup_ok ok (sc_socket c) (ur_sock ur) n (ur_sock ur') n' rest"
    if "holds (ur_sock ur) rest n" and "udp_bind c ur n = (ok, ur', n')"
  proof (cases "sc_socket c < 0")
    case True
    with that fail old show ?thesis by (auto simp: setup_defs)
  next
    case False
    from new [OF that(1) this] obtain n1 where
      "adopt (ur_sock ur) \<lparr>sk_fd = sc_socket c\<rparr> (sys_open (sc_socket c) n) = (\<lparr>sk_fd = sc_socket c\<rparr>, n1)"
      "setup_ok True (sc_socket c) (ur_sock ur) n \<lparr>sk_fd = sc_socket c\<rparr> n1 rest"
      "give_up \<lparr>sk_fd = sc_socket c\<rparr> (sys_open (sc_socket c) n) = n" by blast
    with that old [OF that(1)] False show ?thesis
      by (auto simp: setup_defs split: if_splits option.splits)
  qed
qed

section \<open>Properties\<close>

text \<open>C40. Descriptor ownership of \<open>TcpServer::listen\<close>, on every path: when the descriptor that \<^verbatim>\<open>::socket\<close> returns
  is not one already open and the server owns the one it holds, then if it fails the server and the
  open descriptors are as before, and if it succeeds the server holds the new descriptor, the one
  it held is closed and nothing else changed; no descriptor leaks or is closed twice.\<close>

theorem listen_owns_descriptor:
  assumes "holds (ts_listen srv) rest n" and "fresh_fd (sc_socket c) n"
  shows "case tcp_listen c srv n of (ok, srv', n') \<Rightarrow>
    holds (ts_listen srv') rest n' \<and> n_bad_close n' = n_bad_close n \<and>
    (if ok then socket_valid (ts_listen srv') \<and> sk_fd (ts_listen srv') = sc_socket c
     else srv' = srv \<and> n' = n)"
proof -
  obtain ok srv' n' where run: "tcp_listen c srv n = (ok, srv', n')" by (metis prod_cases3)
  from setup_owns(1) [OF assms(2,1) run] have "setup_ok ok (sc_socket c) (ts_listen srv) n (ts_listen srv') n' rest" .
  moreover have "\<not> ok \<Longrightarrow> srv' = srv" using run by (auto simp: tcp_listen_def Let_def split: if_splits prod.splits)
  ultimately show ?thesis by (auto simp: run setup_ok_def)
qed

theorem listen_owns_descriptor_witness:
  "case tcp_listen \<lparr>sc_socket = 4, sc_bind = 0, sc_listen = 0, sc_accept = - 1, sc_pton = None,
        sc_connect = 0, sc_port = Some 9001\<rparr> \<lparr>ts_listen = \<lparr>sk_fd = 3\<rparr>, ts_port = 9000\<rparr>
      \<lparr>n_open = {0, 3}, n_bad_close = 0\<rparr> of (ok, srv', n') \<Rightarrow>
    holds (ts_listen srv') {0} n' \<and> n_bad_close n' = 0 \<and>
    (if ok then socket_valid (ts_listen srv') \<and> sk_fd (ts_listen srv') = 4
     else srv' = \<lparr>ts_listen = \<lparr>sk_fd = 3\<rparr>, ts_port = 9000\<rparr> \<and> n' = \<lparr>n_open = {0, 3}, n_bad_close = 0\<rparr>)"
proof -
  let ?srv = "\<lparr>ts_listen = \<lparr>sk_fd = 3\<rparr>, ts_port = 9000\<rparr>" and ?n = "\<lparr>n_open = {0, 3}, n_bad_close = 0\<rparr>"
  let ?c = "\<lparr>sc_socket = 4, sc_bind = 0, sc_listen = 0, sc_accept = - 1, sc_pton = None,
        sc_connect = 0, sc_port = Some 9001\<rparr>"
  have "holds (ts_listen ?srv) {0} ?n" "fresh_fd (sc_socket ?c) ?n"
    by (auto simp: holds_def fresh_fd_def)
  from listen_owns_descriptor [OF this] show ?thesis by (simp only: calls.select_convs net.select_convs)
qed

end
