(* ===== verification/App_Args.thy ===== *)
theory App_Args
  imports Doubles "HOL-Library.Sublist" "HOL-Library.Char_ord"
begin

text \<open>
  Model of \<^verbatim>\<open>src/apps/app_common.hpp\<close>: the flag parser of the command-line programs and
  \<open>parse_host_port\<close>. \<^verbatim>\<open>std::from_chars\<close> and \<^verbatim>\<open>std::stoul\<close> do what the standard says: the first
  reads digits only and leaves its target alone when there are none or they do not fit, the second
  skips blanks, takes a sign, wraps a negative number and throws otherwise. \<^verbatim>\<open>std::stod\<close> reads what
  \<^verbatim>\<open>strtod\<close> reads in the \<^verbatim>\<open>C\<close> locale, which the programs never leave: decimal and hexadecimal numbers,
  infinities and NaN; it throws when there is none, and when the number overflows or, as with
  glibc, is rounded to a subnormal.
\<close>

section \<open>Decimal numbers\<close>

definition is_digit :: "char \<Rightarrow> bool" where
  "is_digit c \<longleftrightarrow> 48 \<le> (of_char c :: nat) \<and> (of_char c :: nat) \<le> 57"

definition decimal_value :: "string \<Rightarrow> nat" where
  "decimal_value ds = foldl (\<lambda>v c. 10 * v + (of_char c - 48)) 0 ds"

definition from_chars :: "string \<Rightarrow> u64 \<Rightarrow> u64" where
  "from_chars s v =
     (let ds = takeWhile is_digit s
      in if ds = [] \<or> 2 ^ 64 \<le> decimal_value ds then v else of_nat (decimal_value ds))"

datatype arg_exception = InvalidArgument | OutOfRange

definition is_blank :: "char \<Rightarrow> bool" where
  "is_blank c \<longleftrightarrow> (of_char c :: nat) = 32 \<or> 9 \<le> (of_char c :: nat) \<and> (of_char c :: nat) \<le> 13"

definition stoul :: "string \<Rightarrow> arg_exception + u64" where
  "stoul s =
     (let s = dropWhile is_blank s;
          neg = (s \<noteq> [] \<and> hd s = CHR ''-'');
          s = (if s \<noteq> [] \<and> (hd s = CHR ''-'' \<or> hd s = CHR ''+'') then tl s else s);
          ds = takeWhile is_digit s;
          n = decimal_value ds
      in if ds = [] then Inl InvalidArgument
         else if 2 ^ 64 \<le> n then Inl OutOfRange
         else Inr (if neg then - of_nat n else of_nat n))"

section \<open>Floating-point numbers\<close>

definition to_lower :: "char \<Rightarrow> char" where
  "to_lower c = (if 65 \<le> (of_char c :: nat) \<and> (of_char c :: nat) \<le> 90 then char_of ((of_char c :: nat) + 32) else c)"

definition starts_with :: "string \<Rightarrow> string \<Rightarrow> bool" where
  "starts_with word s \<longleftrightarrow> prefix word (map to_lower s)"

definition is_hex_digit :: "char \<Rightarrow> bool" where
  "is_hex_digit c \<longleftrightarrow> is_digit c \<or> 97 \<le> (of_char (to_lower c) :: nat) \<and> (of_char (to_lower c) :: nat) \<le> 102"

definition digit_value :: "char \<Rightarrow> nat" where
  "digit_value c = (if is_digit c then of_char c - 48 else of_char (to_lower c) - 87)"

definition digits_value :: "nat \<Rightarrow> string \<Rightarrow> nat" where
  "digits_value base ds = foldl (\<lambda>v c. base * v + digit_value c) 0 ds"

text \<open>Digits with a point somewhere, and what follows.\<close>

definition split_digits :: "(char \<Rightarrow> bool) \<Rightarrow> string \<Rightarrow> string \<times> string \<times> string" where
  "split_digits dig s =
     (let whole = takeWhile dig s; rest = dropWhile dig s
      in if rest \<noteq> [] \<and> hd rest = CHR ''.''
         then (whole, takeWhile dig (tl rest), dropWhile dig (tl rest)) else (whole, [], rest))"

text \<open>An exponent behind its mark; without digits it is not part of the number.\<close>

definition exponent :: "char \<Rightarrow> string \<Rightarrow> int" where
  "exponent mark s =
     (if s = [] \<or> to_lower (hd s) \<noteq> mark then 0
      else
        let t = tl s; neg = (t \<noteq> [] \<and> hd t = CHR ''-'');
            t = (if t \<noteq> [] \<and> (hd t = CHR ''-'' \<or> hd t = CHR ''+'') then tl t else t);
            n = int (decimal_value (takeWhile is_digit t))
        in if neg then - n else n)"

definition magnitude :: "string \<Rightarrow> rat option" where
  "magnitude s =
     (let (whole, fraction, rest) = split_digits is_hex_digit (drop 2 s)
      in if starts_with ''0x'' s \<and> whole @ fraction \<noteq> [] then
           Some (of_nat (digits_value 16 (whole @ fraction)) / 16 ^ length fraction * 2 powi exponent CHR ''p'' rest)
         else
           let (whole, fraction, rest) = split_digits is_digit s
           in if whole @ fraction = [] then None
              else Some (of_nat (digits_value 10 (whole @ fraction)) / 10 ^ length fraction * 10 powi exponent CHR ''e'' rest))"

definition stod :: "string \<Rightarrow> arg_exception + f64" where
  "stod s =
     (let s = dropWhile is_blank s;
          neg = (s \<noteq> [] \<and> hd s = CHR ''-'');
          s = (if s \<noteq> [] \<and> (hd s = CHR ''-'' \<or> hd s = CHR ''+'') then tl s else s)
      in if starts_with ''inf'' s then Inr (Infinity neg)
         else if starts_with ''nan'' s then Inr NaN
         else
           case magnitude s of
             None \<Rightarrow> Inl InvalidArgument
           | Some x \<Rightarrow>
               (let x = (if neg then - x else x)
                in case round_f64 x of
                     Number y \<Rightarrow> if y \<noteq> x \<and> \<bar>y\<bar> < 2 powi (- 1022) then Inl OutOfRange else Inr (Number y)
                   | _ \<Rightarrow> Inl OutOfRange))"

section \<open>Flags\<close>

type_synonym args = "string \<rightharpoonup> string"

text \<open>The constructor's loop, over the arguments behind the program's name.\<close>

fun parse_args :: "string list \<Rightarrow> args \<Rightarrow> args" where
  "parse_args [] kv = kv"
| "parse_args [a] kv = (if prefix ''--'' a then kv(drop 2 a \<mapsto> '''') else kv)"
| "parse_args (a # b # rest) kv =
     (if prefix ''--'' a then
        if \<not> prefix ''--'' b then parse_args rest (kv(drop 2 a \<mapsto> b))
        else parse_args (b # rest) (kv(drop 2 a \<mapsto> ''''))
      else parse_args (b # rest) kv)"

definition args_has :: "string \<Rightarrow> args \<Rightarrow> bool" where
  "args_has k kv \<longleftrightarrow> kv k \<noteq> None"

definition args_str :: "string \<Rightarrow> string \<Rightarrow> args \<Rightarrow> string" where
  "args_str k def kv = (case kv k of None \<Rightarrow> def | Some v \<Rightarrow> v)"

definition args_u64 :: "string \<Rightarrow> u64 \<Rightarrow> args \<Rightarrow> u64" where
  "args_u64 k def kv =
     (case kv k of None \<Rightarrow> def | Some v \<Rightarrow> if v = [] then def else from_chars v def)"

definition args_f64 :: "string \<Rightarrow> f64 \<Rightarrow> args \<Rightarrow> f64" where
  "args_f64 k def kv =
     (case kv k of
        None \<Rightarrow> def
      | Some v \<Rightarrow> if v = [] then def else (case stod v of Inr d \<Rightarrow> d | Inl e \<Rightarrow> def))"

text \<open>\<open>None\<close> is the result \<^verbatim>\<open>false\<close>; an exception of \<^verbatim>\<open>stoul\<close> is not caught.\<close>

definition parse_host_port :: "string \<Rightarrow> arg_exception + (string \<times> u16) option" where
  "parse_host_port s =
     (if CHR '':'' \<notin> set s then Inr None
      else
        let port = rev (takeWhile (\<lambda>c. c \<noteq> CHR '':'') (rev s));
            host = take (length s - length port - 1) s
        in case stoul port of
             Inl e \<Rightarrow> Inl e
           | Inr n \<Rightarrow> Inr (Some (host, ucast n)))"

section \<open>Reading back\<close>

fun decimal :: "nat \<Rightarrow> string" where
  "decimal n = (if n < 10 then [] else decimal (n div 10)) @ [char_of (48 + n mod 10)]"

declare decimal.simps [simp del]

lemma of_char_digit: "(of_char (char_of (48 + n mod 10) :: char) :: nat) = 48 + n mod 10"
proof -
  have "48 + n mod 10 < 256" using mod_less_divisor [of 10 n] by linarith
  then show ?thesis by simp
qed

lemma decimal_digits: "list_all is_digit (decimal n) \<and> decimal n \<noteq> []"
proof (induction n rule: decimal.induct)
  case (1 n)
  have "n mod 10 < 10" by simp
  then have "is_digit (char_of (48 + n mod 10))" unfolding is_digit_def of_char_digit by linarith
  with 1 show ?case by (subst (1 2) decimal.simps) simp
qed

lemma decimal_value_decimal: "decimal_value (decimal n) = n"
proof (induction n rule: decimal.induct)
  case (1 n)
  then show ?case
    by (subst decimal.simps) (auto simp: decimal_value_def of_char_digit)
qed

lemma takeWhile_decimal: "takeWhile is_digit (decimal n) = decimal n"
  using decimal_digits [of n] by (simp add: list_all_iff)

lemma from_chars_decimal: "n < 2 ^ 64 \<Longrightarrow> from_chars (decimal n) v = of_nat n"
  using decimal_digits [of n] by (simp add: from_chars_def takeWhile_decimal decimal_value_decimal)

lemma stoul_decimal:
  assumes "n < 2 ^ 64"
  shows "stoul (decimal n) = Inr (of_nat n)"
proof -
  obtain c cs where c: "decimal n = c # cs" "is_digit c"
    using decimal_digits [of n] by (cases "decimal n") auto
  then have "\<not> is_blank c" "c \<noteq> CHR ''-''" "c \<noteq> CHR ''+''"
    by (auto simp: is_digit_def is_blank_def)
  moreover have all: "takeWhile is_digit cs = cs" using takeWhile_decimal [of n] c by simp
  ultimately show ?thesis
    using c assms decimal_value_decimal [of n] by (simp add: stoul_def Let_def all)
qed

lemma digits_value_decimal: "list_all is_digit ds \<Longrightarrow> digits_value 10 ds = decimal_value ds"
proof -
  have "foldl (\<lambda>v c. 10 * v + digit_value c) k ds = foldl (\<lambda>v c. 10 * v + (of_char c - 48)) k ds"
    if "list_all is_digit ds" for k
    using that by (induction ds arbitrary: k) (simp_all add: digit_value_def)
  then show "list_all is_digit ds \<Longrightarrow> digits_value 10 ds = decimal_value ds"
    by (simp add: digits_value_def decimal_value_def)
qed

text \<open>A whole number of at most 53 bits is read exactly.\<close>

lemma stod_decimal:
  assumes "n < 2 ^ 53"
  shows "stod (decimal n) = Inr (Number (of_nat n))"
proof -
  let ?s = "decimal n"
  from decimal_digits [of n] have digits: "list_all is_digit ?s" and "?s \<noteq> []" by simp_all
  then obtain c cs where c: "?s = c # cs" "is_digit c" "list_all is_digit cs" by (cases ?s) auto
  then have first: "\<not> is_blank c" "c \<noteq> CHR ''-''" "c \<noteq> CHR ''+''" "to_lower c = c"
    "c \<noteq> CHR ''i''" "c \<noteq> CHR ''n''"
    by (auto simp: is_digit_def is_blank_def to_lower_def)
  have not_hex: "\<not> starts_with ''0x'' ?s"
    using c(1,3) by (cases cs) (auto simp: starts_with_def to_lower_def is_digit_def)
  have "split_digits is_digit ?s = (?s, [], [])"
    using takeWhile_decimal [of n] by (simp add: split_digits_def Let_def dropWhile_eq_Nil_conv takeWhile_eq_all_conv)
  then have "magnitude ?s = Some (of_nat n)"
    using not_hex \<open>?s \<noteq> []\<close> digits
    by (simp add: magnitude_def digits_value_decimal decimal_value_decimal exponent_def split_beta)
  moreover have "\<not> starts_with ''inf'' ?s" "\<not> starts_with ''nan'' ?s"
    using c(1) first by (auto simp: starts_with_def)
  moreover have "round_f64 (of_nat n) = Number (of_nat n)"
    using f64_of_int_exact [of "int n"] assms by (simp add: f64_of_int_def)
  moreover have "dropWhile is_blank ?s = ?s" using c(1) first by simp
  ultimately show ?thesis using c(1) first by (simp add: stod_def)
qed

text \<open>A host and a port number written with a colon are read back; the port is cut to 16 bits.\<close>

lemma host_port_read:
  assumes "n < 2 ^ 64"
  shows "parse_host_port (host @ CHR '':'' # decimal n) = Inr (Some (host, of_nat n))"
proof -
  have "CHR '':'' \<notin> set (decimal n)"
    using decimal_digits [of n] by (auto simp: list_all_iff is_digit_def)
  then have "takeWhile (\<lambda>c. c \<noteq> CHR '':'') (rev (host @ CHR '':'' # decimal n)) = rev (decimal n)"
    using takeWhile_append2 [of "rev (decimal n)" "\<lambda>c. c \<noteq> CHR '':''" "CHR '':'' # rev host"]
    by fastforce
  moreover have narrow: "(ucast (of_nat n :: u64) :: u16) = of_nat n"
    by transfer (simp add: take_bit_take_bit)
  ultimately show ?thesis
    by (simp add: parse_host_port_def Let_def stoul_decimal [OF assms] narrow)
qed

text \<open>Flags with values are read back, the last one of a name wins.\<close>

lemma parse_args_flags:
  "list_all (\<lambda>(k, v). \<not> prefix ''--'' v) kvs \<Longrightarrow>
     parse_args (concat (map (\<lambda>(k, v). [''--'' @ k, v]) kvs)) kv = kv ++ map_of (rev kvs)"
proof (induction kvs arbitrary: kv)
  case (Cons e kvs)
  obtain k v where "e = (k, v)" by fastforce
  with Cons show ?case by simp
qed simp

lemma flag_u64_read:
  assumes "list_all (\<lambda>(k, v). \<not> prefix ''--'' v) kvs" and "map_of (rev kvs) k = Some (decimal n)" and "n < 2 ^ 64"
  shows "args_u64 k def (parse_args (concat (map (\<lambda>(k, v). [''--'' @ k, v]) kvs)) Map.empty) = of_nat n"
  using parse_args_flags [OF assms(1), of Map.empty] assms(2,3) decimal_digits [of n]
  by (simp add: args_u64_def from_chars_decimal)

end
