(* ===== verification/Feed_Apps.thy ===== *)
theory Feed_Apps
  imports Replay Capture Simulator_Feed Transport Sockets App_Args
begin

text \<open>
  The three command-line programs: \<open>main\<close> of \<^verbatim>\<open>src/apps/feedsim.cpp\<close>, \<^verbatim>\<open>feedhandler.cpp\<close> and
  \<^verbatim>\<open>replay_app.cpp\<close>, from the arguments to the exit code. What a program prints is a list of
  lines, one constructor per \<^verbatim>\<open>printf\<close> with the values it formats; the texts and the number
  formats are left out, as is the wall clock. The random engine, seeded by a flag, and the system
  calls are parameters. Objects with destructors give their descriptors and files back on every
  way out of \<open>main\<close>. \<open>None\<close> is a program that never ends, and an exception that nobody catches is
  an ending of its own.
\<close>

section \<open>The world of a program\<close>

text \<open>The files by their path, the open descriptors, the state of the peers behind the sockets.\<close>

record 'k world =
  w_files :: "string \<Rightarrow> disk"
  w_net :: net
  w_kernel :: 'k

text \<open>What the system calls return, by the arguments the programs pass on.\<close>

record 'k env =
  ev_listen :: "u16 \<Rightarrow> calls"
  ev_accept :: "int \<Rightarrow> calls"
  ev_udp_open :: "string \<Rightarrow> u16 \<Rightarrow> calls"
  ev_connect :: "string \<Rightarrow> u16 \<Rightarrow> calls"
  ev_bind :: "u16 \<Rightarrow> calls"
  ev_send :: "int \<Rightarrow> 'k send"
  ev_sendto :: "int \<Rightarrow> u32 \<Rightarrow> u16 \<Rightarrow> 'k \<Rightarrow> byte list \<Rightarrow> int \<times> 'k"
  ev_recv :: "int \<Rightarrow> 'k recv"
  ev_timeout :: "int \<Rightarrow> timeval \<Rightarrow> 'k \<Rightarrow> int \<times> 'k"
  ev_recvfrom :: "int \<Rightarrow> 'k recv"

record feed_summary =
  fs_forwarded :: u64
  fs_dropped :: u64
  fs_malformed :: u64
  fs_seq :: SeqStats
  fs_symbols :: nat
  fs_invariants :: bool
  fs_fingerprint :: u64

record top_line =
  tl_symbol :: SymbolId
  tl_bid :: "(f64 \<times> Quantity) option"
  tl_ask :: "(f64 \<times> Quantity) option"
  tl_bid_levels :: nat
  tl_ask_levels :: nat

datatype line =
    Usage
  | CannotOpenFile string
  | WroteMessages u64 string
  | ListenFailed
  | Listening u16
  | AcceptFailed
  | ClientConnected
  | Streamed u64 bool
  | BadHostPort
  | UdpOpenFailed
  | UdpFeedTo string u16
  | SentDatagrams u64
  | ConnectFailed
  | ConnectedTo string u16
  | BindFailed
  | ListeningUdp u16 int
  | Summary feed_summary
  | CannotReadCapture "capture_error option"
  | ReplayComplete ReplayResult nat bool u64
  | TopOfBook top_line

datatype ending = Exit nat | Uncaught arg_exception

type_synonym 'k outcome = "((ending \<times> line list \<times> 'k world) exec) option"

definition ends :: "nat \<Rightarrow> line list \<Rightarrow> 'k world \<Rightarrow> 'k outcome" where
  "ends code out w = Some (Inr (Exit code, out, w))"

section \<open>feedsim\<close>

definition feedsim_config :: "args \<Rightarrow> SimConfig" where
  "feedsim_config args = SimConfig_default
     \<lparr>sc_num_messages := args_u64 ''messages'' 1000000 args,
      sc_num_symbols := ucast (args_u64 ''symbols'' 4 args)\<rparr>"

text \<open>The callbacks given to \<^verbatim>\<open>sim.run\<close>: the results of \<^verbatim>\<open>write\<close> and of \<^verbatim>\<open>send\<close> are not looked at. A
  \<open>send_all\<close> that does not return leaves \<open>None\<close>.\<close>

definition file_sink ::
  "Sequence \<Rightarrow> TimestampNs \<Rightarrow> Body \<Rightarrow> CaptureWriter \<times> disk \<Rightarrow> (CaptureWriter \<times> disk) exec" where
  "file_sink seq ts body = (\<lambda>(w, d). ebind (cw_write seq ts body w d) (\<lambda>(ok, w, d). Inr (w, d)))"

definition encoded :: "Sequence \<Rightarrow> TimestampNs \<Rightarrow> Body \<Rightarrow> byte list exec" where
  "encoded seq ts body =
     ebind (encode_message (replicate kMaxMessageSize 0) seq ts body) (\<lambda>(buf, len). subspan buf 0 len)"

definition tcp_sink ::
  "'k send \<Rightarrow> Sequence \<Rightarrow> TimestampNs \<Rightarrow> Body \<Rightarrow> (bool \<times> u64 \<times> 'k) option \<Rightarrow>
     (bool \<times> u64 \<times> 'k) option exec" where
  "tcp_sink send seq ts body st = (case st of
       None \<Rightarrow> Inr None
     | Some (ok, n, k) \<Rightarrow>
         if \<not> ok then Inr (Some (ok, n, k))
         else ebind (encoded seq ts body) (\<lambda>bytes.
              Inr (map_option (\<lambda>(ok, k). (ok, n + 1, k)) (send_all send bytes k))))"

definition udp_sink ::
  "('k \<Rightarrow> byte list \<Rightarrow> int \<times> 'k) \<Rightarrow> Sequence \<Rightarrow> TimestampNs \<Rightarrow> Body \<Rightarrow> u64 \<times> 'k \<Rightarrow> (u64 \<times> 'k) exec" where
  "udp_sink sendto seq ts body = (\<lambda>(n, k).
     ebind (encoded seq ts body) (\<lambda>bytes. let (sent, k) = sendto k bytes in Inr (n + 1, k)))"

definition feedsim_file :: "string \<Rightarrow> MarketSimulator \<Rightarrow> 'k world \<Rightarrow> 'k outcome" where
  "feedsim_file out sim w =
     Some (ebind (cw_open CaptureWriter_init (w_files w out)) (\<lambda>(opened, wr, d).
       if \<not> opened then
         ebind (cw_close wr d) (\<lambda>(wr, d).
         Inr (Exit 1, [CannotOpenFile out], w\<lparr>w_files := (w_files w)(out := d)\<rparr>))
       else
         ebind (sim_run file_sink sim (wr, d)) (\<lambda>(sim, n, wr, d).
         ebind (cw_close wr d) (\<lambda>(wr, d).
         Inr (Exit 0, [WroteMessages n out], w\<lparr>w_files := (w_files w)(out := d)\<rparr>)))))"

definition feedsim_tcp :: "'k env \<Rightarrow> args \<Rightarrow> MarketSimulator \<Rightarrow> 'k world \<Rightarrow> 'k outcome" where
  "feedsim_tcp E args sim w =
     (let port = ucast (args_u64 ''tcp'' 0 args);
          (ok, srv, n) = tcp_listen (ev_listen E port) \<lparr>ts_listen = Socket_init, ts_port = 0\<rparr> (w_net w)
      in if \<not> ok then ends 1 [ListenFailed] (w\<lparr>w_net := give_up (ts_listen srv) n\<rparr>)
         else
           let (conn, n) = tcp_accept (ev_accept E (sk_fd (ts_listen srv))) n
           in case conn of
                None \<Rightarrow> ends 1 [Listening (ts_port srv), AcceptFailed] (w\<lparr>w_net := give_up (ts_listen srv) n\<rparr>)
              | Some c \<Rightarrow>
                  (case sim_run (tcp_sink (ev_send E (sk_fd c))) sim (Some (True, 0, w_kernel w)) of
                     Inl e \<Rightarrow> Some (Inl e)
                   | Inr (sim, _, None) \<Rightarrow> None
                   | Inr (sim, _, Some (ok, cnt, k)) \<Rightarrow>
                       ends (if ok then 0 else 1) [Listening (ts_port srv), ClientConnected, Streamed cnt ok]
                         (w\<lparr>w_net := give_up (ts_listen srv) (give_up c n), w_kernel := k\<rparr>)))"

definition feedsim_udp :: "'k env \<Rightarrow> args \<Rightarrow> MarketSimulator \<Rightarrow> 'k world \<Rightarrow> 'k outcome" where
  "feedsim_udp E args sim w =
     (case parse_host_port (args_str ''udp'' '''' args) of
        Inl e \<Rightarrow> Some (Inr (Uncaught e, [], w))
      | Inr None \<Rightarrow> ends 2 [BadHostPort] w
      | Inr (Some (host, port)) \<Rightarrow>
          (let (ok, us, n) = udp_open (ev_udp_open E host port) port
                 \<lparr>us_sock = Socket_init, us_dst_addr = 0, us_dst_port = 0\<rparr> (w_net w)
           in if \<not> ok then ends 1 [UdpOpenFailed] (w\<lparr>w_net := give_up (us_sock us) n\<rparr>)
              else Some (ebind (sim_run (udp_sink (ev_sendto E (sk_fd (us_sock us)) (us_dst_addr us)
                       (us_dst_port us))) sim (0, w_kernel w)) (\<lambda>(sim, _, cnt, k).
                     Inr (Exit 0, [UdpFeedTo host port, SentDatagrams cnt],
                       w\<lparr>w_net := give_up (us_sock us) n, w_kernel := k\<rparr>)))))"

definition feedsim :: "(u64 \<Rightarrow> tape) \<Rightarrow> 'k env \<Rightarrow> string list \<Rightarrow> 'k world \<Rightarrow> 'k outcome" where
  "feedsim engine E argv w =
     (let args = parse_args argv Map.empty; out = args_str ''out'' '''' args
      in if out = [] \<and> \<not> args_has ''tcp'' args \<and> \<not> args_has ''udp'' args then ends 2 [Usage] w
         else
           case MarketSimulator_init (feedsim_config args) (engine (args_u64 ''seed'' 42 args)) of
             Inl e \<Rightarrow> Some (Inl e)
           | Inr sim \<Rightarrow>
               if out \<noteq> [] then feedsim_file out sim w
               else if args_has ''tcp'' args then feedsim_tcp E args sim w
               else feedsim_udp E args sim w)"

section \<open>feedhandler\<close>

definition print_summary :: "BookBuilder FeedHandler \<Rightarrow> line exec" where
  "print_summary feed =
     ebind (check_all_invariants (bb_manager (down feed))) (\<lambda>ok.
     Inr (Summary \<lparr>fs_forwarded = forwarded feed, fs_dropped = dropped feed, fs_malformed = fh_malformed feed,
       fs_seq = stats (seq_tracker feed), fs_symbols = symbol_count (bb_manager (down feed)),
       fs_invariants = ok, fs_fingerprint = book_fingerprint (bb_manager (down feed))\<rparr>))"

text \<open>What follows a receive loop.\<close>

definition feed_ended ::
  "line list \<Rightarrow> 'k world \<Rightarrow> ((BookBuilder FeedHandler \<times> 'k) exec) option \<Rightarrow> 'k outcome" where
  "feed_ended out w r = map_option (\<lambda>r. ebind r (\<lambda>(feed, k). ebind (print_summary feed) (\<lambda>line.
     Inr (Exit 0, out @ [line], w\<lparr>w_kernel := k\<rparr>)))) r"

definition feedhandler :: "bool \<Rightarrow> 'k env \<Rightarrow> string list \<Rightarrow> 'k world \<Rightarrow> 'k outcome" where
  "feedhandler ndebug E argv w =
     (let args = parse_args argv Map.empty; feed = FeedHandler_init (BookBuilder_init ndebug)
      in if args_has ''tcp'' args then
           (case parse_host_port (args_str ''tcp'' '''' args) of
              Inl e \<Rightarrow> Some (Inr (Uncaught e, [], w))
            | Inr None \<Rightarrow> ends 2 [BadHostPort] w
            | Inr (Some (host, port)) \<Rightarrow>
                (let (ok, cl, n) = tcp_connect (ev_connect E host port) \<lparr>tc_sock = Socket_init\<rparr> (w_net w)
                 in if \<not> ok then ends 1 [ConnectFailed] (w\<lparr>w_net := give_up (tc_sock cl) n\<rparr>)
                    else feed_ended [ConnectedTo host port] (w\<lparr>w_net := give_up (tc_sock cl) n\<rparr>)
                      (tcp_loop (ev_recv E (sk_fd (tc_sock cl))) (bb_handler ndebug) feed (w_kernel w))))
         else if args_has ''udp'' args then
           (let port = ucast (args_u64 ''udp'' 0 args);
                idle_ms = sint (ucast (args_u64 ''idle-ms'' 2000 args) :: u32);
                (ok, rx, n) = udp_bind (ev_bind E port) \<lparr>ur_sock = Socket_init, ur_port = 0\<rparr> (w_net w)
            in if \<not> ok then ends 1 [BindFailed] (w\<lparr>w_net := give_up (ur_sock rx) n\<rparr>)
               else
                 let fd = sk_fd (ur_sock rx); (_, k) = set_recv_timeout_ms (ev_timeout E fd) idle_ms (w_kernel w)
                 in feed_ended [ListeningUdp (ur_port rx) idle_ms] (w\<lparr>w_net := give_up (ur_sock rx) n\<rparr>)
                      (udp_loop (ev_recvfrom E fd) (bb_handler ndebug) feed k))
         else ends 2 [Usage] w)"

section \<open>replay\<close>

definition replay_mode :: "string \<Rightarrow> ReplayMode" where
  "replay_mode mode = (if mode = ''realtime'' then Realtime else if mode = ''accel'' then Accelerated else MaxSpeed)"

definition top_line_of :: "SymbolId \<Rightarrow> OrderBook \<Rightarrow> top_line" where
  "top_line_of symbol bk =
     \<lparr>tl_symbol = symbol, tl_bid = map_option (\<lambda>v. (price_to_double (lv_price v), lv_quantity v)) (best_bid bk),
      tl_ask = map_option (\<lambda>v. (price_to_double (lv_price v), lv_quantity v)) (best_ask bk),
      tl_bid_levels = bid_levels bk, tl_ask_levels = ask_levels bk\<rparr>"

definition replay_config :: "args \<Rightarrow> ReplayConfig" where
  "replay_config args =
     \<lparr>rc_mode = replay_mode (args_str ''mode'' ''max'' args), rc_speed = args_f64 ''speed'' (Number 10) args\<rparr>"

text \<open>\<open>start_wall\<close> is the clock when the replay starts.\<close>

definition replay_app :: "bool \<Rightarrow> u64 \<Rightarrow> string list \<Rightarrow> 'k world \<Rightarrow> (ending \<times> line list \<times> 'k world) exec" where
  "replay_app ndebug start_wall argv w =
     (let args = parse_args argv Map.empty; path = args_str ''in'' '''' args
      in if path = [] then Inr (Exit 2, [Usage], w)
         else
           ebind (cr_open CaptureReader_init (w_files w path)) (\<lambda>(ok, reader).
           if \<not> ok then Inr (Exit 1, [CannotReadCapture (cr_error reader)], w)
           else
             ebind (replay (bb_handler ndebug) (replay_config args) start_wall (cr_bytes reader)
               (FeedHandler_init (BookBuilder_init ndebug))) (\<lambda>(feed, r).
             ebind (check_all_invariants (bb_manager (down feed))) (\<lambda>inv.
             Inr (Exit 0,
               for_each (\<lambda>symbol bk out. out @ [TopOfBook (top_line_of symbol bk)]) (bb_manager (down feed))
                 [ReplayComplete r (symbol_count (bb_manager (down feed))) inv
                   (book_fingerprint (bb_manager (down feed)))], w)))))"

lemma for_each_collect: "for_each (\<lambda>symbol bk out. out @ [g symbol bk]) m out = out @ map (\<lambda>(symbol, bk). g symbol bk) m"
  by (induction "\<lambda>symbol bk out. out @ [g symbol bk]" m out rule: for_each.induct) simp_all

section \<open>The simulator's messages at a sink\<close>

fun feed_sink :: "(Sequence \<Rightarrow> TimestampNs \<Rightarrow> Body \<Rightarrow> 's \<Rightarrow> 's exec) \<Rightarrow> message list \<Rightarrow> 's \<Rightarrow> 's exec" where
  "feed_sink sink [] st = Inr st"
| "feed_sink sink ((seq, ts, body) # msgs) st = ebind (sink seq ts body st) (feed_sink sink msgs)"

text \<open>A run hands its messages to whatever sink it is given.\<close>

lemma sim_run_loop_sink:
  "sim_run_loop record_message m k acc = Inr (m', k', acc') \<Longrightarrow>
    \<exists>msgs. acc' = acc @ msgs \<and> k' = k + of_nat (length msgs) \<and>
      (\<forall>(sink :: Sequence \<Rightarrow> TimestampNs \<Rightarrow> Body \<Rightarrow> 's \<Rightarrow> 's exec) st. sim_run_loop sink m k st = ebind (feed_sink sink msgs st) (\<lambda>st. Inr (m', k', st)))"
proof (induction "unat (sc_num_messages (sim_cfg m) - sim_produced m)" arbitrary: m k acc rule: less_induct)
  case less
  from less.prems obtain res m1 where next_m: "sim_next m = Inr (res, m1)"
    by (subst (asm) sim_run_loop.simps) (auto simp: ebind_eq_Inr_iff)
  show ?case
  proof (cases res)
    case None
    with less.prems next_m show ?thesis by (simp add: sim_run_loop.simps [of _ m])
  next
    case (Some out)
    from sim_next_progress [OF next_m [unfolded Some]]
    have fewer: "unat (sc_num_messages (sim_cfg m1) - sim_produced m1) < unat (sc_num_messages (sim_cfg m) - sim_produced m)"
      by (auto simp: diff_diff_eq [symmetric] unat_minus_one word_gt_0 unat_gt_0)
    have "sim_run_loop record_message m1 (k + 1) (acc @ [(gm_seq out, gm_ts out, gm_body out)]) =
        Inr (m', k', acc')"
      using less.prems next_m Some
      by (simp add: sim_run_loop.simps [of _ m] sim_dispatch_def record_message_def)
    from less.hyps [OF fewer this] obtain msgs where rest: "acc' = (acc @ [(gm_seq out, gm_ts out, gm_body out)]) @ msgs"
      "\<forall>sink :: Sequence \<Rightarrow> TimestampNs \<Rightarrow> Body \<Rightarrow> 's \<Rightarrow> 's exec. \<forall>st.
        sim_run_loop sink m1 (k + 1) st = ebind (feed_sink sink msgs st) (\<lambda>st. Inr (m', k', st))"
      "k' = k + 1 + of_nat (length msgs)" by auto
    have "sim_run_loop sink m k st = ebind (feed_sink sink ((gm_seq out, gm_ts out, gm_body out) # msgs) st)
        (\<lambda>st. Inr (m', k', st))" for sink :: "Sequence \<Rightarrow> TimestampNs \<Rightarrow> Body \<Rightarrow> 's \<Rightarrow> 's exec" and st
      using next_m Some rest(2)
      by (cases "sink (gm_seq out) (gm_ts out) (gm_body out) st")
        (simp_all add: sim_run_loop.simps [of _ m] sim_dispatch_def)
    with rest(1,3) show ?thesis by (intro exI [of _ "(gm_seq out, gm_ts out, gm_body out) # msgs"]) simp
  qed
qed

lemma simulate_sink:
  assumes "simulate cfg rng = Inr msgs"
  obtains m m' where "MarketSimulator_init cfg rng = Inr m"
    "\<And>(sink :: Sequence \<Rightarrow> TimestampNs \<Rightarrow> Body \<Rightarrow> 's \<Rightarrow> 's exec) st.
      sim_run sink m st = ebind (feed_sink sink msgs st) (\<lambda>st. Inr (m', of_nat (length msgs), st))"
proof -
  from assms obtain m m' k where m: "MarketSimulator_init cfg rng = Inr m"
    "sim_run_loop record_message m 0 [] = Inr (m', k, msgs)"
    by (auto simp: simulate_def sim_run_def ebind_eq_Inr_iff)
  from sim_run_loop_sink [OF m(2)] m(1) that show thesis by (auto simp: sim_run_def)
qed

section \<open>The captured file\<close>

text \<open>
  Whatever the room on the disk, the file holds the header, with the number of messages that
  fitted, and as much of the stream as fitted.
\<close>

lemma frame_bytes_not_Nil: "body_ok body \<Longrightarrow> frame_bytes seq ts body \<noteq> []"
  using length_frame_bytes [of body seq ts] by (auto simp: kHeaderWireSize_def)

lemma whole_0: "list_all message_ok msgs \<Longrightarrow> whole 0 msgs ms \<Longrightarrow> ms = []"
  by (cases ms) (auto simp: whole_def frame_bytes_not_Nil)

lemma whole_Cons_fits:
  "whole (n - length (message_bytes m)) msgs ms \<Longrightarrow> length (message_bytes m) \<le> n \<Longrightarrow>
     whole n (m # msgs) (m # ms)"
  by (auto simp: whole_def)

lemma whole_Cons_cut: "n < length (message_bytes m) \<Longrightarrow> whole n (m # msgs) []"
  by (auto simp: whole_def)

lemma file_sink_captures:
  assumes "list_all message_ok msgs" and "capturing w d bs" and "kCaptureHeaderSize + length bs \<le> d_limit d"
  shows "\<exists>w' d' ms. feed_sink file_sink msgs (w, d) = Inr (w', d') \<and>
    whole (d_limit d - kCaptureHeaderSize - length bs) msgs ms \<and>
    capturing w' d' (take (d_limit d - kCaptureHeaderSize) (bs @ wire msgs)) \<and>
    cw_count w' = cw_count w + of_nat (length ms) \<and> d_openable d' = d_openable d \<and> d_limit d' = d_limit d"
  using assms
proof (induction msgs arbitrary: w d bs)
  case Nil
  then show ?case by (auto simp: whole_def intro!: exI [of _ "[]"])
next
  case (Cons m msgs)
  obtain seq ts body where m: "m = (seq, ts, body)" by (cases m)
  let ?R = "d_limit d - kCaptureHeaderSize" and ?frame = "frame_bytes seq ts body"
  let ?bs = "bs @ take (?R - length bs) ?frame"
  from Cons.prems(1) have ok: "body_ok body" "list_all message_ok msgs" by (simp_all add: m)
  let ?fits = "kCaptureHeaderSize + length bs + length ?frame \<le> d_limit d"
  from cw_write_Inr [OF Cons.prems(2) ok(1), of seq ts] obtain w1 d1 where step:
    "cw_write seq ts body w d = Inr (?fits, w1, d1)" "capturing w1 d1 ?bs"
    "cw_count w1 = cw_count w + (if ?fits then 1 else 0)" "d_openable d1 = d_openable d" "d_limit d1 = d_limit d"
    by blast
  have bs: "?bs = take ?R (bs @ ?frame)" "kCaptureHeaderSize + length ?bs \<le> d_limit d1"
    using Cons.prems(3) step(5) by auto
  from Cons.IH [OF ok(2) step(2) bs(2)] obtain w' d' ms where rest:
    "feed_sink file_sink msgs (w1, d1) = Inr (w', d')"
    "whole (d_limit d1 - kCaptureHeaderSize - length ?bs) msgs ms"
    "capturing w' d' (take (d_limit d1 - kCaptureHeaderSize) (?bs @ wire msgs))"
    "cw_count w' = cw_count w1 + of_nat (length ms)" "d_openable d' = d_openable d1" "d_limit d' = d_limit d1"
    by blast
  have run: "feed_sink file_sink (m # msgs) (w, d) = Inr (w', d')"
    using rest(1) by (simp add: m file_sink_def step(1))
  show ?case
  proof (cases ?fits)
    case True
    then have all: "?bs = bs @ ?frame" by auto
    have "whole (?R - length bs) (m # msgs) (m # ms)"
      using rest(2) True by (intro whole_Cons_fits) (simp_all add: all step(5) m add.assoc)
    with run rest(3-6) step(3-5) True show ?thesis
      by (intro exI [of _ w'] exI [of _ d'] exI [of _ "m # ms"]) (simp add: all m)
  next
    case False
    then have full: "length ?bs = ?R" using Cons.prems(3) by auto
    then have "whole 0 msgs ms" using rest(2) step(5) by simp
    from whole_0 [OF ok(2) this] have "ms = []" .
    moreover have "whole (?R - length bs) (m # msgs) []"
      using False Cons.prems(3) by (intro whole_Cons_cut) (simp add: m)
    moreover have "take ?R (?bs @ wire msgs) = take ?R (bs @ wire (m # msgs))"
      using full bs(1) by (simp add: m)
    ultimately show ?thesis
      using run rest(3-6) step(3-5) False
      by (intro exI [of _ w'] exI [of _ d'] exI [of _ "[]"]) (simp del: take_append)
  qed
qed

lemma whole_unique:
  "whole n msgs ms \<Longrightarrow> whole n msgs ms' \<Longrightarrow> ms = ms'"
proof (induction msgs arbitrary: n ms ms')
  case (Cons m msgs)
  have head: "ks = [] \<and> n < length (message_bytes m) \<or>
      (\<exists>js. ks = m # js \<and> length (message_bytes m) \<le> n \<and> whole (n - length (message_bytes m)) msgs js)"
    if "whole n (m # msgs) ks" for ks
    using that by (cases ks) (auto simp: whole_def)
  from head [OF Cons.prems(1)] head [OF Cons.prems(2)] Cons.IH show ?case by auto
qed (auto simp: whole_def)

lemma whole_prefix_append: "whole n msgs ms \<Longrightarrow> \<exists>rest. msgs = ms @ rest"
  by (auto simp: whole_def)

lemma scan_whole:
  assumes "list_all message_ok msgs" and "whole n msgs ms"
  shows "\<exists>st. st \<noteq> AtBadHeader \<and> scan 0 (take n (wire msgs)) = (map message_item ms, length (wire ms), st)"
  using scan_prefix [OF assms(1), of n] whole_unique [OF assms(2)] by blast

section \<open>Clean replays\<close>

text \<open>The report of a replay of \<open>k\<close> messages of which none is lost, repeated or refused.\<close>

definition clean_report :: "nat \<Rightarrow> ReplayResult" where
  "clean_report k = \<lparr>rp_messages_parsed = of_nat k, rp_malformed = 0, rp_forwarded = of_nat k,
     rp_dropped = 0, rp_seq = SeqStats_init\<lparr>st_total := of_nat k, st_in_order := of_nat k\<rparr>\<rparr>"

lemma replay_contiguous:
  assumes "scan 0 bytes = (map message_item ms, c, st)" and "st \<noteq> AtBadHeader"
    and "map fst ms = map (\<lambda>i. s + of_nat i) [0..<length ms]" and "mode_ok start_wall cfg bytes"
  shows "\<exists>f. replay (bb_handler True) cfg start_wall bytes (FeedHandler_init (BookBuilder_init True)) =
      Inr (f, clean_report (length ms)) \<and>
    builder_rep (down f) (snd (ab_run (map message_item ms) Map.empty)) \<and>
    run_items (bb_handler True) (map message_item ms) (BookBuilder_init True) = Inr (down f)"
proof -
  from run_feed_contiguous [OF assms(3)] replay_scan [OF assms(1,2)] assms(4) show ?thesis
    by (auto simp: clean_report_def)
qed

lemma replay_scale:
  "pace_scale \<lparr>rc_mode = replay_mode mode, rc_speed = Number (of_nat v)\<rparr> =
     Number (if replay_mode mode = Accelerated \<and> 0 < v then of_nat v else 1)"
  by (simp add: pace_scale_def)

text \<open>A clean run leaves uncrossed books uncrossed, and so does every prefix of it.\<close>

lemma ab_run_clean_prefix:
  "ab_clean (xs @ ys) F \<Longrightarrow> ab_clean xs F"
  by (induction xs F rule: ab_clean.induct) (auto simp: Let_def split: prod.splits)

lemma ab_body_other: "body_symbol body \<noteq> Some symbol \<Longrightarrow> snd (ab_body body F) symbol = F symbol"
  by (cases body) (auto simp: ab_on_def Let_def split_beta)

lemma ab_run_uncrossed:
  "ab_clean is F \<Longrightarrow> \<forall>L \<in> ran F. \<not> ab_crossed L \<Longrightarrow> \<forall>L \<in> ran (snd (ab_run is F)). \<not> ab_crossed L"
proof (induction "is" F rule: ab_clean.induct)
  case (3 hdr body "is" F)
  obtain ok F1 where F1: "ab_body body F = (ok, F1)" by fastforce
  have "\<not> ab_crossed L" if "F1 symbol = Some L" for symbol L
  proof (cases "body_symbol body = Some symbol")
    case True
    with 3(2) F1 that show ?thesis by (auto simp: crossing_def)
  next
    case False
    with ab_body_other [OF False, of F] F1 that have "L \<in> ran F" by (auto intro: ranI)
    with 3(3) show ?thesis by blast
  qed
  then have "\<forall>L \<in> ran F1. \<not> ab_crossed L" by (auto simp: ran_def)
  with 3(1) [OF F1 [symmetric] refl] 3(2) F1 show ?case by (simp add: split_beta)
qed simp_all

section \<open>The configuration from the flags\<close>

lemma flags_config_ok:
  assumes "0 < s" and "s < 2 ^ 32" and "n * 500 < 2 ^ 32"
  shows "config_ok (SimConfig_default\<lparr>sc_num_messages := of_nat n, sc_num_symbols := of_nat s\<rparr>)"
proof -
  have n: "unat (of_nat n :: u64) = n" using assms(3) by (simp add: unsigned_of_nat take_bit_nat_eq_self)
  have s: "unat (of_nat s :: u32) = s" using assms(2) by (simp add: unsigned_of_nat take_bit_nat_eq_self)
  have "0 < (of_nat s :: u32)" using assms(1) s by (simp add: word_gt_0) (metis neq0_conv unsigned_0)
  with assms n s show ?thesis
    by (auto simp: config_ok_def SimConfig_default_def tick_int_def band_span_def price_bound_def
        last_mid_def weights_fit_def kPriceScale_def)
qed

definition flags :: "(string \<times> string) list \<Rightarrow> string list" where
  "flags kvs = concat (map (\<lambda>(k, v). [''--'' @ k, v]) kvs)"

lemma decimal_not_flag: "\<not> prefix ''--'' (decimal n)"
  using decimal_digits [of n] by (cases "decimal n") (auto simp: is_digit_def)

lemma simulator_flags:
  assumes "n < 2 ^ 64" and "s < 2 ^ 32" and "x < 2 ^ 64" and "\<not> prefix ''--'' v"
    and "k \<notin> {''messages'', ''symbols'', ''seed''}"
  defines "args \<equiv> parse_args (flags [(''messages'', decimal n), (''symbols'', decimal s),
    (''seed'', decimal x), (k, v)]) Map.empty"
  shows "feedsim_config args =
      SimConfig_default\<lparr>sc_num_messages := of_nat n, sc_num_symbols := of_nat s\<rparr>"
    and "args_u64 ''seed'' 42 args = of_nat x" and "args k = Some v"
    and "j \<notin> {''messages'', ''symbols'', ''seed'', k} \<Longrightarrow> args j = None"
proof -
  let ?kvs = "[(''messages'', decimal n), (''symbols'', decimal s), (''seed'', decimal x), (k, v)]"
  have "list_all (\<lambda>(k, v). \<not> prefix ''--'' v) ?kvs" using decimal_not_flag assms(4) by simp
  from parse_args_flags [OF this, of Map.empty] have args: "args = map_of (rev ?kvs)"
    by (simp add: args_def flags_def)
  have kv: "args ''messages'' = Some (decimal n)" "args ''symbols'' = Some (decimal s)"
    "args ''seed'' = Some (decimal x)" "args k = Some v" using assms(5) by (auto simp: args)
  have some: "decimal m \<noteq> []" for m using decimal_digits [of m] by simp
  have "s < 2 ^ 64" using assms(2) by simp
  from from_chars_decimal [OF this] have "(ucast (from_chars (decimal s) v) :: u32) = of_nat s" for v
    by simp (transfer, simp add: take_bit_take_bit)
  with kv some from_chars_decimal [OF assms(1)] show "feedsim_config args =
      SimConfig_default\<lparr>sc_num_messages := of_nat n, sc_num_symbols := of_nat s\<rparr>"
    by (simp add: feedsim_config_def args_u64_def)
  show "args_u64 ''seed'' 42 args = of_nat x"
    using kv some from_chars_decimal [OF assms(3)] by (simp add: args_u64_def)
  show "args k = Some v" by (rule kv)
  show "j \<notin> {''messages'', ''symbols'', ''seed'', k} \<Longrightarrow> args j = None" by (auto simp: args)
qed

lemma feedsim_file_run:
  assumes "simulate (feedsim_config args) rng = Inr msgs" and "MarketSimulator_init (feedsim_config args) rng = Inr sim"
    and "list_all message_ok msgs" and "d_openable (w_files w out)"
    and "kCaptureHeaderSize \<le> d_limit (w_files w out)"
  shows "\<exists>ms d. whole (d_limit (w_files w out) - kCaptureHeaderSize) msgs ms \<and>
    feedsim_file out sim w =
      Some (Inr (Exit 0, [WroteMessages (of_nat (length msgs)) out], w\<lparr>w_files := (w_files w)(out := d)\<rparr>)) \<and>
    (\<forall>r. cr_open r d = Inr (True, \<lparr>cr_bytes = take (d_limit (w_files w out) - kCaptureHeaderSize) (wire msgs),
      cr_count = of_nat (length ms), cr_valid = True, cr_error = None\<rparr>))"
proof -
  let ?d = "w_files w out" and ?w = "\<lparr>cw_file = Some kCaptureHeaderSize, cw_count = 0\<rparr>"
  from simulate_sink [OF assms(1)] obtain m m' where m: "MarketSimulator_init (feedsim_config args) rng = Inr m"
    "\<And>(sink :: Sequence \<Rightarrow> TimestampNs \<Rightarrow> Body \<Rightarrow> CaptureWriter \<times> disk \<Rightarrow> (CaptureWriter \<times> disk) exec) st.
      sim_run sink m st = ebind (feed_sink sink msgs st) (\<lambda>st. Inr (m', of_nat (length msgs), st))" by metis
  from m(1) assms(2) have sim: "sim = m" by simp
  from cw_open_Inr [OF assms(4,5)] obtain d0 where start:
    "cw_open CaptureWriter_init ?d = Inr (True, ?w, d0)" "capturing ?w d0 []"
    "d_openable d0 = d_openable ?d" "d_limit d0 = d_limit ?d" by auto
  from file_sink_captures [OF assms(3) start(2)] start(4) assms(5) obtain w1 d1 ms where run:
    "feed_sink file_sink msgs (?w, d0) = Inr (w1, d1)" "whole (d_limit ?d - kCaptureHeaderSize) msgs ms"
    "capturing w1 d1 (take (d_limit ?d - kCaptureHeaderSize) (wire msgs))"
    "cw_count w1 = of_nat (length ms)" "d_openable d1 = d_openable d0"
    by auto
  let ?d1 = "d1\<lparr>d_content := Some (header_bytes_of (of_nat (length ms)) @
    take (d_limit ?d - kCaptureHeaderSize) (wire msgs))\<rparr>"
  have "feedsim_file out sim w =
      Some (Inr (Exit 0, [WroteMessages (of_nat (length msgs)) out], w\<lparr>w_files := (w_files w)(out := ?d1)\<rparr>))"
    using start(1) run(1,4) cw_close_Inr [OF run(3)] m(2) by (simp add: feedsim_file_def sim)
  moreover have "cr_open r ?d1 = Inr (True, \<lparr>cr_bytes = take (d_limit ?d - kCaptureHeaderSize) (wire msgs),
      cr_count = of_nat (length ms), cr_valid = True, cr_error = None\<rparr>)" for r
    using assms(4) start(3) run(5)
    by (simp add: cr_open_Inr header_bytes_of_def kCaptureMagic_def kCaptureHeaderSize_def)
  ultimately show ?thesis using run(2) by blast
qed

lemma uint_of_nat_le: "uint (of_nat k :: u64) \<le> int k"
  using take_bit_nat_less_eq_self [of 64 k] by (simp add: unsigned_of_nat)

text \<open>What the simulator of the flags generates, and the books of any beginning of it.\<close>

lemma flags_feed:
  assumes "0 < s" and "s < 2 ^ 32" and "n * 500 < 2 ^ 32"
  shows "\<exists>msgs. simulate (SimConfig_default\<lparr>sc_num_messages := of_nat n, sc_num_symbols := of_nat s\<rparr>) rng = Inr msgs \<and>
    length msgs = n \<and> list_all message_ok msgs \<and>
    (\<forall>ms rest. msgs = ms @ rest \<longrightarrow> map fst ms = map (\<lambda>i. 1 + of_nat i) [0..<length ms] \<and>
      (\<forall>m \<in> set ms. uint (fst (snd m) - fst (snd (hd ms))) \<le> 2 ^ 62) \<and>
      (\<forall>L \<in> ran (snd (ab_run (map message_item ms) Map.empty)). \<not> ab_crossed L))"
proof -
  let ?cfg = "SimConfig_default\<lparr>sc_num_messages := of_nat n, sc_num_symbols := of_nat s\<rparr>"
  have n: "unat (sc_num_messages ?cfg) = n" using assms(3) by (simp add: unsigned_of_nat take_bit_nat_eq_self)
  from simulate_ok [OF flags_config_ok [OF assms], of rng] n obtain msgs where msgs: "simulate ?cfg rng = Inr msgs"
    "length msgs = n" "list_all message_ok msgs" "\<forall>i < length msgs. stamped ?cfg i (msgs ! i)"
    "ab_clean (map message_item msgs) Map.empty" by auto
  have "map fst ms = map (\<lambda>i. 1 + of_nat i) [0..<length ms] \<and>
      (\<forall>m \<in> set ms. uint (fst (snd m) - fst (snd (hd ms))) \<le> 2 ^ 62) \<and>
      (\<forall>L \<in> ran (snd (ab_run (map message_item ms) Map.empty)). \<not> ab_crossed L)" if "msgs = ms @ rest" for ms rest
  proof (intro conjI)
    have stamps: "stamped ?cfg i (ms ! i)" if "i < length ms" for i
      using msgs(4) [rule_format, of i] that by (simp add: \<open>msgs = ms @ rest\<close> nth_append)
    then have "\<forall>i < length ms. stamped ?cfg i (ms ! i)" by (intro allI impI)
    from stamped_numbers [OF refl this] show "map fst ms = map (\<lambda>i. 1 + of_nat i) [0..<length ms]"
      by (rule conjunct1)
    show "\<forall>m \<in> set ms. uint (fst (snd m) - fst (snd (hd ms))) \<le> 2 ^ 62"
    proof
      fix m assume "m \<in> set ms"
      then obtain i where i: "i < length ms" "m = ms ! i" by (auto simp: in_set_conv_nth)
      from stamps [OF i(1)] stamps [of 0] i have "fst (snd m) - fst (snd (hd ms)) = of_nat (i * 1000)"
        by (cases ms) (auto simp: stamped_def SimConfig_default_def)
      moreover have "uint (of_nat (i * 1000) :: u64) \<le> int (i * 1000)"
        by (rule uint_of_nat_le)
      moreover have "i * 1000 \<le> 2 ^ 62" using i(1) msgs(2) that assms(3) by simp
      ultimately show "uint (fst (snd m) - fst (snd (hd ms))) \<le> 2 ^ 62" by simp
    qed
    from msgs(5) have "ab_clean (map message_item ms @ map message_item rest) Map.empty"
      unfolding that map_append .
    from ab_run_uncrossed [OF ab_run_clean_prefix [OF this]]
    show "\<forall>L \<in> ran (snd (ab_run (map message_item ms) Map.empty)). \<not> ab_crossed L" by simp
  qed
  then have "\<forall>ms rest. msgs = ms @ rest \<longrightarrow> map fst ms = map (\<lambda>i. 1 + of_nat i) [0..<length ms] \<and>
      (\<forall>m \<in> set ms. uint (fst (snd m) - fst (snd (hd ms))) \<le> 2 ^ 62) \<and>
      (\<forall>L \<in> ran (snd (ab_run (map message_item ms) Map.empty)). \<not> ab_crossed L)" by blast
  with msgs(1-3) show ?thesis by (intro exI [of _ msgs] conjI)
qed

section \<open>Streaming\<close>

lemma tcp_sink_simps:
  "tcp_sink send seq ts body None = Inr None"
  "tcp_sink send seq ts body (Some (False, n, k)) = Inr (Some (False, n, k))"
  "body_ok body \<Longrightarrow> tcp_sink send seq ts body (Some (True, n, k)) =
     Inr (map_option (\<lambda>(ok, k). (ok, n + 1, k)) (send_all send (frame_bytes seq ts body) k))"
  using encoded_message [of body seq ts] by (simp_all add: tcp_sink_def encoded_def)

lemma tcp_sink_stuck: "feed_sink (tcp_sink send) msgs None = Inr None"
  by (induction msgs) (auto simp: tcp_sink_simps)

lemma tcp_sink_stream:
  "list_all message_ok msgs \<Longrightarrow> feed_sink (tcp_sink send) msgs (Some (ok, n, k)) =
     (case stream_feed send msgs ok n k of
        None \<Rightarrow> Inr None
      | Some (Inl e) \<Rightarrow> Inl e
      | Some (Inr st) \<Rightarrow> Inr (Some st))"
proof (induction msgs arbitrary: ok n k)
  case (Cons m msgs)
  obtain seq ts body where m: "m = (seq, ts, body)" by (cases m)
  with Cons.prems have ok: "body_ok body" "list_all message_ok msgs" by simp_all
  show ?case
  proof (cases ok)
    case True
    then show ?thesis
      using Cons.IH [OF ok(2)] encoded_message [OF ok(1), of seq ts]
      by (cases "send_all send (message_bytes m) k")
        (auto simp: m tcp_sink_simps ok(1) tcp_sink_stuck)
  next
    case False
    with Cons.IH [OF ok(2), of False n k] show ?thesis by (simp add: m tcp_sink_simps)
  qed
qed simp

text \<open>A \<open>feedsim --tcp\<close> that ends with code 0 has sent everything.\<close>

lemma feedsim_tcp_sent:
  assumes "simulate (feedsim_config args) rng = Inr msgs" and "MarketSimulator_init (feedsim_config args) rng = Inr sim"
    and "list_all message_ok msgs" and "feedsim_tcp E args sim w = Some (Inr (Exit 0, out, w'))"
    and "\<And>fd. send_contract (ev_send E fd) sent"
  shows "\<exists>port. out = [Listening port, ClientConnected, Streamed (of_nat (length msgs)) True] \<and>
    sent (w_kernel w') = sent (w_kernel w) @ wire msgs"
proof -
  from simulate_sink [OF assms(1)] obtain m m' where m: "MarketSimulator_init (feedsim_config args) rng = Inr m"
    "\<And>(sink :: Sequence \<Rightarrow> TimestampNs \<Rightarrow> Body \<Rightarrow> (bool \<times> u64 \<times> 'a) option \<Rightarrow> (bool \<times> u64 \<times> 'a) option exec) st.
      sim_run sink m st = ebind (feed_sink sink msgs st) (\<lambda>st. Inr (m', of_nat (length msgs), st))" by metis
  from m(1) assms(2) have sim: "sim = m" by simp
  from assms(4) obtain fd port ok n k where run: "ok" "w_kernel w' = k"
    "out = [Listening port, ClientConnected, Streamed n ok]"
    "feed_sink (tcp_sink (ev_send E fd)) msgs (Some (True, 0, w_kernel w)) = Inr (Some (ok, n, k))"
    by (auto simp: feedsim_tcp_def sim m(2) ends_def Let_def ebind_eq_Inr_iff
        split: prod.splits option.splits sum.splits if_splits)
  from run(4) have "stream_feed (ev_send E fd) msgs True 0 (w_kernel w) = Some (Inr (ok, n, k))"
    by (simp add: tcp_sink_stream [OF assms(3)] split: option.splits sum.splits)
  from stream_feed_sends [OF assms(5,3) this] run(1) have "n = of_nat (length msgs)"
    "\<exists>j. sent k = sent (w_kernel w) @ take j (wire msgs) \<and> length (wire msgs) \<le> j" by auto
  with run(1-3) show ?thesis by auto
qed

lemma consume_all_contiguous:
  assumes "list_all message_ok ms" and "concat segs = wire ms"
    and "map fst ms = map (\<lambda>i. s + of_nat i) [0..<length ms]"
  shows "\<exists>f. consume_all (bb_handler True) segs (FeedHandler_init (BookBuilder_init True)) = Inr f \<and>
    fh_malformed f = 0 \<and> forwarded f = of_nat (length ms) \<and> dropped f = 0 \<and>
    stats (seq_tracker f) = SeqStats_init\<lparr>st_total := of_nat (length ms), st_in_order := of_nat (length ms)\<rparr> \<and>
    builder_rep (down f) (snd (ab_run (map message_item ms) Map.empty)) \<and>
    run_items (bb_handler True) (map message_item ms) (BookBuilder_init True) = Inr (down f)"
proof -
  let ?f = "FeedHandler_init (BookBuilder_init True)"
  have "consume_all (bb_handler True) segs ?f =
      ebind (run_items (fh_handler (bb_handler True)) (map message_item ms) ?f) (\<lambda>f'.
        Inr (with_buffer [] 0 f'))"
    using builder.consume_all_eq [of ?f segs "map message_item ms" "length (wire ms)" AtEnd True]
      scan_wire_end [OF assms(1)] assms(2) by simp
  with run_feed_contiguous [OF assms(3)] show ?thesis by auto
qed

text \<open>\<open>feedsim --udp\<close> does not look at the result of a send: it reports every datagram as sent, and
  ends with code 0, also when all sends fail.\<close>

lemma udp_sink_counts:
  "list_all message_ok msgs \<Longrightarrow> \<exists>k'. feed_sink (udp_sink sendto) msgs (n, k) = Inr (n + of_nat (length msgs), k')"
proof (induction msgs arbitrary: n k)
  case (Cons m msgs)
  obtain seq ts body where m: "m = (seq, ts, body)" by (cases m)
  from Cons.prems have ok: "body_ok body" "list_all message_ok msgs" by (simp_all add: m)
  from encoded_message [OF ok(1), of seq ts] Cons.IH [OF ok(2), of "n + 1"] show ?case
    by (simp add: m udp_sink_def encoded_def Let_def split_beta add.assoc)
qed simp

lemma feedsim_udp_reports_all:
  assumes "simulate (feedsim_config args) rng = Inr msgs" and "MarketSimulator_init (feedsim_config args) rng = Inr sim"
    and "list_all message_ok msgs" and "parse_host_port (args_str ''udp'' '''' args) = Inr (Some (host, port))"
    and "0 \<le> sc_socket (ev_udp_open E host port)" and "sc_pton (ev_udp_open E host port) = Some a"
  shows "\<exists>w'. feedsim_udp E args sim w =
    Some (Inr (Exit 0, [UdpFeedTo host port, SentDatagrams (of_nat (length msgs))], w'))"
proof -
  from simulate_sink [OF assms(1)] obtain m m' where m: "MarketSimulator_init (feedsim_config args) rng = Inr m"
    "\<And>(sink :: Sequence \<Rightarrow> TimestampNs \<Rightarrow> Body \<Rightarrow> u64 \<times> 'a \<Rightarrow> (u64 \<times> 'a) exec) st.
      sim_run sink m st = ebind (feed_sink sink msgs st) (\<lambda>st. Inr (m', of_nat (length msgs), st))" by metis
  from m(1) assms(2) have sim: "sim = m" by simp
  obtain ok us n where open_us: "udp_open (ev_udp_open E host port) port
      \<lparr>us_sock = Socket_init, us_dst_addr = 0, us_dst_port = 0\<rparr> (w_net w) = (ok, us, n)" by (metis prod_cases3)
  with assms(5,6) have ok by (auto simp: udp_open_def Let_def split: prod.splits)
  with udp_sink_counts [OF assms(3), of "ev_sendto E (sk_fd (us_sock us)) (us_dst_addr us) (us_dst_port us)" 0 "w_kernel w"]
    open_us assms(4) m(2) show ?thesis
    by (auto simp: feedsim_udp_def sim)
qed

section \<open>Properties\<close>

text \<open>C17. Record and replay in a release build, from the command lines on: \<open>feedsim\<close> with at least one
  symbol, fewer than \<open>2 ^ 32\<close> of them, \<open>n\<close> messages with \<open>n * 500 < 2 ^ 32\<close> (so that no level's total
  overflows), any seed, and any disk that opens the file and has room for its 24-byte header ends
  with code 0 and reports all messages as written; \<open>replay\<close> of the file, in any mode and at any
  whole speed from 1 to below \<open>2 ^ 53\<close>, ends with code 0 without undefined behaviour in its clock
  arithmetic and reports exactly the messages that fitted, all in order, none malformed, lost or
  dropped, the fingerprint and top of the books that these messages define, and no crossed book. The
  clock may be anything from its epoch up to 73 years after it (\<open>2 ^ 61\<close> nanoseconds); the path is not
  empty, and neither it nor the mode starts with two dashes, which would make it a flag.\<close>

theorem feedsim_then_replay:
  assumes "0 < s" and "s < 2 ^ 32" and "n * 500 < 2 ^ 32" and "x < 2 ^ 64"
    and "path \<noteq> []" and "\<not> prefix ''--'' path" and "\<not> prefix ''--'' mode"
    and "d_openable (w_files w path)" and "kCaptureHeaderSize \<le> d_limit (w_files w path)"
    and "1 \<le> v" and "v < 2 ^ 53" and "0 \<le> sint start_wall" and "sint start_wall \<le> 2 ^ 61"
  shows "\<exists>msgs ms bb w'.
    simulate (SimConfig_default\<lparr>sc_num_messages := of_nat n, sc_num_symbols := of_nat s\<rparr>) (engine (of_nat x)) = Inr msgs \<and>
    length msgs = n \<and> whole (d_limit (w_files w path) - kCaptureHeaderSize) msgs ms \<and>
    feedsim engine E (flags [(''messages'', decimal n), (''symbols'', decimal s), (''seed'', decimal x), (''out'', path)]) w =
      Some (Inr (Exit 0, [WroteMessages (of_nat n) path], w')) \<and>
    run_items (bb_handler True) (map message_item ms) (BookBuilder_init True) = Inr bb \<and>
    replay_app True start_wall (flags [(''in'', path), (''mode'', mode), (''speed'', decimal v)]) w' =
      Inr (Exit 0, ReplayComplete (clean_report (length ms)) (symbol_count (bb_manager bb)) True
          (book_fingerprint (bb_manager bb)) #
        map (\<lambda>(symbol, bk). TopOfBook (top_line_of symbol bk)) (bb_manager bb), w')"
proof -
  let ?kvs = "[(''messages'', decimal n), (''symbols'', decimal s), (''seed'', decimal x), (''out'', path)]"
  let ?args = "parse_args (flags ?kvs) Map.empty" and ?room = "d_limit (w_files w path) - kCaptureHeaderSize"
  from assms(3) have "n < 2 ^ 64" by simp
  note args = simulator_flags [OF this assms(2,4,6), of "''out''", simplified]
  from flags_feed [OF assms(1-3), of "engine (of_nat x)"] obtain msgs where msgs:
    "simulate (feedsim_config ?args) (engine (of_nat x)) = Inr msgs" "length msgs = n" "list_all message_ok msgs"
    "\<And>ms rest. msgs = ms @ rest \<Longrightarrow> map fst ms = map (\<lambda>i. 1 + of_nat i) [0..<length ms] \<and>
      (\<forall>m \<in> set ms. uint (fst (snd m) - fst (snd (hd ms))) \<le> 2 ^ 62) \<and>
      (\<forall>L \<in> ran (snd (ab_run (map message_item ms) Map.empty)). \<not> ab_crossed L)" unfolding args(1) by blast
  from simulate_sink [OF msgs(1)] obtain sim where sim:
    "MarketSimulator_init (feedsim_config ?args) (engine (of_nat x)) = Inr sim" by metis
  from feedsim_file_run [OF msgs(1) sim msgs(3) assms(8,9)] obtain ms d where run: "whole ?room msgs ms"
    "feedsim_file path sim w = Some (Inr (Exit 0, [WroteMessages (of_nat n) path], w\<lparr>w_files := (w_files w)(path := d)\<rparr>))"
    "\<And>r. cr_open r d = Inr (True, \<lparr>cr_bytes = take ?room (wire msgs), cr_count = of_nat (length ms),
      cr_valid = True, cr_error = None\<rparr>)" unfolding msgs(2) by blast
  let ?w = "w\<lparr>w_files := (w_files w)(path := d)\<rparr>"
  have sim_run: "feedsim engine E (flags ?kvs) w = Some (Inr (Exit 0, [WroteMessages (of_nat n) path], ?w))"
    using args(2,3) sim run(2) assms(5) by (simp add: feedsim_def args_str_def)
  from whole_prefix_append [OF run(1)] obtain rest where rest: "msgs = ms @ rest" by blast
  from scan_whole [OF msgs(3) run(1)] obtain st where
    scan: "scan 0 (take ?room (wire msgs)) = (map message_item ms, length (wire ms), st)" "st \<noteq> AtBadHeader" by blast
  let ?cfg = "\<lparr>rc_mode = replay_mode mode, rc_speed = Number (of_nat v)\<rparr>"
  have ok: "mode_ok start_wall ?cfg (take ?room (wire msgs))"
    using msgs(4) [OF rest] assms(10,12,13) replay_scale [of mode v]
    by (intro paced_capture [OF scan(1)]) (auto split: if_splits)
  from replay_contiguous [OF scan _ ok, of 1] msgs(4) [OF rest] obtain f where f:
    "replay (bb_handler True) ?cfg start_wall (take ?room (wire msgs)) (FeedHandler_init (BookBuilder_init True)) =
      Inr (f, clean_report (length ms))"
    "builder_rep (down f) (snd (ab_run (map message_item ms) Map.empty))"
    "run_items (bb_handler True) (map message_item ms) (BookBuilder_init True) = Inr (down f)" by blast
  have inv: "check_all_invariants (bb_manager (down f)) = Inr True"
    using books_uncrossed [OF f(2)] msgs(4) [OF rest] by simp
  have "parse_args (flags [(''in'', path), (''mode'', mode), (''speed'', decimal v)]) Map.empty =
      [''in'' \<mapsto> path, ''mode'' \<mapsto> mode, ''speed'' \<mapsto> decimal v]"
    using parse_args_flags [of "[(''in'', path), (''mode'', mode), (''speed'', decimal v)]" Map.empty] assms(6,7)
      decimal_not_flag by (simp add: flags_def fun_upd_twist)
  moreover have "replay_config [''in'' \<mapsto> path, ''mode'' \<mapsto> mode, ''speed'' \<mapsto> decimal v] = ?cfg"
    using stod_decimal [OF assms(11)] decimal_digits [of v]
    by (simp add: replay_config_def args_str_def args_f64_def)
  ultimately have "replay_app True start_wall (flags [(''in'', path), (''mode'', mode), (''speed'', decimal v)]) ?w =
      Inr (Exit 0, ReplayComplete (clean_report (length ms)) (symbol_count (bb_manager (down f))) True
          (book_fingerprint (bb_manager (down f))) #
        map (\<lambda>(symbol, bk). TopOfBook (top_line_of symbol bk)) (bb_manager (down f)), ?w)"
    using assms(5) run(3) f(1) inv by (simp add: replay_app_def args_str_def Let_def for_each_collect)
  with msgs(1,2) run(1) sim_run f(3) show ?thesis unfolding args(1) by blast
qed

text \<open>C36. Live streaming to a release build, from the command lines on: when \<open>feedsim --tcp\<close>, with at least
  one symbol, fewer than \<open>2 ^ 32\<close> of them, and \<open>n\<close> messages with \<open>n * 500 < 2 ^ 32\<close>, ends with code 0,
  whatever partial writes and interruptions that POSIX allows its sends met, and its bytes reach a
  connected \<open>feedhandler --tcp\<close> in chunks of any size before the connection closes, the feed handler
  ends with code 0 and reports all messages as forwarded, all in order, none dropped or malformed, the
  fingerprint of the books they define, and no crossed book.\<close>

theorem feedsim_to_feedhandler:
  assumes "0 < s" and "s < 2 ^ 32" and "n * 500 < 2 ^ 32" and "x < 2 ^ 64"
    and "\<And>fd. send_contract (ev_send E fd) sent"
    and "feedsim engine E (flags [(''messages'', decimal n), (''symbols'', decimal s), (''seed'', decimal x),
      (''tcp'', decimal p)]) w = Some (Inr (Exit 0, out, w'))"
    and "\<not> prefix ''--'' host" and "q < 2 ^ 16"
    and "0 \<le> sc_socket (ev_connect E' host (of_nat q))" and "sc_pton (ev_connect E' host (of_nat q)) \<noteq> None"
    and "sc_connect (ev_connect E' host (of_nat q)) = 0"
    and "delivers (recv_some (ev_recv E' (sc_socket (ev_connect E' host (of_nat q))))) (w_kernel v) segs k"
    and "sent (w_kernel w') = sent (w_kernel w) @ concat segs"
  shows "\<exists>msgs bb port v'.
    simulate (SimConfig_default\<lparr>sc_num_messages := of_nat n, sc_num_symbols := of_nat s\<rparr>) (engine (of_nat x)) = Inr msgs \<and>
    length msgs = n \<and> out = [Listening port, ClientConnected, Streamed (of_nat n) True] \<and>
    run_items (bb_handler True) (map message_item msgs) (BookBuilder_init True) = Inr bb \<and>
    feedhandler True E' (flags [(''tcp'', host @ CHR '':'' # decimal q)]) v =
      Some (Inr (Exit 0, [ConnectedTo host (of_nat q), Summary \<lparr>fs_forwarded = of_nat n, fs_dropped = 0,
        fs_malformed = 0, fs_seq = SeqStats_init\<lparr>st_total := of_nat n, st_in_order := of_nat n\<rparr>,
        fs_symbols = symbol_count (bb_manager bb), fs_invariants = True,
        fs_fingerprint = book_fingerprint (bb_manager bb)\<rparr>], v'))"
proof -
  let ?kvs = "[(''messages'', decimal n), (''symbols'', decimal s), (''seed'', decimal x), (''tcp'', decimal p)]"
  let ?args = "parse_args (flags ?kvs) Map.empty" and ?c = "ev_connect E' host (of_nat q)"
  from assms(3) have "n < 2 ^ 64" by simp
  note args = simulator_flags [OF this assms(2,4) decimal_not_flag, of "''tcp''", simplified]
  from flags_feed [OF assms(1-3), of "engine (of_nat x)"] obtain msgs where msgs:
    "simulate (feedsim_config ?args) (engine (of_nat x)) = Inr msgs" "length msgs = n" "list_all message_ok msgs"
    "\<And>ms rest. msgs = ms @ rest \<Longrightarrow> map fst ms = map (\<lambda>i. 1 + of_nat i) [0..<length ms] \<and>
      (\<forall>L \<in> ran (snd (ab_run (map message_item ms) Map.empty)). \<not> ab_crossed L)" unfolding args(1) by metis
  from simulate_sink [OF msgs(1)] obtain sim where sim:
    "MarketSimulator_init (feedsim_config ?args) (engine (of_nat x)) = Inr sim" by metis
  have "feedsim_tcp E ?args sim w = Some (Inr (Exit 0, out, w'))"
    using assms(6) args(2,3) args(4) [of "''out''"] sim by (simp add: feedsim_def args_str_def args_has_def)
  from feedsim_tcp_sent [OF msgs(1) sim msgs(3) this assms(5)] assms(13) obtain port where
    sent: "out = [Listening port, ClientConnected, Streamed (of_nat n) True]" "concat segs = wire msgs"
    by (auto simp: msgs(2))
  from msgs(4) [of msgs "[]"] have whole: "map fst msgs = map (\<lambda>i. 1 + of_nat i) [0..<length msgs]"
    "\<forall>L \<in> ran (snd (ab_run (map message_item msgs) Map.empty)). \<not> ab_crossed L" by simp_all
  from consume_all_contiguous [OF msgs(3) sent(2) whole(1)] obtain f where f:
    "consume_all (bb_handler True) segs (FeedHandler_init (BookBuilder_init True)) = Inr f"
    "fh_malformed f = 0" "forwarded f = of_nat n" "dropped f = 0"
    "stats (seq_tracker f) = SeqStats_init\<lparr>st_total := of_nat n, st_in_order := of_nat n\<rparr>"
    "builder_rep (down f) (snd (ab_run (map message_item msgs) Map.empty))"
    "run_items (bb_handler True) (map message_item msgs) (BookBuilder_init True) = Inr (down f)"
    by (auto simp: msgs(2))
  have inv: "check_all_invariants (bb_manager (down f)) = Inr True"
    using books_uncrossed [OF f(6)] whole(2) by simp
  from tcp_loop_delivers [OF assms(12), of "bb_handler True" "FeedHandler_init (BookBuilder_init True)"]
  have loop: "tcp_loop (ev_recv E' (sc_socket ?c)) (bb_handler True) (FeedHandler_init (BookBuilder_init True))
      (w_kernel v) = Some (Inr (f, k))" by (simp add: f(1))
  have "q < 2 ^ 64" using assms(8) by simp
  note host = host_port_read [OF this, of host]
  have "\<not> prefix ''--'' (host @ CHR '':'' # decimal q)"
    using assms(7) by (cases host; cases "tl host") auto
  then have "parse_args (flags [(''tcp'', host @ CHR '':'' # decimal q)]) Map.empty =
      [''tcp'' \<mapsto> host @ CHR '':'' # decimal q]"
    using parse_args_flags [of "[(''tcp'', host @ CHR '':'' # decimal q)]" Map.empty] by (simp add: flags_def)
  then have "\<exists>v'. feedhandler True E' (flags [(''tcp'', host @ CHR '':'' # decimal q)]) v =
      Some (Inr (Exit 0, [ConnectedTo host (of_nat q), Summary \<lparr>fs_forwarded = of_nat n, fs_dropped = 0,
        fs_malformed = 0, fs_seq = SeqStats_init\<lparr>st_total := of_nat n, st_in_order := of_nat n\<rparr>,
        fs_symbols = symbol_count (bb_manager (down f)), fs_invariants = True,
        fs_fingerprint = book_fingerprint (bb_manager (down f))\<rparr>], v'))"
    using host assms(9-11) loop inv f(2-5)
    by (auto simp: feedhandler_def args_has_def args_str_def tcp_connect_def adopt_def socket_assign_def
        socket_close_def Socket_init_def feed_ended_def print_summary_def Let_def split_beta)
  with msgs(1,2) sent(1) f(7) show ?thesis unfolding args(1) by blast
qed

text \<open>A world with an empty disk, and system calls that refuse everything.\<close>

definition empty_world :: "unit world" where
  "empty_world = \<lparr>w_files = (\<lambda>path. roomy_disk), w_net = \<lparr>n_open = {0, 1, 2}, n_bad_close = 0\<rparr>, w_kernel = ()\<rparr>"

definition no_calls :: calls where
  "no_calls = \<lparr>sc_socket = - 1, sc_bind = - 1, sc_listen = - 1, sc_accept = - 1, sc_pton = None,
     sc_connect = - 1, sc_port = None\<rparr>"

definition no_net :: "unit env" where
  "no_net = \<lparr>ev_listen = (\<lambda>port. no_calls), ev_accept = (\<lambda>fd. no_calls), ev_udp_open = (\<lambda>host port. no_calls),
     ev_connect = (\<lambda>host port. no_calls), ev_bind = (\<lambda>port. no_calls), ev_send = (\<lambda>fd k data. (SendFailed, k)),
     ev_sendto = (\<lambda>fd a p k data. (- 1, k)), ev_recv = (\<lambda>fd k. (RecvFailed, k)),
     ev_timeout = (\<lambda>fd tv k. (- 1, k)), ev_recvfrom = (\<lambda>fd k. (RecvFailed, k))\<rparr>"

theorem feedsim_then_replay_witness:
  "\<exists>msgs ms (bb :: BookBuilder) w'. length msgs = 3 \<and> whole 976 msgs ms \<and>
    feedsim (\<lambda>seed. sconst (unat seed)) no_net (flags [(''messages'', decimal 3), (''symbols'', decimal 2),
      (''seed'', decimal 42), (''out'', ''f.cap'')]) empty_world =
      Some (Inr (Exit 0, [WroteMessages 3 ''f.cap''], w')) \<and>
    replay_app True 1000 (flags [(''in'', ''f.cap''), (''mode'', ''accel''), (''speed'', decimal 25)]) w' =
      Inr (Exit 0, ReplayComplete (clean_report (length ms)) (symbol_count (bb_manager bb)) True
          (book_fingerprint (bb_manager bb)) #
        map (\<lambda>(symbol, bk). TopOfBook (top_line_of symbol bk)) (bb_manager bb), w')"
proof -
  have "(0 :: nat) < 2" "(2 :: nat) < 2 ^ 32" "(3 :: nat) * 500 < 2 ^ 32" "(42 :: nat) < 2 ^ 64"
    "''f.cap'' \<noteq> []" "\<not> prefix ''--'' ''f.cap''" "\<not> prefix ''--'' ''accel''"
    "d_openable (w_files empty_world ''f.cap'')" "kCaptureHeaderSize \<le> d_limit (w_files empty_world ''f.cap'')"
    "(1 :: nat) \<le> 25" "(25 :: nat) < 2 ^ 53" "0 \<le> sint (1000 :: u64)" "sint (1000 :: u64) \<le> 2 ^ 61"
    by (simp_all add: empty_world_def roomy_disk_def kCaptureHeaderSize_def)
  note run = feedsim_then_replay [OF this, of "\<lambda>seed. sconst (unat seed)" no_net]
  have "d_limit (w_files empty_world ''f.cap'') - kCaptureHeaderSize = 976" "(of_nat 3 :: u64) = 3"
    by (simp_all add: empty_world_def roomy_disk_def kCaptureHeaderSize_def)
  from run [unfolded this] show ?thesis by (elim exE conjE) (intro exI conjI; assumption)
qed

text \<open>A world in which every call succeeds: sends append to the kernel's bytes, a receive takes all.\<close>

definition good_calls :: calls where
  "good_calls = \<lparr>sc_socket = 3, sc_bind = 0, sc_listen = 0, sc_accept = 4, sc_pton = Some 16777343,
     sc_connect = 0, sc_port = Some 9001\<rparr>"

definition good_net :: "byte list env" where
  "good_net = \<lparr>ev_listen = (\<lambda>port. good_calls), ev_accept = (\<lambda>fd. good_calls),
     ev_udp_open = (\<lambda>host port. good_calls), ev_connect = (\<lambda>host port. good_calls), ev_bind = (\<lambda>port. good_calls),
     ev_send = (\<lambda>fd k data. (Sent (length data), k @ data)),
     ev_sendto = (\<lambda>fd a p k data. (int (length data), k @ data)),
     ev_recv = (\<lambda>fd k. (Received k, [])), ev_timeout = (\<lambda>fd tv k. (0, k)),
     ev_recvfrom = (\<lambda>fd k. (Received k, []))\<rparr>"

definition wired_world :: "byte list \<Rightarrow> byte list world" where
  "wired_world k = \<lparr>w_files = (\<lambda>path. roomy_disk), w_net = \<lparr>n_open = {0, 1, 2}, n_bad_close = 0\<rparr>, w_kernel = k\<rparr>"

lemma good_send_all: "send_all (\<lambda>k data. (Sent (length data), k @ data)) data k = Some (True, k @ data)"
  by (cases "data = []") (simp_all add: send_all.simps [of _ data] send_all.simps [of _ "[]"])

lemma good_stream:
  "list_all message_ok msgs \<Longrightarrow> feed_sink (tcp_sink (\<lambda>k data. (Sent (length data), k @ data))) msgs (Some (True, n, k)) =
     Inr (Some (True, n + of_nat (length msgs), k @ wire msgs))"
proof (induction msgs arbitrary: n k)
  case (Cons m msgs)
  then show ?case by (cases m) (simp add: tcp_sink_simps good_send_all)
qed simp

theorem feedsim_to_feedhandler_witness:
  "\<exists>out w' bb v'.
    feedsim (\<lambda>seed. sconst (unat seed)) good_net (flags [(''messages'', decimal 3), (''symbols'', decimal 2),
      (''seed'', decimal 42), (''tcp'', decimal 9001)]) (wired_world []) = Some (Inr (Exit 0, out, w')) \<and>
    feedhandler True good_net (flags [(''tcp'', ''127.0.0.1'' @ CHR '':'' # decimal 9001)]) (wired_world (w_kernel w')) =
      Some (Inr (Exit 0, [ConnectedTo ''127.0.0.1'' (of_nat 9001), Summary \<lparr>fs_forwarded = of_nat 3, fs_dropped = 0,
        fs_malformed = 0, fs_seq = SeqStats_init\<lparr>st_total := of_nat 3, st_in_order := of_nat 3\<rparr>,
        fs_symbols = symbol_count (bb_manager bb), fs_invariants = True,
        fs_fingerprint = book_fingerprint (bb_manager (bb :: BookBuilder))\<rparr>], v'))"
proof -
  let ?engine = "\<lambda>seed :: u64. sconst (unat seed)"
  let ?args = "parse_args (flags [(''messages'', decimal 3), (''symbols'', decimal 2), (''seed'', decimal 42),
    (''tcp'', decimal 9001)]) Map.empty"
  have bounds: "(0 :: nat) < 2" "(2 :: nat) < 2 ^ 32" "(3 :: nat) * 500 < 2 ^ 32" "(42 :: nat) < 2 ^ 64"
    "(9001 :: nat) < 2 ^ 16" "\<not> prefix ''--'' ''127.0.0.1''" by simp_all
  have "(3 :: nat) < 2 ^ 64" by simp
  note args = simulator_flags [OF this bounds(2,4) decimal_not_flag [of 9001], of "''tcp''", simplified]
  from flags_feed [OF bounds(1-3), of "?engine (of_nat 42)"] obtain msgs where msgs:
    "simulate (feedsim_config ?args) (?engine (of_nat 42)) = Inr msgs" "length msgs = 3" "list_all message_ok msgs"
    unfolding args(1) by auto
  from simulate_sink [OF msgs(1)] obtain sim m' where sim:
    "MarketSimulator_init (feedsim_config ?args) (?engine (of_nat 42)) = Inr sim"
    "\<And>(sink :: Sequence \<Rightarrow> TimestampNs \<Rightarrow> Body \<Rightarrow> (bool \<times> u64 \<times> byte list) option \<Rightarrow> (bool \<times> u64 \<times> byte list) option exec) st.
      sim_run sink sim st = ebind (feed_sink sink msgs st) (\<lambda>st. Inr (m', of_nat (length msgs), st))" by metis
  obtain out w' where run: "feedsim ?engine good_net (flags [(''messages'', decimal 3), (''symbols'', decimal 2),
      (''seed'', decimal 42), (''tcp'', decimal 9001)]) (wired_world []) = Some (Inr (Exit 0, out, w'))"
    "w_kernel w' = wire msgs"
    using args(2,3) args(4) [of "''out''"] sim good_stream [OF msgs(3), of 0 "[]"]
    by (auto simp: feedsim_def args_str_def args_has_def feedsim_tcp_def good_net_def good_calls_def tcp_listen_def
        tcp_accept_def adopt_def socket_assign_def socket_close_def Socket_init_def ends_def wired_world_def)
  have contract: "send_contract (ev_send good_net fd) (\<lambda>k. k)" for fd
    by (simp add: send_contract_def good_net_def)
  have "wire msgs \<noteq> []"
    using msgs(2,3) frame_bytes_not_Nil by (cases msgs) auto
  then have recv: "delivers (recv_some (ev_recv good_net (sc_socket (ev_connect good_net ''127.0.0.1'' (of_nat 9001)))))
      (w_kernel (wired_world (w_kernel w'))) [wire msgs] []"
    by (auto intro!: delivers.intros simp: good_net_def wired_world_def run(2) recv_some.simps)
  have conn: "0 \<le> sc_socket (ev_connect good_net ''127.0.0.1'' (of_nat 9001))"
    "sc_pton (ev_connect good_net ''127.0.0.1'' (of_nat 9001)) \<noteq> None"
    "sc_connect (ev_connect good_net ''127.0.0.1'' (of_nat 9001)) = 0"
    by (simp_all add: good_net_def good_calls_def)
  have "w_kernel w' = w_kernel (wired_world []) @ concat [wire msgs]" by (simp add: run(2) wired_world_def)
  from feedsim_to_feedhandler [OF bounds(1-4) contract run(1) bounds(6,5) conn recv this] run(1)
  show ?thesis by blast
qed

end
