(* ===== verification/Bench_Feed.thy ===== *)
theory Bench_Feed
  imports Feed_Apps Latency_Stats Pipeline_Fairness
begin

text \<open>
  Model of \<^verbatim>\<open>benchmarks/bench_feed.cpp\<close>: a feed of the simulator in memory, one pass over it as a whole,
  one message by message under a stopwatch, one through the concurrent pipeline, and the comparison
  of the two fingerprints. The readings of the stopwatch, \<^verbatim>\<open>std::nth_element\<close> and what the threads of
  the pipeline leave behind are parameters; the throughputs, which are printed only, are left out.
\<close>

section \<open>The feed\<close>

definition bench_config :: "args \<Rightarrow> SimConfig" where
  "bench_config args = SimConfig_default
     \<lparr>sc_num_messages := args_u64 ''messages'' 2000000 args,
      sc_num_symbols := ucast (args_u64 ''symbols'' 16 args)\<rparr>"

text \<open>The callback of \<open>build_feed\<close>: the scratch buffer, the feed so far, offset and length of its frames.\<close>

type_synonym feed_state = "byte list \<times> byte list \<times> (nat \<times> nat) list"

definition bench_sink :: "Sequence \<Rightarrow> TimestampNs \<Rightarrow> Body \<Rightarrow> feed_state \<Rightarrow> feed_state exec" where
  "bench_sink seq ts body = (\<lambda>(tmp, buf, frames).
     ebind (encode_message tmp seq ts body) (\<lambda>(tmp, len).
     let off = length buf
     in ebind (subspan tmp 0 len) (\<lambda>bytes. Inr (tmp, buf @ bytes, frames @ [(off, len)]))))"

definition build_feed :: "SimConfig \<Rightarrow> tape \<Rightarrow> (byte list \<times> (nat \<times> nat) list) exec" where
  "build_feed cfg rng =
     ebind (MarketSimulator_init cfg rng) (\<lambda>sim.
     ebind (sim_run bench_sink sim (replicate kMaxMessageSize 0, [], [])) (\<lambda>(sim, n, tmp, buf, frames).
     Inr (buf, frames)))"

section \<open>The passes\<close>

text \<open>Messages, malformed frames and fingerprint of the pass over the whole feed.\<close>

definition whole_pass :: "bool \<Rightarrow> byte list \<Rightarrow> (u64 \<times> u64 \<times> u64) exec" where
  "whole_pass ndebug feed =
     (let builder = set_verify False (BookBuilder_init ndebug)
      in ebind (consume (bb_handler ndebug) feed (FeedHandler_init builder)) (\<lambda>(feedh, r).
         Inr (of_nat (messages r), of_nat (malformed r), book_fingerprint (bb_manager (down feedh)))))"

text \<open>\<open>elapsed i\<close> is what the stopwatch shows for frame \<open>i\<close>, in nanoseconds.\<close>

fun latency_pass ::
  "bool \<Rightarrow> (nat \<Rightarrow> u64) \<Rightarrow> byte list \<Rightarrow> (nat \<times> nat) list \<Rightarrow> BookBuilder FeedHandler \<Rightarrow> LatencyHistogram \<Rightarrow>
     (BookBuilder FeedHandler \<times> LatencyHistogram) exec" where
  "latency_pass ndebug elapsed feed [] feedh hist = Inr (feedh, hist)"
| "latency_pass ndebug elapsed feed ((off, len) # frames) feedh hist =
     ebind (subspan feed off len) (\<lambda>frame.
     ebind (consume_datagram (bb_handler ndebug) frame feedh) (\<lambda>(feedh, r).
     latency_pass ndebug elapsed feed frames feedh (lh_add (elapsed (lh_count hist)) hist)))"

section \<open>The report\<close>

record bench_report =
  br_messages :: u64
  br_malformed :: u64
  br_latency :: LatencySummary
  br_analytics :: u64
  br_deterministic :: bool

datatype bench_line =
    Generating u64 u32 u64
  | FeedSize nat nat
  | Results bench_report
  | WroteJson string

text \<open>The JSON file repeats the report, with the symbols and the seed; \<open>writable\<close> says which paths can be
  opened. The pipeline is the default one, and \<open>mt\<close> its members once \<^verbatim>\<open>run\<close> has returned.\<close>

type_synonym json_file = "string \<times> u32 \<times> u64 \<times> bench_report"

definition bench_main ::
  "bool \<Rightarrow> (u64 \<Rightarrow> tape) \<Rightarrow> (nat \<Rightarrow> u64 list \<Rightarrow> u64 list) \<Rightarrow> (nat \<Rightarrow> u64) \<Rightarrow> (byte list \<Rightarrow> rings) \<Rightarrow>
     (string \<Rightarrow> bool) \<Rightarrow> string list \<Rightarrow> (nat \<times> bench_line list \<times> json_file option) exec" where
  "bench_main ndebug engine nth_element elapsed mt writable argv =
     (let args = parse_args argv Map.empty; cfg = bench_config args; seed = args_u64 ''seed'' 1 args;
          json_path = args_str ''json'' '''' args
      in ebind (build_feed cfg (engine seed)) (\<lambda>(feed, frames).
         ebind (whole_pass ndebug feed) (\<lambda>(st_msgs, st_malformed, st_fingerprint).
         ebind (latency_pass ndebug elapsed feed frames
             (FeedHandler_init (set_verify False (BookBuilder_init ndebug))) LatencyHistogram_init) (\<lambda>(feedh, hist).
         ebind (summarize nth_element hist) (\<lambda>(lat, hist).
         let report = \<lparr>br_messages = st_msgs, br_malformed = st_malformed, br_latency = lat,
               br_analytics = pr_analytics_events (pl_result (mt feed)),
               br_deterministic = (pl_fingerprint (mt feed) = st_fingerprint)\<rparr>;
             out = [Generating (sc_num_messages cfg) (sc_num_symbols cfg) seed,
               FeedSize (length feed) (length frames), Results report]
         in Inr (if json_path \<noteq> [] \<and> writable json_path
                 then (0, out @ [WroteJson json_path],
                       Some (json_path, sc_num_symbols cfg, seed, report))
                 else (0, out, None)))))))"

section \<open>The feed is the wire form of the simulated messages\<close>

text \<open>Offset and length of each message of a stream.\<close>

fun frame_table :: "nat \<Rightarrow> message list \<Rightarrow> (nat \<times> nat) list" where
  "frame_table off [] = []"
| "frame_table off (m # msgs) = (off, length (message_bytes m)) # frame_table (off + length (message_bytes m)) msgs"

lemma length_frame_table [simp]: "length (frame_table off msgs) = length msgs"
  by (induction msgs arbitrary: off) simp_all

lemma frame_table_in: "(o', n) \<in> set (frame_table off msgs) \<Longrightarrow> o' + n \<le> off + length (wire msgs)"
  by (induction msgs arbitrary: off) fastforce+

lemma bench_sink_frame:
  assumes "body_ok body" and "length tmp = kMaxMessageSize"
  shows "\<exists>tmp'. bench_sink seq ts body (tmp, buf, frames) =
      Inr (tmp', buf @ message_bytes (seq, ts, body),
        frames @ [(length buf, length (message_bytes (seq, ts, body)))]) \<and> length tmp' = kMaxMessageSize"
proof -
  let ?frame = "frame_bytes seq ts body"
  have len: "length ?frame \<le> kMaxMessageSize"
    using body_size_for_bounds [of "msg_type_of body"] assms(1) by (simp add: length_frame_bytes)
  with encode_message_bytes [OF assms(1), of tmp seq ts] assms body_size_for_bounds [of "msg_type_of body"]
  have "encode_message tmp seq ts body = Inr (?frame @ drop (length ?frame) tmp, length ?frame)"
    by simp
  then show ?thesis using len assms(2) by (auto simp: bench_sink_def)
qed

lemma bench_sink_feed:
  "list_all message_ok msgs \<Longrightarrow> length tmp = kMaxMessageSize \<Longrightarrow>
    \<exists>tmp'. feed_sink bench_sink msgs (tmp, buf, frames) =
      Inr (tmp', buf @ wire msgs, frames @ frame_table (length buf) msgs)"
proof (induction msgs arbitrary: tmp buf frames)
  case (Cons m msgs)
  obtain seq ts body where m: "m = (seq, ts, body)" by (cases m)
  from Cons.prems have "body_ok body" by (simp add: m)
  from bench_sink_frame [OF this Cons.prems(2), of seq ts buf frames] obtain tmp1 where
    "bench_sink seq ts body (tmp, buf, frames) =
      Inr (tmp1, buf @ message_bytes m, frames @ [(length buf, length (message_bytes m))])"
    "length tmp1 = kMaxMessageSize" by (auto simp: m)
  with Cons.IH [of tmp1 "buf @ message_bytes m" "frames @ [(length buf, length (message_bytes m))]"] Cons.prems(1)
  show ?case by (simp add: m del: message_bytes.simps)
qed simp

lemma build_feed_wire:
  assumes "simulate cfg rng = Inr msgs" and "list_all message_ok msgs"
  shows "build_feed cfg rng = Inr (wire msgs, frame_table 0 msgs)"
proof -
  from simulate_sink [OF assms(1)] obtain m m' where m: "MarketSimulator_init cfg rng = Inr m"
    "\<And>(sink :: Sequence \<Rightarrow> TimestampNs \<Rightarrow> Body \<Rightarrow> feed_state \<Rightarrow> feed_state exec) st.
      sim_run sink m st = ebind (feed_sink sink msgs st) (\<lambda>st. Inr (m', of_nat (length msgs), st))" by metis
  from bench_sink_feed [OF assms(2), of "replicate kMaxMessageSize 0" "[]" "[]"] show ?thesis
    by (auto simp: build_feed_def m)
qed

section \<open>The passes do not fault\<close>

lemma latency_pass_ok:
  assumes "\<And>off n. (off, n) \<in> set frames \<Longrightarrow> off + n \<le> length feed"
  shows "builder_inv ndebug (down f) \<Longrightarrow>
    \<exists>f' hist'. latency_pass ndebug elapsed feed frames f hist = Inr (f', hist') \<and>
      length (lh_samples hist') = length (lh_samples hist) + length frames"
  using assms
proof (induction ndebug elapsed feed frames f hist rule: latency_pass.induct)
  case (2 ndebug elapsed feed off len frames f hist)
  let ?frame = "take len (drop off feed)"
  from builder.consume_datagram_safe [of f ndebug ?frame] "2.prems"(1) obtain f1 r where step:
    "consume_datagram (bb_handler ndebug) ?frame f = Inr (f1, r)" "builder_inv ndebug (down f1)"
    by (auto simp: builder_inv_def)
  from "2.prems"(2) have sub: "subspan feed off len = Inr ?frame" by simp
  from "2.IH" [OF sub step(1) refl step(2)] "2.prems"(2) sub step(1) show ?case
    by (auto simp: lh_add_def)
qed simp

lemma summarize_counts:
  assumes "nth_element_ok nth_element" and "length (lh_samples h) \<le> 2 ^ 53"
  shows "\<exists>s h'. summarize nth_element h = Inr (s, h') \<and> ls_count s = of_nat (length (lh_samples h))"
proof (cases "lh_samples h = []")
  case True
  then show ?thesis by (simp add: summarize_def LatencySummary_init_def)
next
  case False
  from summarize_value [OF assms(1) this assms(2)] show ?thesis by auto
qed

section \<open>Properties\<close>

text \<open>The pipeline has run on a feed and left \<open>s\<close>.\<close>

definition pipeline_returned :: "bool \<Rightarrow> PipelineConfig \<Rightarrow> byte list \<Rightarrow> rings \<Rightarrow> bool" where
  "pipeline_returned ndebug cfg msgs s \<longleftrightarrow> rings_run ndebug cfg msgs (Inr s) \<and> pipe_finished (flat s)"

text \<open>Every fair run of theory \<open>Pipeline_Fairness\<close> returns.\<close>

lemma fair_run_returned:
  assumes "scheduled_run ndebug cfg msgs \<tau> \<sigma>" and "pc_analytics_every cfg \<noteq> 0"
    and "fair \<tau>" and "eventually_visible \<tau> \<sigma>"
  shows "\<exists>n. pipeline_returned ndebug cfg msgs (\<sigma> n)"
proof -
  from assms(1) obtain frames ticks where queues: "run_queues cfg = Some (frames, ticks)"
    "\<sigma> 0 = rings_init ndebug frames ticks" by (auto simp: scheduled_run_def split: option.splits)
  have "ring_reach ndebug cfg msgs (\<sigma> 0) (Inr (\<sigma> k))" for k
  proof (induction k)
    case 0
    show ?case by (rule ring_here)
  next
    case (Suc k)
    with scheduled_stay [OF assms(1), of k] scheduled_step [OF assms(1), of k] ring_next ring_stepI
    show ?case by (cases "ended (\<tau> k) (\<sigma> k)") (simp, blast)
  qed
  with queues fair_run_finishes [OF assms] show ?thesis
    by (auto simp: pipeline_returned_def rings_run_def)
qed

lemma pipe_feed_inv: "builder_inv ndebug (down (pipe_feed ndebug))"
  using pipe_inv_init [of ndebug "[]"]
  by (simp add: pipe_inv_def pipeline_init_def threads_init_def threads.defs pipe_feed_def)

lemma whole_pass_wire:
  assumes "list_all message_ok msgs"
    and "pipeline_returned ndebug cfg (wire msgs) s" and "pc_analytics_every cfg \<noteq> 0"
  shows "whole_pass ndebug (wire msgs) = Inr (of_nat (length msgs), 0, pl_fingerprint s)"
proof -
  from assms(2) have run: "rings_run ndebug cfg (wire msgs) (Inr s)" "pl_book (flat s) = BExit"
    by (simp_all add: pipeline_returned_def pipe_finished_def)
  from rings_run_inv [OF run(1) assms(3)] have "pipe_inv ndebug (wire msgs) (flat s)" by auto
  from finished_books [OF this run(2)] obtain f rep where f:
    "consume (bb_handler ndebug) (wire msgs) (pipe_feed ndebug) = Inr (f, rep)"
    "pl_fingerprint s = book_fingerprint (bb_manager (down f))"
    by (auto simp: same_results_def published_def)
  have "messages rep = length msgs" "malformed rep = 0"
    using f(1) consume_eq [of "pipe_feed ndebug" "wire msgs" "map message_item msgs" "length (wire msgs)" AtEnd
        "bb_handler ndebug"] scan_wire_end [OF assms(1)]
    by (auto simp: pipe_feed_def Inr_eq_ebind_iff)
  with f show ?thesis by (simp add: whole_pass_def pipe_feed_def)
qed

text \<open>C18. The benchmark's verdict is always the same: for every seed, every reading of the stopwatch, every
  \<^verbatim>\<open>std::nth_element\<close> that does what the standard says and every interleaving of the threads of the
  pipeline in which they return, a run on the feed of a sane configuration (\<open>config_ok\<close>,
  spelled out in \<^verbatim>\<open>Simulator_Feed\<close>) ends with exit code 0 and reports every message, none malformed, one latency sample per
  message, and \<open>deterministic: YES\<close>.\<close>

theorem bench_reports_deterministic:
  assumes "config_ok (bench_config (parse_args argv Map.empty))" and "nth_element_ok nth_element"
    and "\<And>feed. pipeline_returned ndebug PipelineConfig_default feed (mt feed)"
  shows "\<exists>out json rep. bench_main ndebug engine nth_element elapsed mt writable argv = Inr (0, out, json) \<and>
    Results rep \<in> set out \<and> br_deterministic rep \<and> br_malformed rep = 0 \<and>
    br_messages rep = sc_num_messages (bench_config (parse_args argv Map.empty)) \<and>
    ls_count (br_latency rep) = sc_num_messages (bench_config (parse_args argv Map.empty))"
proof -
  define args where "args = parse_args argv Map.empty"
  let ?cfg = "bench_config args"
  note ok = assms(1) [folded args_def]
  from simulate_ok [OF ok, of "engine (args_u64 ''seed'' 1 args)"] obtain msgs where msgs:
    "simulate ?cfg (engine (args_u64 ''seed'' 1 args)) = Inr msgs" "length msgs = unat (sc_num_messages ?cfg)"
    "list_all message_ok msgs" by blast
  from ok have "0 < sc_max_qty ?cfg" "unat (sc_num_messages ?cfg) * unat (sc_max_qty ?cfg) < 2 ^ 32"
    by (auto simp: config_ok_def)
  then have "unat (sc_num_messages ?cfg) * 1 \<le> unat (sc_num_messages ?cfg) * unat (sc_max_qty ?cfg)"
    by (intro mult_le_mono2) (simp add: word_less_nat_alt Suc_le_eq)
  also note \<open>unat (sc_num_messages ?cfg) * unat (sc_max_qty ?cfg) < 2 ^ 32\<close>
  finally have few: "length msgs \<le> 2 ^ 53" using msgs(2) by simp
  have "off + n \<le> length (wire msgs)" if "(off, n) \<in> set (frame_table 0 msgs)" for off n
    using frame_table_in [OF that] by simp
  from latency_pass_ok [where ndebug = ndebug and elapsed = elapsed and hist = LatencyHistogram_init
        and frames = "frame_table 0 msgs",
      OF this pipe_feed_inv] obtain f hist where pass:
    "latency_pass ndebug elapsed (wire msgs) (frame_table 0 msgs) (pipe_feed ndebug) LatencyHistogram_init = Inr (f, hist)"
    "length (lh_samples hist) = length msgs" by (auto simp: LatencyHistogram_init_def)
  from summarize_counts [OF assms(2), of hist] few pass(2) obtain lat hist' where lat:
    "summarize nth_element hist = Inr (lat, hist')" "ls_count lat = of_nat (length msgs)" by auto
  from whole_pass_wire [OF msgs(3) assms(3) default_period] have
    "whole_pass ndebug (wire msgs) = Inr (of_nat (length msgs), 0, pl_fingerprint (mt (wire msgs)))" .
  with build_feed_wire [OF msgs(1,3)] pass(1) lat msgs(2) show ?thesis
    unfolding args_def [symmetric]
    by (simp add: bench_main_def Let_def args_def [symmetric] pipe_feed_def)
qed

lemma returned_exists: "\<exists>mt. \<forall>feed. pipeline_returned ndebug PipelineConfig_default feed (mt feed)"
proof (rule choice, rule allI)
  fix feed
  from default_rings obtain s where "rings_run ndebug PipelineConfig_default feed (Inr s)" by blast
  from rings_run_finish [OF this default_period] show "\<exists>s. pipeline_returned ndebug PipelineConfig_default feed s"
    by (auto simp: pipeline_returned_def)
qed

theorem bench_reports_deterministic_witness:
  "\<exists>mt out json rep. bench_main True (\<lambda>seed. sconst (unat seed)) (\<lambda>k. sort) (\<lambda>i. 250) mt (\<lambda>path. False) [] =
      Inr (0, out, json) \<and> Results rep \<in> set out \<and> br_deterministic rep \<and> br_messages rep = 2000000"
proof -
  have args: "bench_config (parse_args [] Map.empty) =
      SimConfig_default\<lparr>sc_num_messages := of_nat 2000000, sc_num_symbols := of_nat 16\<rparr>"
    by (simp add: bench_config_def args_u64_def)
  have ok: "config_ok (bench_config (parse_args [] Map.empty))" unfolding args by (rule flags_config_ok) simp_all
  have nth: "nth_element_ok (\<lambda>k. sort)" by (simp add: nth_element_ok_def)
  from returned_exists obtain mt where "\<And>feed. pipeline_returned True PipelineConfig_default feed (mt feed)" by blast
  from bench_reports_deterministic [OF ok nth this, of "\<lambda>seed. sconst (unat seed)" "\<lambda>i. 250" "\<lambda>path. False"]
  show ?thesis unfolding args by auto
qed

end
