(* ===== verification/Spec2Isabelle.thy ===== *)
theory Spec2Isabelle
  imports Replay Spsc_Queue Simulator_Feed Capture Pipeline_Fairness Transport Latency_Stats
    Sockets App_Args Feed_Apps Bench_Feed
begin

text \<open>
  A market data feed handler that rebuilds limit order books from a binary exchange feed, the
  simulator and the capture files that produce such feeds, and the concurrent pipeline that runs
  the same path on three threads.

  \<^bold>\<open>The program and the theories.\<close> Bytes arrive as TCP segments, datagrams, captures or simulated
  messages. \<open>BinaryParser\<close> (\<^verbatim>\<open>include/mdfh/parser.hpp\<close>) frames and decodes them, \<open>FeedHandler\<close>
  (\<^verbatim>\<open>feed_handler.hpp\<close>) stands between the parser and the books: it buffers cut messages and lets a
  \<open>SequenceTracker\<close> (\<^verbatim>\<open>sequence_tracker.hpp\<close>) decide which messages go on, \<open>BookBuilder\<close>
  (\<^verbatim>\<open>book_builder.hpp\<close>, \<^verbatim>\<open>src/book_builder.cpp\<close>) applies them to one \<open>OrderBook\<close> per symbol
  (\<^verbatim>\<open>order_book.hpp\<close>, \<^verbatim>\<open>src/order_book.cpp\<close>).
  \<^item> \<^verbatim>\<open>Prelude\<close>, \<^verbatim>\<open>Containers\<close>: faults and their bind, checked storage, word lemmas, what the code uses
    of \<^verbatim>\<open>std::map\<close> (locale \<open>ordered_map\<close>) and \<^verbatim>\<open>std::unordered_map\<close>.
  \<^item> \<^verbatim>\<open>Protocol\<close>, \<^verbatim>\<open>Byte_Order\<close>, \<^verbatim>\<open>Serialization\<close>: \<^verbatim>\<open>types.hpp\<close>, \<^verbatim>\<open>protocol.hpp\<close>, \<^verbatim>\<open>byte_order.hpp\<close>,
    \<^verbatim>\<open>serialization.hpp\<close>; round trips in both directions, exact conditions of refusal, no access out
    of bounds.
  \<^item> \<^verbatim>\<open>Doubles\<close>: the \<^verbatim>\<open>double\<close> arithmetic of the program as rational numbers with IEEE rounding, its
    error bounds, and the price conversions of \<^verbatim>\<open>types.hpp\<close>, which are inverse up to \<open>2 ^ 50\<close> ticks.
  \<^item> \<^verbatim>\<open>Event_Handler\<close>, \<^verbatim>\<open>Parser\<close>, \<^verbatim>\<open>Sequence_Tracker\<close>, \<^verbatim>\<open>Feed_Handler\<close>: the callbacks as a record with
    the contracts \<open>handler\<close> and \<open>offset_blind\<close>, the framing loop against a declarative \<open>scan\<close> of the
    bytes, whose events are well typed (\<open>parse_events_typed\<close>), the tracker's decisions and counters,
    both entry points of the feed handler.
  \<^item> \<^verbatim>\<open>Order_Book\<close>, \<^verbatim>\<open>Order_Book_Spec\<close>, \<^verbatim>\<open>Order_Book_Refinement\<close>, \<^verbatim>\<open>Order_Book_Queries\<close>: the book with
    its list nodes in a store of addresses, so that an iterator that dangles would show; the abstract
    book, a list of live orders in time priority; a simulation lemma per operation; the queries as
    functions of the abstract book.
  \<^item> \<^verbatim>\<open>Book_Builder\<close>, \<^verbatim>\<open>Feed_To_Books\<close>: the books of all symbols against \<open>ab_run\<close> on abstract books, in
    release (\<open>ndebug\<close>) and debug builds; the composition from bytes to books.
  \<^item> \<^verbatim>\<open>Pacing\<close>, \<^verbatim>\<open>Replay\<close>: \<^verbatim>\<open>replay.hpp\<close>, \<^verbatim>\<open>src/replay.cpp\<close>: the two replay paths, the clock arithmetic of
    the timed one with the exact condition under which it is defined, and the book fingerprint.
  \<^item> \<^verbatim>\<open>Spsc_Queue\<close>: \<^verbatim>\<open>spsc_queue.hpp\<close>, its operations in stages, interleaved by two threads whose loads may
    return any value not older than the last one they saw; FIFO, no race on a slot, and refinement of
    \<open>fifo_enq\<close> and \<open>fifo_deq\<close>.
  \<^item> \<^verbatim>\<open>Spsc_Client\<close>: one operation of a thread on its queue, stage by stage, for the threads that use it.
  \<^item> \<^verbatim>\<open>Pipeline\<close>, \<^verbatim>\<open>Pipeline_Results\<close>: \<^verbatim>\<open>pipeline.hpp\<close> as a step relation of three threads over two bounded
    sequences of items, with an invariant by rule induction, its results and its progress.
  \<^item> \<^verbatim>\<open>Pipeline_Rings\<close>: the same three threads over two rings of \<open>Spsc_Queue\<close>, at the grain of their atomic
    loads and stores; a simulation (\<open>ring_step_matched\<close>) onto the pipeline over sequences, through which,
    for every sampling period but zero, the results are those of the single-threaded path (the malformed
    counters but for the \<open>withheld\<close> frames, which ingestion does not hand over), nothing faults, and the
    threads can always run to their end.
  \<^item> \<^verbatim>\<open>Pipeline_Spinning\<close>, \<^verbatim>\<open>Pipeline_Fairness\<close>: what is left to do as a lexicographic measure that every step
    decreases unless its thread waits for another one; runs under a scheduler, and the proof that \<^verbatim>\<open>run\<close>
    returns in every fair one with a nonzero sampling period (\<open>rings_terminate\<close>).
  \<^item> \<^verbatim>\<open>Market_Simulator\<close>, \<^verbatim>\<open>Simulator_Model\<close>, \<^verbatim>\<open>Simulator_Prices\<close>, \<^verbatim>\<open>Simulator_Feed\<close>: \<^verbatim>\<open>simulator.hpp\<close>,
    \<^verbatim>\<open>src/simulator.cpp\<close>; under a sane configuration (\<open>config_ok\<close>) every message it emits
    applies to the books of the messages before it.
  \<^item> \<^verbatim>\<open>Capture\<close>: \<^verbatim>\<open>capture.hpp\<close>, \<^verbatim>\<open>src/capture.cpp\<close> over a disk that may refuse to open a file or be full,
    and the reader over any results of its file calls.
  \<^item> \<^verbatim>\<open>Transport\<close>: the loops of \<^verbatim>\<open>src/net/socket.cpp\<close>, the streaming callback of \<^verbatim>\<open>src/apps/feedsim.cpp\<close>
    and the receive loops of \<^verbatim>\<open>src/apps/feedhandler.cpp\<close>, over socket calls that are parameters; a TCP
    and a UDP session from end to end.
  \<^item> \<^verbatim>\<open>Sockets\<close>: the descriptor wrapper of \<^verbatim>\<open>net/socket.hpp\<close> and the set-up calls of \<^verbatim>\<open>src/net/tcp.cpp\<close>
    and \<^verbatim>\<open>src/net/udp.cpp\<close>: which descriptors are open on which path, the receive timeout.
  \<^item> \<^verbatim>\<open>Latency_Stats\<close>: \<^verbatim>\<open>stats.hpp\<close>, with the double arithmetic of the mean and of the percentile ranks; the
    ranks, computed on natural numbers, are those of the double products (\<open>rank_of_doubles\<close>).
  \<^item> \<^verbatim>\<open>App_Args\<close>, \<^verbatim>\<open>Feed_Apps\<close>: the flag parser of \<^verbatim>\<open>src/apps/app_common.hpp\<close>, with the number readers of the
    standard library, and \<^verbatim>\<open>main\<close> of the three programs under \<^verbatim>\<open>src/apps\<close>, from the command line to the exit
    code and the values printed; what one program writes or streams the other reports exactly.
  \<^item> \<^verbatim>\<open>Bench_Feed\<close>: \<^verbatim>\<open>benchmarks/bench_feed.cpp\<close>, the feed of the simulator through the single-threaded path,
    message by message under a stopwatch, and through the pipeline; its verdict is always that the two
    agree.
  \<^item> this theory: the properties that span components.

  \<^bold>\<open>How the code is modelled.\<close> A function that can fault returns \<open>fault + 'a\<close> (\<open>'a exec\<close>): \<open>Inl\<close> is
  undefined behaviour or an abort of the source (an access out of bounds, an iterator that dangles, a
  failed assertion, a signed overflow, a double that does not fit the integer it is converted to, a
  missing key, a division by zero), \<open>Inr\<close> a result; refusals of the
  code are values inside \<open>Inr\<close>. Integers keep their width as words and wrap where the code's do; prices
  are signed 64-bit words. \<^verbatim>\<open>std::size_t\<close> offsets and lengths of buffers are natural numbers, since no
  buffer reaches \<open>2 ^ 64\<close> bytes; the indices and the capacity of the queue are words. Random draws are a
  tape of natural numbers reduced to the range of each distribution, so a statement about every tape is
  one about every seed and every standard library. Loops are structural or have a proved measure.
  Loops that may not end are a \<^verbatim>\<open>partial_function\<close>: the rounding of the queue capacity has the value
  \<open>None\<close> exactly above \<open>2 ^ 63\<close>, the loops around socket calls when the calls are interrupted for ever
  (\<open>send_all_complete\<close>) or the feed never ends. No definition uses fuel.

  \<^bold>\<open>Parameters.\<close> The results of socket and file calls, with \<open>send_contract\<close> for what POSIX says of
  \<^verbatim>\<open>::send\<close>; the wall clock at the start of a replay; \<^verbatim>\<open>std::nth_element\<close>, with \<open>nth_element_ok\<close> for what the
  standard says of it; the random engine; the stopwatch of the
  benchmark and, there, what the pipeline leaves behind, with \<open>pipeline_returned\<close> (which every fair run
  reaches, \<open>fair_run_returned\<close>).

  \<^bold>\<open>The concurrent parts.\<close> In \<^verbatim>\<open>Spsc_Queue\<close> an index is its whole modification order and each load picks
  a position in it, so stale values are covered. A flag of the pipeline may be read as false after it
  was set; once it is read as true its acquire makes the queue behind it up to date (\<open>see_heads\<close>), so
  the emptiness test that follows is exact (\<open>spsc_latest_load_exact\<close>). Progress is stated twice:
  from every reachable state some run of the threads finishes (\<open>rings_can_finish\<close>), and every run
  finishes in which each thread is scheduled again and again (\<open>fair\<close>) and each store is visible to the
  loads of the other threads after finitely many steps (\<open>eventually_visible\<close>). Both conditions are the
  progress guarantees of the C++ standard; there are runs that satisfy them (\<open>fair_run_exists\<close>).

  \<^bold>\<open>Not modelled.\<close> The sleep of the timed replay and the yields of the pipeline, and the wall-clock
  times they report, which change no other state; buffering of \<^verbatim>\<open>stdio\<close> (a write acts at once);
  \<^verbatim>\<open>SO_REUSEADDR\<close> and \<^verbatim>\<open>TCP_NODELAY\<close>, whose results the code ignores; the texts and number formats of the
  printed lines; failures of memory allocation; the plain accessors of the classes, which are the
  selectors of the records; the throughputs the benchmark prints; the tests, which only call the modelled
  components, and a script that tabulates the benchmark's output.
\<close>

section \<open>Properties of the whole pipeline\<close>

text \<open>C1. End to end, in a release build: a gap-free stream of well-formed messages, starting at any
  sequence number and cut into TCP segments in any way, rebuilds exactly the books the exchange's
  events define: no message is lost, duplicated or reordered, nothing is left in the buffer,
  nothing is reported malformed.\<close>

theorem stream_rebuilds_books:
  assumes "list_all message_ok msgs" and "concat segs = wire msgs"
    and "map fst msgs = map (\<lambda>i. s + of_nat i) [0..<length msgs]"
  shows "\<exists>f. consume_all (bb_handler True) segs (FeedHandler_init (BookBuilder_init True)) = Inr f \<and>
    residual f = [] \<and> fh_malformed f = 0 \<and> forwarded f = of_nat (length msgs) \<and>
    builder_rep (down f) (snd (ab_run (map message_item msgs) Map.empty))"
  using consume_all_wire [OF assms(1,2)] accepted_contiguous [OF assms(3)] by auto

definition session :: "message list" where
  "session = [(- 1, 10, BodyAdd sample_add), (0, 20, BodyHeartbeat)]"

theorem stream_rebuilds_books_witness:
  "\<exists>f. consume_all (bb_handler True)
      [take 30 (wire session), drop 30 (wire session)] (FeedHandler_init (BookBuilder_init True)) = Inr f \<and>
    forwarded f = 2 \<and>
    builder_rep (down f) [7 \<mapsto> [\<lparr>bo_id = 42, bo_side = Sell, bo_price = - 1, bo_qty = 300\<rparr>]]"
proof -
  let ?segs = "[take 30 (wire session), drop 30 (wire session)]"
  have ok: "list_all message_ok session" "concat ?segs = wire session"
    "map fst session = map (\<lambda>i. - 1 + of_nat i) [0..<length session]"
    by (simp_all add: session_def del: take_append drop_append wire_simps')
  have books: "snd (ab_run (map message_item session) Map.empty) =
      [7 \<mapsto> [\<lparr>bo_id = 42, bo_side = Sell, bo_price = - 1, bo_qty = 300\<rparr>]]"
    by (simp add: session_def sample_add_def ab_on_def ab_add_def ab_lookup_def)
  from stream_rebuilds_books [OF ok, unfolded books] show ?thesis
    by (auto simp: session_def simp del: consume_all.simps wire_simps' take_append drop_append)
qed

text \<open>C15. The same stream with losses, replays and reordering: the books are those of the messages
  that are newer than everything that arrived before them, and of no others. This holds for a
  stream in which no message is numbered \<open>2 ^ 32 - 1\<close>: that number makes the tracker's next
  expected number wrap to 0, and around it the code does not tell new messages from old ones.\<close>

theorem stream_applies_fresh_messages:
  assumes "list_all message_ok msgs" and "concat segs = wire msgs" and "- 1 \<notin> fst ` set msgs"
  shows "\<exists>f. consume_all (bb_handler True) segs (FeedHandler_init (BookBuilder_init True)) = Inr f \<and>
    residual f = [] \<and> fh_malformed f = 0 \<and> forwarded f = of_nat (length (fresh 0 msgs)) \<and>
    builder_rep (down f) (snd (ab_run (map message_item (fresh 0 msgs)) Map.empty))"
proof -
  have "accepted msgs SequenceTracker_init = fresh 0 msgs"
    by (rule accepted_fresh [OF assms(3)]) (simp add: SequenceTracker_init_def)
  with consume_all_wire [OF assms(1,2)] show ?thesis by auto
qed

definition replayed_session :: "message list" where
  "replayed_session = [(5, 10, BodyAdd sample_add), (8, 20, BodyCancel sample_cancel),
     (5, 10, BodyAdd sample_add), (7, 15, BodyAdd sample_add)]"

theorem stream_applies_fresh_messages_witness:
  "\<exists>f. consume_all (bb_handler True) [wire replayed_session]
      (FeedHandler_init (BookBuilder_init True)) = Inr f \<and>
    forwarded f = 2 \<and> builder_rep (down f) [7 \<mapsto> []]"
proof -
  have ok: "list_all message_ok replayed_session" "concat [wire replayed_session] = wire replayed_session"
    "- 1 \<notin> fst ` set replayed_session"
    by (simp_all add: replayed_session_def)
  have new: "fresh 0 replayed_session =
      [(5, 10, BodyAdd sample_add), (8, 20, BodyCancel sample_cancel)]"
    by (simp add: replayed_session_def)
  have books: "snd (ab_run (map message_item (fresh 0 replayed_session)) Map.empty) = [7 \<mapsto> []]"
    by (simp add: new sample_add_def sample_cancel_def ab_on_def ab_add_def ab_cancel_def
        ab_remove_def ab_lookup_def)
  from stream_applies_fresh_messages [OF ok, unfolded books] show ?thesis
    by (auto simp: new simp del: consume_all.simps)
qed

text \<open>Redundant delivery is harmless, away from the wrap of the sequence numbers: when every message
  arrives twice in a row, the books are the same as when it arrives once.\<close>

theorem doubled_stream_same_books:
  assumes "list_all message_ok msgs" and "- 1 \<notin> fst ` set msgs"
    and "concat segs = wire msgs" and "concat segs' = wire (concat (map (\<lambda>m. [m, m]) msgs))"
  shows "\<exists>f f' F. consume_all (bb_handler True) segs (FeedHandler_init (BookBuilder_init True)) = Inr f \<and>
    consume_all (bb_handler True) segs' (FeedHandler_init (BookBuilder_init True)) = Inr f' \<and>
    forwarded f' = forwarded f \<and> builder_rep (down f) F \<and> builder_rep (down f') F"
proof -
  have "list_all message_ok (concat (map (\<lambda>m. [m, m]) msgs))"
    using assms(1) by (auto simp: list_all_iff)
  from consume_all_wire [OF this assms(4)] consume_all_wire [OF assms(1,3)]
  show ?thesis by (auto simp: accepted_doubled [OF assms(2)])
qed

theorem doubled_stream_same_books_witness:
  "\<exists>f f' F. consume_all (bb_handler True) [wire replayed_session]
      (FeedHandler_init (BookBuilder_init True)) = Inr f \<and>
    consume_all (bb_handler True) [wire (concat (map (\<lambda>m. [m, m]) replayed_session))]
      (FeedHandler_init (BookBuilder_init True)) = Inr f' \<and>
    forwarded f' = forwarded f \<and> builder_rep (down f) F \<and> builder_rep (down f') F"
proof -
  have "list_all message_ok replayed_session" "- 1 \<notin> fst ` set replayed_session"
    by (simp_all add: replayed_session_def)
  from doubled_stream_same_books [OF this, of "[wire replayed_session]"
      "[wire (concat (map (\<lambda>m. [m, m]) replayed_session))]"] show ?thesis
    by (simp del: consume_all.simps)
qed

text \<open>C3. No input can break the handler: whatever bytes arrive, in whatever segments, a release build
  neither faults nor loses the representation of its books.\<close>

theorem any_bytes_safe:
  "\<exists>f. consume_all (bb_handler True) segs (FeedHandler_init (BookBuilder_init True)) = Inr f \<and>
    builder_ok (down f)"
  using builder.consume_all_safe [of "FeedHandler_init (BookBuilder_init True)" True segs]
  by (auto simp: builder_init_ok)

text \<open>C20. The result of a release build does not depend on how TCP cut the stream: two ways of cutting
  the same bytes give the same feed handler (books, tracker, counters and buffer), as long as the
  stream holds no header with an invalid type byte. Behind such a header the bytes are parsed only
  when the next segment arrives, so there the state does depend on the cut.\<close>

theorem segmentation_irrelevant:
  assumes "concat segs = concat segs'"
    and "scan 0 (concat segs) = (items, c, st)" and "st \<noteq> AtBadHeader"
  shows "consume_all (bb_handler True) segs (FeedHandler_init (BookBuilder_init True)) =
    consume_all (bb_handler True) segs' (FeedHandler_init (BookBuilder_init True))"
  using builder.consume_all_eq [of "FeedHandler_init (BookBuilder_init True)" segs items c st]
    builder.consume_all_eq [of "FeedHandler_init (BookBuilder_init True)" segs' items c st] assms
  by simp

theorem segmentation_irrelevant_witness:
  "consume_all (bb_handler True) [wire session] (FeedHandler_init (BookBuilder_init True)) =
    consume_all (bb_handler True) (map (\<lambda>b. [b]) (wire session))
      (FeedHandler_init (BookBuilder_init True))"
proof -
  have ok: "list_all message_ok session" by (simp add: session_def)
  have "concat [wire session] = concat (map (\<lambda>b. [b]) (wire session))"
    by (simp add: concat_map_singleton)
  from segmentation_irrelevant [OF this] scan_wire_end [OF ok] show ?thesis by simp
qed

text \<open>The simulator's messages at the books.\<close>

lemma simulated_feed:
  assumes "config_ok cfg" and "simulate cfg rng = Inr msgs" and "concat segs = wire msgs"
  shows "\<exists>f. consume_all (bb_handler True) segs (FeedHandler_init (BookBuilder_init True)) = Inr f \<and>
    list_all message_ok msgs \<and> length msgs = unat (sc_num_messages cfg) \<and>
    residual f = [] \<and> fh_malformed f = 0 \<and> forwarded f = of_nat (unat (sc_num_messages cfg)) \<and>
    bst_rejected (bb_stats (down f)) = 0 \<and> check_all_invariants (bb_manager (down f)) = Inr True"
proof -
  from simulate_ok [OF assms(1), of rng] assms(2) obtain F where feed:
    "length msgs = unat (sc_num_messages cfg)" "list_all message_ok msgs"
    "\<forall>i < length msgs. stamped cfg i (msgs ! i)"
    "ab_run (map message_item msgs) Map.empty = (0, F)" "\<And>symbol. \<not> ab_crossed (book_at F symbol)"
    by auto
  from stamped_numbers [OF refl feed(3)] have "map fst msgs = map (\<lambda>i. 1 + of_nat i) [0..<length msgs]"
    by simp
  with accepted_contiguous [of msgs 1] have all: "accepted msgs SequenceTracker_init = msgs" by simp
  from consume_all_wire [OF feed(2) assms(3)] obtain f where f:
    "consume_all (bb_handler True) segs (FeedHandler_init (BookBuilder_init True)) = Inr f"
    "residual f = []" "fh_malformed f = 0" "forwarded f = of_nat (length msgs)"
    "builder_rep (down f) F" "bst_rejected (bb_stats (down f)) = 0"
    by (auto simp: all feed(4))
  have "\<forall>L \<in> ran F. \<not> ab_crossed L" 
  proof
    fix L assume "L \<in> ran F"
    then obtain symbol where "F symbol = Some L" by (auto simp: ran_def)
    with feed(5) [of symbol] show "\<not> ab_crossed L" by (simp add: book_at_def)
  qed
  with f feed(1,2) books_uncrossed [OF f(5)] show ?thesis by auto
qed

text \<open>C2. Simulator, wire format, feed handler and books together, in a release build: whatever the
  simulator of a sane configuration (\<open>config_ok\<close>, spelled out in \<^verbatim>\<open>Simulator_Feed\<close>) draws, its messages, encoded
  and cut into segments in any way, are all forwarded, none is refused by the books, and no book
  ends up crossed.\<close>

theorem simulated_feed_end_to_end:
  assumes "config_ok cfg" and "simulate cfg rng = Inr msgs" and "concat segs = wire msgs"
  shows "\<exists>f. consume_all (bb_handler True) segs (FeedHandler_init (BookBuilder_init True)) = Inr f \<and>
    residual f = [] \<and> fh_malformed f = 0 \<and> forwarded f = of_nat (unat (sc_num_messages cfg)) \<and>
    bst_rejected (bb_stats (down f)) = 0 \<and> check_all_invariants (bb_manager (down f)) = Inr True"
  using simulated_feed [OF assms] by blast

theorem simulated_feed_end_to_end_witness:
  "\<exists>msgs f. simulate SimConfig_default (sconst 0) = Inr msgs \<and>
    consume_all (bb_handler True) [wire msgs] (FeedHandler_init (BookBuilder_init True)) = Inr f \<and>
    forwarded f = 1000000 \<and> bst_rejected (bb_stats (down f)) = 0"
proof -
  obtain msgs where msgs: "simulate SimConfig_default (sconst 0) = Inr msgs"
    using simulate_ok [OF default_config_ok] by blast
  from simulated_feed_end_to_end [OF default_config_ok msgs, of "[wire msgs]"] msgs show ?thesis
    by (auto simp: SimConfig_default_def simp del: consume_all.simps)
qed

text \<open>Record and replay: a simulated session written to a capture file, read back and replayed in
  any mode that its times pace reports every message and none malformed, and rebuilds the same
  uncrossed books as the live stream, with no event refused.\<close>

theorem captured_session_replays:
  assumes "config_ok cfg" and "simulate cfg rng = Inr msgs" and "d_openable d"
    and "kCaptureHeaderSize + length (wire msgs) \<le> d_limit d" and "mode_ok start_wall rcfg (wire msgs)"
  shows "\<exists>d' r' f res. capture_session msgs d = Inr (True, d') \<and> cr_open r d' = Inr (True, r') \<and>
    replay (bb_handler True) rcfg start_wall (cr_bytes r') (FeedHandler_init (BookBuilder_init True)) = Inr (f, res) \<and>
    consume_all (bb_handler True) [wire msgs] (FeedHandler_init (BookBuilder_init True)) = Inr f \<and>
    cr_count r' = sc_num_messages cfg \<and> rp_messages_parsed res = sc_num_messages cfg \<and>
    rp_malformed res = 0 \<and> bst_rejected (bb_stats (down f)) = 0 \<and>
    check_all_invariants (bb_manager (down f)) = Inr True"
proof -
  from simulated_feed [OF assms(1,2), of "[wire msgs]"] obtain f where f:
    "consume_all (bb_handler True) [wire msgs] (FeedHandler_init (BookBuilder_init True)) = Inr f"
    "list_all message_ok msgs" "length msgs = unat (sc_num_messages cfg)"
    "bst_rejected (bb_stats (down f)) = 0" "check_all_invariants (bb_manager (down f)) = Inr True"
    by (auto simp del: consume_all.simps)
  from capture_reads_back [OF f(2) assms(3,4)] obtain d' where
    "capture_session msgs d = Inr (True, d')"
    "\<And>r. cr_open r d' = Inr (True, \<lparr>cr_bytes = wire msgs, cr_count = of_nat (length msgs),
      cr_valid = True, cr_error = None\<rparr>)" by blast
  with f(1,3-5) replay_wire [OF f(2) assms(5) f(1)] show ?thesis by (simp del: consume_all.simps)
qed

theorem captured_session_replays_witness:
  "\<exists>msgs d' r' f res. simulate SimConfig_default (sconst 0) = Inr msgs \<and>
    capture_session msgs (roomy_disk\<lparr>d_limit := kCaptureHeaderSize + length (wire msgs)\<rparr>) = Inr (True, d') \<and>
    cr_open CaptureReader_init d' = Inr (True, r') \<and>
    replay (bb_handler True) realtime 0 (cr_bytes r') (FeedHandler_init (BookBuilder_init True)) = Inr (f, res) \<and>
    rp_messages_parsed res = 1000000"
proof -
  have "SimConfig_default\<lparr>sc_num_messages := of_nat 1000000, sc_num_symbols := of_nat 4\<rparr> = SimConfig_default"
    by (simp add: SimConfig_default_def)
  then obtain msgs where msgs: "simulate SimConfig_default (sconst 0) = Inr msgs" "list_all message_ok msgs"
    "\<forall>m \<in> set msgs. uint (fst (snd m) - fst (snd (hd msgs))) \<le> 2 ^ 62"
    using flags_feed [of 4 1000000 "sconst 0"] by auto
  have "mode_ok 0 realtime (wire msgs)"
    by (rule paced_capture [OF scan_wire_end [OF msgs(2)] _ realtime_simps(2)]) (use msgs(3) in simp_all)
  let ?d = "roomy_disk\<lparr>d_limit := kCaptureHeaderSize + length (wire msgs)\<rparr>"
  have "d_openable ?d" "kCaptureHeaderSize + length (wire msgs) \<le> d_limit ?d"
    "sc_num_messages SimConfig_default = 1000000" by (simp_all add: roomy_disk_def SimConfig_default_def)
  with captured_session_replays [OF default_config_ok msgs(1), of ?d 0 realtime CaptureReader_init]
    \<open>mode_ok 0 realtime (wire msgs)\<close> msgs(1) show ?thesis by metis
qed

end
